(* ===== verification/Prelude.thy ===== *)
theory Prelude
  imports Main "HOL-Library.Word" "HOL-Library.Multiset"
begin

text \<open>
  The vocabulary the component theories share: the machine integers of the code, pointers,
  the \<open>std::function<void()>\<close> values that travel between timers, fibers, tasks and events,
  the theorem collections, and the generic list and word lemmas.

  A closure supplied by the user of the library is not code of the repository: it is an opaque
  identifier (\<open>User n\<close>). The closures the library builds itself with \<open>std::bind\<close> are constructors of
  their own: \<open>OnTimer\<close> of a conditional timer, and \<open>run\<close> and \<open>idle\<close> of a scheduler (given by its
  address).
\<close>

unbundle bit_operations_syntax

named_theorems wf_intro \<open>well-formedness of a state after an operation\<close>
named_theorems frame_simps \<open>what an operation leaves unchanged\<close>

type_synonym u32 = "32 word"
type_synonym u64 = "64 word"
type_synonym ptr = nat
type_synonym weak_ptr = nat

datatype callback =
    User nat
  | BoundOnTimer weak_ptr "callback option"
  | BoundRun ptr
  | BoundIdle ptr

text \<open>\<open>std::to_string\<close> of an unsigned number.\<close>

fun show_nat :: "nat \<Rightarrow> string" where
  "show_nat n = (if n < 10 then [char_of (48 + n)] else show_nat (n div 10) @ [char_of (48 + n mod 10)])"

declare show_nat.simps [simp del]

subsection \<open>Invariants of transition systems\<close>

text \<open>
  Every component with state is a start predicate and a step relation. An invariant that holds
  at the start and that every step keeps holds in every reachable state.
\<close>

locale transition_inv =
  fixes init :: "'s \<Rightarrow> bool"
    and step :: "'s \<Rightarrow> 's \<Rightarrow> bool"
    and inv :: "'s \<Rightarrow> bool"
  assumes init_inv: "init s \<Longrightarrow> inv s"
    and step_inv: "inv s \<Longrightarrow> step s t \<Longrightarrow> inv t"
begin

lemma steps_inv: "step\<^sup>*\<^sup>* s t \<Longrightarrow> inv s \<Longrightarrow> inv t"
  by (induction rule: rtranclp_induct) (auto intro: step_inv)

lemma reachable_inv: "init s \<Longrightarrow> step\<^sup>*\<^sup>* s t \<Longrightarrow> inv t"
  using init_inv steps_inv by blast

end

subsection \<open>Lists\<close>

lemma sorted_wrt_cong_on:
  assumes "sorted_wrt P xs" and "\<And>x y. x \<in> set xs \<Longrightarrow> y \<in> set xs \<Longrightarrow> P x y = Q x y"
  shows "sorted_wrt Q xs"
  using sorted_wrt_mono_rel [of xs P Q] assms by blast

lemma sorted_wrt_remove1: "sorted_wrt P xs \<Longrightarrow> sorted_wrt P (remove1 x xs)"
  by (induction xs) (auto dest: subsetD [OF set_remove1_subset])

lemma take_filter_drop_filter:
  assumes "take n xs = filter P xs"
  shows "drop n xs = filter (\<lambda>x. \<not> P x) xs"
proof -
  have split: "filter P xs @ drop n xs = xs"
    using assms append_take_drop_id [of n xs] by simp
  have "filter P (filter P xs @ drop n xs) = filter P xs"
    unfolding split ..
  then have none: "filter P (drop n xs) = []"
    by simp
  have "filter (\<lambda>x. \<not> P x) (filter P xs @ drop n xs) = filter (\<lambda>x. \<not> P x) xs"
    unfolding split ..
  moreover have "filter (\<lambda>x. \<not> P x) (drop n xs) = drop n xs"
    using none by (auto simp: filter_empty_conv intro: filter_True)
  ultimately show ?thesis by simp
qed

lemma take_takeWhile_add:
  "take (length (takeWhile f xs) + length (takeWhile g (dropWhile f xs))) xs
     = takeWhile f xs @ takeWhile g (dropWhile f xs)"
  by (simp only: take_add takeWhile_eq_take [symmetric] dropWhile_eq_drop [symmetric])

lemma sum_list_map_update:
  fixes f :: "'a \<Rightarrow> 'b::comm_monoid_add"
  assumes "i < length xs"
  shows "sum_list (map f (xs[i := x])) + f (xs ! i) = sum_list (map f xs) + f x"
  using assms by (induction xs arbitrary: i) (auto simp: ac_simps less_Suc_eq_0_disj)

lemma filter_neq_remove1: "distinct xs \<Longrightarrow> filter (\<lambda>x. x \<noteq> k) xs = remove1 k xs"
  by (simp add: distinct_remove1_removeAll removeAll_filter_not_eq) metis

subsection \<open>Words\<close>

lemma unat_u64_of_nat: "n < 2 ^ 64 \<Longrightarrow> unat (of_nat n :: u64) = n"
  by (simp add: unat_of_nat)

lemma u64_plus_no_overflow:
  fixes a b :: u64
  shows "unat a + unat b < 2 ^ 64 \<Longrightarrow> unat (a + b) = unat a + unat b"
  by (simp add: unat_word_ariths)

lemma u64_less_plus_one:
  fixes x :: u64
  assumes "x \<noteq> NOT 0"
  shows "x < x + 1"
proof -
  have "1 + x \<noteq> 0"
    using assms by (metis add.commute add_eq_0_iff2 bit.compl_zero)
  then have "unat (1 + x) = Suc (unat x)"
    by (rule unatSuc)
  then show ?thesis
    by (simp add: word_less_nat_alt add.commute)
qed

lemma u64_minus_no_underflow:
  fixes a b :: u64
  shows "b \<le> a \<Longrightarrow> unat (a - b) = unat a - unat b"
  by (rule unat_sub)

end
