(* ===== verification/Std_Set.thy ===== *)
theory Std_Set
  imports Prelude
begin

text \<open>
  The part of \<open>std::set\<close> the code uses, over an explicit comparator: the container is the
  list of its keys in iteration order, an iterator is an index into it (\<open>end()\<close> is the
  length). \<open>lower_bound\<close> is the first key that is not less than the one sought; \<open>find\<close> and
  \<open>insert\<close> are defined from it, with the equivalence of the standard (neither less than the
  other) instead of equality. The laws hold for every strict weak order (locale
  \<open>strict_weak\<close>) and, where equivalent keys are equal, for every strict total order.
\<close>

definition lower_bound :: "('a \<Rightarrow> 'a \<Rightarrow> bool) \<Rightarrow> 'a \<Rightarrow> 'a list \<Rightarrow> nat" where
  "lower_bound lt k xs = length (takeWhile (\<lambda>x. lt x k) xs)"

definition set_find :: "('a \<Rightarrow> 'a \<Rightarrow> bool) \<Rightarrow> 'a \<Rightarrow> 'a list \<Rightarrow> nat option" where
  "set_find lt k xs =
     (let i = lower_bound lt k xs
      in if i < length xs \<and> \<not> lt k (xs ! i) then Some i else None)"

definition set_insert :: "('a \<Rightarrow> 'a \<Rightarrow> bool) \<Rightarrow> 'a \<Rightarrow> 'a list \<Rightarrow> 'a list \<times> nat" where
  "set_insert lt k xs =
     (let i = lower_bound lt k xs
      in if i < length xs \<and> \<not> lt k (xs ! i) then (xs, i)
         else (take i xs @ k # drop i xs, i))"

definition set_erase :: "nat \<Rightarrow> 'a list \<Rightarrow> 'a list" where
  "set_erase i xs = take i xs @ drop (Suc i) xs"

lemma take_lower_bound: "take (lower_bound lt k xs) xs = takeWhile (\<lambda>x. lt x k) xs"
  unfolding lower_bound_def by (rule takeWhile_eq_take [symmetric])

lemma drop_lower_bound: "drop (lower_bound lt k xs) xs = dropWhile (\<lambda>x. lt x k) xs"
  unfolding lower_bound_def by (rule dropWhile_eq_drop [symmetric])

lemma lower_bound_le [simp]: "lower_bound lt k xs \<le> length xs"
  by (simp add: lower_bound_def length_takeWhile_le)

locale strict_weak =
  fixes lt :: "'a \<Rightarrow> 'a \<Rightarrow> bool"
  assumes irrefl: "\<not> lt x x"
    and trans: "lt x y \<Longrightarrow> lt y z \<Longrightarrow> lt x z"
    and cotrans: "lt x z \<Longrightarrow> lt x y \<or> lt y z"
begin

lemma asym: "lt x y \<Longrightarrow> \<not> lt y x"
  using irrefl trans by blast

lemma takeWhile_less: "sorted_wrt lt xs \<Longrightarrow> takeWhile (\<lambda>x. lt x k) xs = filter (\<lambda>x. lt x k) xs"
proof (induction xs)
  case Nil
  then show ?case by simp
next
  case (Cons x xs)
  show ?case
  proof (cases "lt x k")
    case True
    with Cons show ?thesis by simp
  next
    case False
    with Cons.prems have "\<forall>y \<in> set xs. \<not> lt y k"
      using trans by auto
    with False show ?thesis by (simp add: filter_empty_conv)
  qed
qed

lemma dropWhile_less: "sorted_wrt lt xs \<Longrightarrow> dropWhile (\<lambda>x. lt x k) xs = filter (\<lambda>x. \<not> lt x k) xs"
proof (induction xs)
  case Nil
  then show ?case by simp
next
  case (Cons x xs)
  show ?case
  proof (cases "lt x k")
    case True
    with Cons show ?thesis by simp
  next
    case False
    with Cons.prems have "\<forall>y \<in> set xs. \<not> lt y k"
      using trans by auto
    with False show ?thesis by simp
  qed
qed

lemma distinct_sorted: "sorted_wrt lt xs \<Longrightarrow> distinct xs"
  by (induction xs) (auto simp: irrefl)

lemma sorted_insert:
  assumes "sorted_wrt lt xs"
  shows "sorted_wrt lt (fst (set_insert lt k xs))"
proof (cases "lower_bound lt k xs < length xs \<and> \<not> lt k (xs ! lower_bound lt k xs)")
  case True
  with assms show ?thesis by (simp add: set_insert_def)
next
  case False
  let ?i = "lower_bound lt k xs"
  have low: "\<forall>x \<in> set (take ?i xs). lt x k"
    by (auto simp: take_lower_bound dest: set_takeWhileD)
  have high: "\<forall>x \<in> set (drop ?i xs). lt k x"
  proof (cases "?i < length xs")
    case True
    then have split: "drop ?i xs = xs ! ?i # drop (Suc ?i) xs"
      by (simp add: Cons_nth_drop_Suc)
    have "sorted_wrt lt (drop ?i xs)"
      using assms by (rule sorted_wrt_drop)
    moreover have "lt k (xs ! ?i)"
      using False True by simp
    ultimately show ?thesis
      using trans by (auto simp: split)
  next
    case False
    then show ?thesis by simp
  qed
  have cross: "\<forall>x \<in> set (take ?i xs). \<forall>y \<in> set (drop ?i xs). lt x y"
    using low high trans by blast
  have "sorted_wrt lt (take ?i xs @ k # drop ?i xs)"
    using assms low high cross by (simp add: sorted_wrt_append sorted_wrt_take sorted_wrt_drop)
  with False show ?thesis
    by (auto simp: set_insert_def Let_def)
qed

lemma sorted_erase:
  assumes "sorted_wrt lt xs"
  shows "sorted_wrt lt (set_erase i xs)"
proof -
  have "sorted_wrt lt (take i xs @ drop i xs)"
    using assms by simp
  then have "\<forall>x \<in> set (take i xs). \<forall>y \<in> set (drop i xs). lt x y"
    and "sorted_wrt lt (take i xs)" and "sorted_wrt lt (drop i xs)"
    by (simp_all only: sorted_wrt_append) blast+
  moreover have "set (drop (Suc i) xs) \<subseteq> set (drop i xs)"
    by (rule set_drop_subset_set_drop) simp
  ultimately show ?thesis
    using assms by (auto simp: set_erase_def sorted_wrt_append sorted_wrt_drop)
qed

lemma find_iff:
  assumes "sorted_wrt lt xs"
  shows "set_find lt k xs \<noteq> None \<longleftrightarrow> (\<exists>x \<in> set xs. \<not> lt x k \<and> \<not> lt k x)"
proof
  let ?i = "lower_bound lt k xs"
  assume "set_find lt k xs \<noteq> None"
  then have i: "?i < length xs" and nl: "\<not> lt k (xs ! ?i)"
    by (auto simp: set_find_def Let_def split: if_splits)
  have "\<not> lt (xs ! ?i) k"
    using nth_length_takeWhile [of "\<lambda>x. lt x k" xs] i by (simp add: lower_bound_def)
  with i nl show "\<exists>x \<in> set xs. \<not> lt x k \<and> \<not> lt k x"
    using nth_mem by blast
next
  let ?i = "lower_bound lt k xs"
  assume "\<exists>x \<in> set xs. \<not> lt x k \<and> \<not> lt k x"
  then obtain x where x: "x \<in> set xs" "\<not> lt x k" "\<not> lt k x" by blast
  then have x_drop: "x \<in> set (drop ?i xs)"
    using assms by (simp add: drop_lower_bound dropWhile_less)
  then have i: "?i < length xs"
    by (cases "?i < length xs") auto
  have srt: "sorted_wrt lt (xs ! ?i # drop (Suc ?i) xs)"
    using sorted_wrt_drop [OF assms, of ?i] i by (simp add: Cons_nth_drop_Suc)
  have "x = xs ! ?i \<or> lt (xs ! ?i) x"
    using x_drop i srt by (auto simp: Cons_nth_drop_Suc [symmetric])
  then have "\<not> lt k (xs ! ?i)"
    using x trans by auto
  with i show "set_find lt k xs \<noteq> None"
    by (simp add: set_find_def)
qed

end

locale strict_total = strict_weak +
  assumes total: "x = y \<or> lt x y \<or> lt y x"
begin

lemma find_None_iff: "sorted_wrt lt xs \<Longrightarrow> set_find lt k xs = None \<longleftrightarrow> k \<notin> set xs"
  using find_iff [of xs k] total [of _ k] irrefl by metis

lemma find_SomeD:
  assumes "sorted_wrt lt xs" and "set_find lt k xs = Some i"
  shows "i < length xs" and "xs ! i = k"
proof -
  let ?i = "lower_bound lt k xs"
  from assms(2) have i: "i = ?i" "?i < length xs" and nl: "\<not> lt k (xs ! ?i)"
    by (simp_all add: set_find_def Let_def split: if_splits)
  have "\<not> lt (xs ! ?i) k"
    using nth_length_takeWhile [of "\<lambda>x. lt x k" xs] i by (simp add: lower_bound_def)
  with nl have "xs ! ?i = k"
    using total [of "xs ! ?i" k] by blast
  with i show "i < length xs" and "xs ! i = k"
    by simp_all
qed

lemma set_insert_set:
  assumes "sorted_wrt lt xs"
  shows "set (fst (set_insert lt k xs)) = insert k (set xs)"
proof (cases "lower_bound lt k xs < length xs \<and> \<not> lt k (xs ! lower_bound lt k xs)")
  case True
  then have "set_find lt k xs = Some (lower_bound lt k xs)"
    by (simp add: set_find_def)
  from find_SomeD [OF assms this] have "k \<in> set xs"
    using nth_mem [of "lower_bound lt k xs" xs] by simp
  with True show ?thesis
    by (auto simp: set_insert_def)
next
  case False
  let ?i = "lower_bound lt k xs"
  have "set xs = set (take ?i xs) \<union> set (drop ?i xs)"
    by (metis append_take_drop_id set_append)
  with False show ?thesis
    by (auto simp: set_insert_def Let_def)
qed

lemma set_erase_found:
  assumes "sorted_wrt lt xs" and "set_find lt k xs = Some i"
  shows "set_erase i xs = remove1 k xs"
proof -
  have i: "i < length xs" "xs ! i = k"
    using find_SomeD [OF assms] by simp_all
  have "distinct xs"
    using assms(1) by (rule distinct_sorted)
  have split: "take i xs @ k # drop (Suc i) xs = xs"
    using i id_take_nth_drop [of i xs] by metis
  have "distinct (take i xs @ k # drop (Suc i) xs)"
    unfolding split by (rule \<open>distinct xs\<close>)
  then have "k \<notin> set (take i xs)"
    by simp
  then have "remove1 k (take i xs @ k # drop (Suc i) xs) = set_erase i xs"
    by (simp add: remove1_append set_erase_def)
  then show ?thesis
    unfolding split by (rule sym)
qed

lemma set_erase_set:
  assumes "sorted_wrt lt xs" and "set_find lt k xs = Some i"
  shows "set (set_erase i xs) = set xs - {k}"
  using set_erase_found [OF assms] distinct_sorted [OF assms(1)] by simp

lemma insert_front_iff:
  assumes "sorted_wrt lt xs" and "k \<notin> set xs"
  shows "snd (set_insert lt k xs) = 0 \<longleftrightarrow> (\<forall>x \<in> set xs. lt k x)"
proof -
  have "snd (set_insert lt k xs) = length (filter (\<lambda>x. lt x k) xs)"
    using assms(1) by (simp add: set_insert_def Let_def lower_bound_def takeWhile_less)
  then have "snd (set_insert lt k xs) = 0 \<longleftrightarrow> (\<forall>x \<in> set xs. \<not> lt x k)"
    by (simp add: filter_empty_conv)
  with assms(2) show ?thesis
    using total asym by metis
qed

end

end
