(* ===== verification/Timers.thy ===== *)
theory Timers
  imports Std_Set
begin

text \<open>
  \<open>wille/timer.h\<close> and \<open>wille/timer.cpp\<close>: \<open>Timer\<close>, its comparator and \<open>TimerManager\<close>.

  Timers are shared objects whose \<open>m_next\<close> the manager rewrites while the ordered set holds
  pointers to them, so the model keeps a heap of timers (address to record) beside the set of
  addresses in comparator order. Fresh addresses (the result of \<open>new Timer\<close>) and the clock
  (\<open>GetCurrentMS()\<close>) are arguments of the operations that read them. Timers are never freed in
  the model: the set and the callers hold \<open>shared_ptr\<close>s. Every method runs under the manager's
  write lock, so each is one step; the call of the virtual \<open>onTimerInsertedAtFront\<close> that
  \<open>addTimer\<close> makes after unlocking is the boolean the operation returns. One manager is modelled,
  so the back pointer \<open>m_manager\<close>, which every timer it hands out has set to it, is left out.
\<close>

subsection \<open>Timers and their order\<close>

record timer =
  m_recurring :: bool
  m_ms :: u64
  m_next :: u64
  m_cb :: "callback option"

record timer_manager =
  heap :: "ptr \<rightharpoonup> timer"
  m_timers :: "ptr list"
  m_tickled :: bool
  m_previousTime :: u64

datatype timer_error = EraseEnd \<comment> \<open>\<open>m_timers.erase(m_timers.end())\<close>, undefined behaviour\<close>

definition new_timer :: "u64 \<Rightarrow> u64 \<Rightarrow> callback option \<Rightarrow> bool \<Rightarrow> timer" where
  "new_timer now ms cb recurring =
     \<lparr>m_recurring = recurring, m_ms = ms, m_next = now + ms, m_cb = cb\<rparr>"

definition deadline_timer :: "u64 \<Rightarrow> timer" where
  "deadline_timer next = \<lparr>m_recurring = False, m_ms = 0, m_next = next, m_cb = None\<rparr>"

definition timer_at :: "(ptr \<rightharpoonup> timer) \<Rightarrow> ptr \<Rightarrow> timer" where
  "timer_at h p = (case h p of Some t \<Rightarrow> t | None \<Rightarrow> deadline_timer 0)"

abbreviation next_of :: "(ptr \<rightharpoonup> timer) \<Rightarrow> ptr \<Rightarrow> u64" where
  "next_of h p \<equiv> m_next (timer_at h p)"

fun comparator :: "(ptr \<rightharpoonup> timer) \<Rightarrow> ptr option \<Rightarrow> ptr option \<Rightarrow> bool" where
  "comparator h None None = False"
| "comparator h None (Some rhs) = True"
| "comparator h (Some lhs) None = False"
| "comparator h (Some lhs) (Some rhs) =
     (if next_of h lhs < next_of h rhs then True
      else if next_of h rhs < next_of h lhs then False
      else lhs < rhs)"

definition timer_lt :: "(ptr \<rightharpoonup> timer) \<Rightarrow> ptr \<Rightarrow> ptr \<Rightarrow> bool" where
  "timer_lt h p q = comparator h (Some p) (Some q)"

subsection \<open>The operations\<close>

definition new_timer_manager :: "u64 \<Rightarrow> timer_manager" where
  "new_timer_manager now =
     \<lparr>heap = Map.empty, m_timers = [], m_tickled = False, m_previousTime = now\<rparr>"

definition addTimer_locked :: "timer_manager \<Rightarrow> ptr \<Rightarrow> bool \<times> timer_manager" where
  "addTimer_locked s p =
     (let (ts, it) = set_insert (timer_lt (heap s)) p (m_timers s);
          at_front = (it = 0 \<and> \<not> m_tickled s)
      in (at_front, s\<lparr>m_timers := ts, m_tickled := (if at_front then True else m_tickled s)\<rparr>))"

definition addTimer ::
  "timer_manager \<Rightarrow> u64 \<Rightarrow> ptr \<Rightarrow> u64 \<Rightarrow> callback option \<Rightarrow> bool \<Rightarrow> bool \<times> timer_manager" where
  "addTimer s now p ms cb recurring =
     addTimer_locked (s\<lparr>heap := (heap s)(p \<mapsto> new_timer now ms cb recurring)\<rparr>) p"

definition addConditionTimer ::
  "timer_manager \<Rightarrow> u64 \<Rightarrow> ptr \<Rightarrow> u64 \<Rightarrow> callback option \<Rightarrow> weak_ptr \<Rightarrow> bool \<Rightarrow> bool \<times> timer_manager" where
  "addConditionTimer s now p ms cb weak_cond recurring =
     addTimer s now p ms (Some (BoundOnTimer weak_cond cb)) recurring"

datatype invoke_error = BadFunctionCall

text \<open>Calling a closure: which of the opaque closures run. A conditional timer calls \<open>OnTimer\<close>.\<close>

fun invoke :: "(weak_ptr \<Rightarrow> bool) \<Rightarrow> callback \<Rightarrow> invoke_error + callback list" where
  "invoke alive (BoundOnTimer weak_cond cb) =
     (if alive weak_cond
      then (case cb of None \<Rightarrow> Inl BadFunctionCall | Some f \<Rightarrow> invoke alive f)
      else Inr [])"
| "invoke alive f = Inr [f]"

definition cancel :: "timer_manager \<Rightarrow> ptr \<Rightarrow> timer_error + bool \<times> timer_manager" where
  "cancel s p =
     (let t = timer_at (heap s) p
      in if m_cb t \<noteq> None
         then let h = (heap s)(p \<mapsto> t\<lparr>m_cb := None\<rparr>)
              in (case set_find (timer_lt h) p (m_timers s) of
                    None \<Rightarrow> Inl EraseEnd
                  | Some it \<Rightarrow>
                      Inr (True, s\<lparr>heap := h, m_timers := set_erase it (m_timers s)\<rparr>))
         else Inr (False, s))"

definition refresh :: "timer_manager \<Rightarrow> u64 \<Rightarrow> ptr \<Rightarrow> bool \<times> timer_manager" where
  "refresh s now p =
     (let t = timer_at (heap s) p
      in if m_cb t = None then (False, s)
         else (case set_find (timer_lt (heap s)) p (m_timers s) of
                 None \<Rightarrow> (False, s)
               | Some it \<Rightarrow>
                   (let ts = set_erase it (m_timers s);
                        h = (heap s)(p \<mapsto> t\<lparr>m_next := now + m_ms t\<rparr>)
                    in (True, s\<lparr>heap := h, m_timers := fst (set_insert (timer_lt h) p ts)\<rparr>))))"

definition reset ::
  "timer_manager \<Rightarrow> u64 \<Rightarrow> ptr \<Rightarrow> u64 \<Rightarrow> bool \<Rightarrow> bool \<times> bool \<times> timer_manager" where
  "reset s now p ms from_now =
     (let t = timer_at (heap s) p
      in if ms = m_ms t \<and> \<not> from_now then (True, False, s)
         else if m_cb t = None then (False, False, s)
         else (case set_find (timer_lt (heap s)) p (m_timers s) of
                 None \<Rightarrow> (False, False, s)
               | Some it \<Rightarrow>
                   (let ts = set_erase it (m_timers s);
                        start = (if from_now then now else m_next t - m_ms t);
                        h = (heap s)(p \<mapsto> t\<lparr>m_ms := ms, m_next := start + ms\<rparr>)
                    in (True, addTimer_locked (s\<lparr>heap := h, m_timers := ts\<rparr>) p))))"

definition getNextTimer :: "timer_manager \<Rightarrow> u64 \<Rightarrow> u64 \<times> timer_manager" where
  "getNextTimer s now =
     ((case m_timers s of
         [] \<Rightarrow> NOT 0
       | next # _ \<Rightarrow>
           (if now \<ge> next_of (heap s) next then 0 else next_of (heap s) next - now)),
      s\<lparr>m_tickled := False\<rparr>)"

definition hasTimer :: "timer_manager \<Rightarrow> bool" where
  "hasTimer s = (m_timers s \<noteq> [])"

definition detectClockRollover :: "timer_manager \<Rightarrow> u64 \<Rightarrow> bool \<times> timer_manager" where
  "detectClockRollover s now_ms =
     (now_ms < m_previousTime s \<and> now_ms < m_previousTime s - 60 * 60 * 1000,
      s\<lparr>m_previousTime := now_ms\<rparr>)"

function skip_due :: "(ptr \<rightharpoonup> timer) \<Rightarrow> u64 \<Rightarrow> ptr list \<Rightarrow> nat \<Rightarrow> nat" where
  "skip_due h now_ms ts it =
     (if it < length ts \<and> next_of h (ts ! it) = now_ms then skip_due h now_ms ts (Suc it) else it)"
  by pat_completeness auto
termination
  by (relation "measure (\<lambda>(h, now_ms, ts, it). length ts - it)") auto

declare skip_due.simps [simp del]

fun expire_all ::
  "u64 \<Rightarrow> ptr list \<Rightarrow> timer_manager \<Rightarrow> callback option list \<Rightarrow> callback option list \<times> timer_manager"
where
  "expire_all now_ms [] s cbs = (cbs, s)"
| "expire_all now_ms (q # expired) s cbs =
     (let t = timer_at (heap s) q; cbs' = cbs @ [m_cb t]
      in if m_recurring t
         then let h = (heap s)(q \<mapsto> t\<lparr>m_next := now_ms + m_ms t\<rparr>)
              in expire_all now_ms expired
                   (s\<lparr>heap := h, m_timers := fst (set_insert (timer_lt h) q (m_timers s))\<rparr>) cbs'
         else expire_all now_ms expired (s\<lparr>heap := (heap s)(q \<mapsto> t\<lparr>m_cb := None\<rparr>)\<rparr>) cbs')"

definition listExpiredCb ::
  "timer_manager \<Rightarrow> u64 \<Rightarrow> ptr \<Rightarrow> callback option list \<Rightarrow> callback option list \<times> timer_manager" where
  "listExpiredCb s now_ms p cbs =
     (if m_timers s = [] then (cbs, s)
      else let (rollover, s1) = detectClockRollover s now_ms
           in if \<not> rollover \<and> next_of (heap s1) (hd (m_timers s1)) > now_ms then (cbs, s1)
              else let h = (heap s1)(p \<mapsto> deadline_timer now_ms);
                       it0 = (if rollover then length (m_timers s1)
                              else lower_bound (timer_lt h) p (m_timers s1));
                       it = skip_due h now_ms (m_timers s1) it0;
                       expired = take it (m_timers s1)
                   in expire_all now_ms expired (s1\<lparr>m_timers := drop it (m_timers s1)\<rparr>) cbs)"

subsection \<open>The comparator is a strict total order\<close>

interpretation comparator_order: strict_total "comparator h" for h
proof (unfold_locales, goal_cases)
  case (1 x)
  show ?case by (cases x) simp_all
next
  case (2 x y z)
  then show ?case by (cases x; cases y; cases z) (auto split: if_splits)
next
  case (3 x z y)
  then show ?case by (cases x; cases y; cases z) (auto split: if_splits)
next
  case (4 x y)
  show ?case by (cases x; cases y) auto
qed

interpretation timer_order: strict_total "timer_lt h" for h
proof (unfold_locales, goal_cases)
  case (1 x)
  show ?case using comparator_order.irrefl by (simp add: timer_lt_def)
next
  case (2 x y z)
  then show ?case unfolding timer_lt_def by (rule comparator_order.trans)
next
  case (3 x z y)
  then show ?case unfolding timer_lt_def by (rule comparator_order.cotrans)
next
  case (4 x y)
  show ?case using comparator_order.total [of "Some x" "Some y" h] by (simp add: timer_lt_def)
qed

lemma timer_lt_iff:
  "timer_lt h p q \<longleftrightarrow> next_of h p < next_of h q \<or> next_of h p = next_of h q \<and> p < q"
  by (auto simp: timer_lt_def)

lemma timer_at_upd [simp]: "timer_at (h(p \<mapsto> t)) q = (if q = p then t else timer_at h q)"
  by (simp add: timer_at_def)

lemma timer_at_SomeI: "h p = Some t \<Longrightarrow> timer_at h p = t"
  by (simp add: timer_at_def)

lemma m_cb_timer_at: "m_cb (timer_at h p) \<noteq> None \<Longrightarrow> h p = Some (timer_at h p)"
  by (cases "h p") (auto simp: timer_at_def deadline_timer_def)

lemma timer_lt_cong: "(\<And>q. next_of h q = next_of h' q) \<Longrightarrow> timer_lt h = timer_lt h'"
  by (intro ext) (simp add: timer_lt_iff)

lemma timer_lt_disarm: "timer_lt (h(p \<mapsto> (timer_at h p)\<lparr>m_cb := c\<rparr>)) = timer_lt h"
  by (rule timer_lt_cong) simp

lemma sorted_timer_frame:
  assumes "sorted_wrt (timer_lt h) ts" and "p \<notin> set ts"
  shows "sorted_wrt (timer_lt (h(p \<mapsto> t))) ts"
  by (rule sorted_wrt_cong_on [OF assms(1)]) (use assms(2) in \<open>auto simp: timer_lt_iff\<close>)

subsection \<open>The invariant of the manager\<close>

text \<open>
  The set is in comparator order for the current heap, holds allocated timers only, and holds
  every timer whose callback is set.
\<close>

definition tm_inv :: "timer_manager \<Rightarrow> bool" where
  "tm_inv s \<longleftrightarrow>
     sorted_wrt (timer_lt (heap s)) (m_timers s) \<and>
     set (m_timers s) \<subseteq> dom (heap s) \<and>
     (\<forall>p. m_cb (timer_at (heap s) p) \<noteq> None \<longrightarrow> p \<in> set (m_timers s))"

lemma tm_invI [intro]:
  assumes "sorted_wrt (timer_lt (heap s)) (m_timers s)"
    and "set (m_timers s) \<subseteq> dom (heap s)"
    and "\<And>p. m_cb (timer_at (heap s) p) \<noteq> None \<Longrightarrow> p \<in> set (m_timers s)"
  shows "tm_inv s"
  using assms by (auto simp: tm_inv_def)

lemma tm_invD:
  assumes "tm_inv s"
  shows tm_inv_sorted: "sorted_wrt (timer_lt (heap s)) (m_timers s)"
    and tm_inv_alloc: "set (m_timers s) \<subseteq> dom (heap s)"
    and tm_inv_armed: "m_cb (timer_at (heap s) p) \<noteq> None \<Longrightarrow> p \<in> set (m_timers s)"
    and tm_inv_distinct: "distinct (m_timers s)"
  using assms timer_order.distinct_sorted by (auto simp: tm_inv_def)

lemma new_timer_manager_inv [wf_intro]: "tm_inv (new_timer_manager now)"
  by (rule tm_invI) (auto simp: new_timer_manager_def timer_at_def deadline_timer_def)

lemma tm_inv_tickled [simp]: "tm_inv (s\<lparr>m_tickled := b\<rparr>) = tm_inv s"
  by (simp add: tm_inv_def)

lemma tm_inv_previousTime [simp]: "tm_inv (s\<lparr>m_previousTime := b\<rparr>) = tm_inv s"
  by (simp add: tm_inv_def)

lemma insert_timer_inv:
  assumes srt: "sorted_wrt (timer_lt (heap s)) (m_timers s)"
    and al: "set (m_timers s) \<subseteq> dom (heap s)"
    and arm: "\<And>q. q \<noteq> p \<Longrightarrow> m_cb (timer_at (heap s) q) \<noteq> None \<Longrightarrow> q \<in> set (m_timers s)"
    and p: "p \<in> dom (heap s)"
  shows "tm_inv (s\<lparr>m_timers := fst (set_insert (timer_lt (heap s)) p (m_timers s))\<rparr>)"
proof (rule tm_invI, goal_cases)
  case 1
  show ?case using timer_order.sorted_insert [OF srt] by simp
next
  case 2
  show ?case using timer_order.set_insert_set [OF srt] al p by simp
next
  case (3 q)
  then show ?case using timer_order.set_insert_set [OF srt] arm [of q] by auto
qed

lemma addTimer_locked_eq:
  "addTimer_locked s p =
     (snd (set_insert (timer_lt (heap s)) p (m_timers s)) = 0 \<and> \<not> m_tickled s,
      s\<lparr>m_timers := fst (set_insert (timer_lt (heap s)) p (m_timers s)),
        m_tickled := (snd (set_insert (timer_lt (heap s)) p (m_timers s)) = 0 \<or> m_tickled s)\<rparr>)"
  by (simp add: addTimer_locked_def split_beta Let_def)

lemma addTimer_inv [wf_intro]:
  assumes "tm_inv s" and "p \<notin> dom (heap s)"
  shows "tm_inv (snd (addTimer s now p ms cb recurring))"
proof -
  let ?h = "(heap s)(p \<mapsto> new_timer now ms cb recurring)"
  have "p \<notin> set (m_timers s)"
    using assms tm_inv_alloc by blast
  with assms have "tm_inv (s\<lparr>heap := ?h, m_timers := fst (set_insert (timer_lt ?h) p (m_timers s))\<rparr>)"
    using insert_timer_inv [of "s\<lparr>heap := ?h\<rparr>" p] tm_invD [OF assms(1)]
    by (auto simp: sorted_timer_frame)
  then show ?thesis
    by (simp add: addTimer_def addTimer_locked_eq)
qed

lemma addConditionTimer_inv [wf_intro]:
  "tm_inv s \<Longrightarrow> p \<notin> dom (heap s) \<Longrightarrow>
     tm_inv (snd (addConditionTimer s now p ms cb weak_cond recurring))"
  unfolding addConditionTimer_def by (rule addTimer_inv)

lemma getNextTimer_inv [wf_intro]: "tm_inv s \<Longrightarrow> tm_inv (snd (getNextTimer s now))"
  by (simp add: getNextTimer_def)

text \<open>Under the invariant a pending timer is found and its erasure removes exactly it.\<close>

lemma find_pending:
  assumes "tm_inv s" and "p \<in> set (m_timers s)"
  obtains it where "set_find (timer_lt (heap s)) p (m_timers s) = Some it"
    and "set_erase it (m_timers s) = remove1 p (m_timers s)"
  using timer_order.find_None_iff [OF tm_inv_sorted [OF assms(1)], of p]
    timer_order.set_erase_found [OF tm_inv_sorted [OF assms(1)], of p] assms(2)
  by (cases "set_find (timer_lt (heap s)) p (m_timers s)") auto

lemma cancel_armed:
  assumes "tm_inv s" and "m_cb (timer_at (heap s) p) \<noteq> None"
  shows "cancel s p = Inr (True, s\<lparr>heap := (heap s)(p \<mapsto> (timer_at (heap s) p)\<lparr>m_cb := None\<rparr>),
                                   m_timers := remove1 p (m_timers s)\<rparr>)"
proof -
  obtain it where "set_find (timer_lt (heap s)) p (m_timers s) = Some it"
    and "set_erase it (m_timers s) = remove1 p (m_timers s)"
    using find_pending [OF assms(1) tm_inv_armed [OF assms]] .
  with assms(2) show ?thesis
    by (simp add: cancel_def Let_def timer_lt_disarm)
qed

lemma cancel_disarmed: "m_cb (timer_at (heap s) p) = None \<Longrightarrow> cancel s p = Inr (False, s)"
  by (simp add: cancel_def Let_def)

lemma remove_timer_inv:
  assumes "tm_inv s" and "p \<in> dom (heap s)"
  shows "tm_inv (s\<lparr>heap := (heap s)(p \<mapsto> t\<lparr>m_cb := None\<rparr>), m_timers := remove1 p (m_timers s)\<rparr>)"
proof -
  have "sorted_wrt (timer_lt (heap s)) (remove1 p (m_timers s))"
    using tm_inv_sorted [OF assms(1)] by (rule sorted_wrt_remove1)
  moreover have "p \<notin> set (remove1 p (m_timers s))"
    using tm_inv_distinct [OF assms(1)] by simp
  ultimately show ?thesis
    using tm_invD [OF assms(1)] assms(2)
    by (intro tm_invI) (auto simp: sorted_timer_frame dest: notin_set_remove1 split: if_splits)
qed

lemma reinsert_timer_inv:
  fixes s :: timer_manager and p :: ptr and t :: timer
  defines "h \<equiv> (heap s)(p \<mapsto> t)"
  assumes "tm_inv s"
  shows "tm_inv (s\<lparr>heap := h, m_timers := fst (set_insert (timer_lt h) p (remove1 p (m_timers s)))\<rparr>)"
proof -
  have out: "p \<notin> set (remove1 p (m_timers s))"
    using tm_inv_distinct [OF assms(2)] by simp
  have "tm_inv (s\<lparr>heap := h, m_timers := remove1 p (m_timers s)\<rparr>\<lparr>m_timers :=
          fst (set_insert (timer_lt h) p (remove1 p (m_timers s)))\<rparr>)"
    using insert_timer_inv [of "s\<lparr>heap := h, m_timers := remove1 p (m_timers s)\<rparr>" p]
      tm_invD [OF assms(2)] out
    by (auto simp: h_def sorted_timer_frame sorted_wrt_remove1 dest: notin_set_remove1)
  then show ?thesis by simp
qed

lemma refresh_pending:
  assumes "tm_inv s" and "m_cb (timer_at (heap s) p) \<noteq> None"
  shows "refresh s now p =
    (let h = (heap s)(p \<mapsto> (timer_at (heap s) p)\<lparr>m_next := now + m_ms (timer_at (heap s) p)\<rparr>)
     in (True, s\<lparr>heap := h, m_timers := fst (set_insert (timer_lt h) p (remove1 p (m_timers s)))\<rparr>))"
proof -
  obtain it where "set_find (timer_lt (heap s)) p (m_timers s) = Some it"
    and "set_erase it (m_timers s) = remove1 p (m_timers s)"
    using find_pending [OF assms(1) tm_inv_armed [OF assms]] .
  with assms(2) show ?thesis
    by (simp add: refresh_def Let_def)
qed

lemma refresh_disarmed: "m_cb (timer_at (heap s) p) = None \<Longrightarrow> refresh s now p = (False, s)"
  by (simp add: refresh_def Let_def)

lemma reset_pending:
  assumes "tm_inv s" and "m_cb (timer_at (heap s) p) \<noteq> None"
    and "ms \<noteq> m_ms (timer_at (heap s) p) \<or> from_now"
  shows "reset s now p ms from_now =
    (let t = timer_at (heap s) p;
         start = (if from_now then now else m_next t - m_ms t);
         h = (heap s)(p \<mapsto> t\<lparr>m_ms := ms, m_next := start + ms\<rparr>)
     in (True, addTimer_locked (s\<lparr>heap := h, m_timers := remove1 p (m_timers s)\<rparr>) p))"
proof -
  obtain it where "set_find (timer_lt (heap s)) p (m_timers s) = Some it"
    and "set_erase it (m_timers s) = remove1 p (m_timers s)"
    using find_pending [OF assms(1) tm_inv_armed [OF assms(1,2)]] .
  with assms(2,3) show ?thesis
    by (auto simp add: reset_def Let_def)
qed

lemma reset_disarmed:
  "m_cb (timer_at (heap s) p) = None \<Longrightarrow>
     reset s now p ms from_now = (ms = m_ms (timer_at (heap s) p) \<and> \<not> from_now, False, s)"
  by (simp add: reset_def Let_def)

lemma reset_same_period:
  "ms = m_ms (timer_at (heap s) p) \<Longrightarrow> reset s now p ms False = (True, False, s)"
  by (simp add: reset_def Let_def)

lemma cancel_inv [wf_intro]:
  assumes "tm_inv s" and "cancel s p = Inr (b, s')"
  shows "tm_inv s'"
proof (cases "m_cb (timer_at (heap s) p) = None")
  case True
  with assms show ?thesis by (simp add: cancel_disarmed)
next
  case False
  moreover have "p \<in> dom (heap s)"
    using False tm_inv_armed [OF assms(1)] tm_inv_alloc [OF assms(1)] by blast
  ultimately show ?thesis
    using assms cancel_armed [OF assms(1)] remove_timer_inv [OF assms(1)] by auto
qed

lemma refresh_inv [wf_intro]:
  assumes "tm_inv s"
  shows "tm_inv (snd (refresh s now p))"
  using assms reinsert_timer_inv [OF assms] refresh_pending [OF assms, of p now]
  by (cases "m_cb (timer_at (heap s) p) = None") (simp_all add: refresh_disarmed Let_def)

lemma reset_inv [wf_intro]:
  assumes "tm_inv s"
  shows "tm_inv (snd (snd (reset s now p ms from_now)))"
proof -
  consider "m_cb (timer_at (heap s) p) = None" | "ms = m_ms (timer_at (heap s) p)" "\<not> from_now"
    | "m_cb (timer_at (heap s) p) \<noteq> None" "ms \<noteq> m_ms (timer_at (heap s) p) \<or> from_now"
    by blast
  then show ?thesis
  proof cases
    case 1
    with assms show ?thesis by (simp add: reset_disarmed)
  next
    case 2
    with assms show ?thesis by (simp add: reset_same_period)
  next
    case 3
    then show ?thesis
      using reinsert_timer_inv [OF assms, of p] reset_pending [OF assms 3]
      by (simp add: Let_def addTimer_locked_eq)
  qed
qed

subsection \<open>Expiry\<close>

lemma skip_due_eq:
  "skip_due h now_ms ts it = it + length (takeWhile (\<lambda>q. next_of h q = now_ms) (drop it ts))"
proof (induction h now_ms ts it rule: skip_due.induct)
  case (1 h now_ms ts it)
  show ?case
  proof (cases "it < length ts \<and> next_of h (ts ! it) = now_ms")
    case True
    with 1 show ?thesis
      by (simp add: skip_due.simps [of h now_ms ts it] Cons_nth_drop_Suc [symmetric])
  next
    case False
    then have "takeWhile (\<lambda>q. next_of h q = now_ms) (drop it ts) = []"
      by (cases "it < length ts") (auto simp: Cons_nth_drop_Suc [symmetric])
    then show ?thesis
      by (subst skip_due.simps, subst if_not_P [OF False]) simp
  qed
qed

lemma takeWhile_due:
  assumes "sorted_wrt (timer_lt h) ts" and "\<forall>q \<in> set ts. now_ms \<le> next_of h q"
  shows "takeWhile (\<lambda>q. next_of h q = now_ms) ts = filter (\<lambda>q. next_of h q \<le> now_ms) ts"
  using assms
proof (induction ts)
  case Nil
  then show ?case by simp
next
  case (Cons x ts)
  show ?case
  proof (cases "next_of h x = now_ms")
    case True
    with Cons show ?thesis by simp
  next
    case False
    with Cons.prems(2) have "now_ms < next_of h x"
      by (auto simp: order.strict_iff_order)
    moreover have "\<forall>q \<in> set ts. next_of h x \<le> next_of h q"
      using Cons.prems(1) by (auto simp: timer_lt_iff)
    ultimately have "\<forall>q \<in> set (x # ts). \<not> next_of h q \<le> now_ms"
      by force
    with False show ?thesis by (simp add: filter_empty_conv)
  qed
qed

lemma due_prefix:
  assumes "sorted_wrt (timer_lt h) ts" and "next_of h p = now_ms"
  shows "takeWhile (\<lambda>q. timer_lt h q p) ts @
      takeWhile (\<lambda>q. next_of h q = now_ms) (dropWhile (\<lambda>q. timer_lt h q p) ts)
    = filter (\<lambda>q. next_of h q \<le> now_ms) ts"
  using assms(1)
proof (induction ts)
  case Nil
  then show ?case by simp
next
  case (Cons x ts)
  show ?case
  proof (cases "timer_lt h x p")
    case True
    with Cons assms(2) show ?thesis by (auto simp: timer_lt_iff)
  next
    case False
    with assms(2) have "now_ms \<le> next_of h x"
      by (auto simp: timer_lt_iff)
    with Cons.prems have "\<forall>q \<in> set (x # ts). now_ms \<le> next_of h q"
      by (auto simp: timer_lt_iff)
    with False Cons.prems show ?thesis
      using takeWhile_due [of h "x # ts" now_ms] by simp
  qed
qed

lemma due_iterator:
  assumes "sorted_wrt (timer_lt h) ts" and "next_of h p = now_ms"
  shows "take (skip_due h now_ms ts (lower_bound (timer_lt h) p ts)) ts
    = filter (\<lambda>q. next_of h q \<le> now_ms) ts"
proof -
  have "take (skip_due h now_ms ts (lower_bound (timer_lt h) p ts)) ts
      = takeWhile (\<lambda>q. timer_lt h q p) ts @
        takeWhile (\<lambda>q. next_of h q = now_ms) (dropWhile (\<lambda>q. timer_lt h q p) ts)"
    by (simp only: skip_due_eq drop_lower_bound) (simp only: lower_bound_def take_takeWhile_add)
  then show ?thesis
    using due_prefix [OF assms] by simp
qed

definition rearmed :: "u64 \<Rightarrow> timer \<Rightarrow> timer" where
  "rearmed now_ms t =
     (if m_recurring t then t\<lparr>m_next := now_ms + m_ms t\<rparr> else t\<lparr>m_cb := None\<rparr>)"

text \<open>
  The loop over the expired timers: it returns their callbacks in order, re-arms the recurring
  ones, disarms the others, and touches nothing else.
\<close>

lemma expire_all_spec:
  assumes "distinct expired" and "set expired \<inter> set (m_timers s) = {}"
    and "sorted_wrt (timer_lt (heap s)) (m_timers s)"
  shows "fst (expire_all now_ms expired s cbs) =
           cbs @ map (\<lambda>q. m_cb (timer_at (heap s) q)) expired \<and>
     (let s' = snd (expire_all now_ms expired s cbs)
      in timer_at (heap s') = (\<lambda>q. if q \<in> set expired then rearmed now_ms (timer_at (heap s) q)
                                   else timer_at (heap s) q) \<and>
         dom (heap s') = dom (heap s) \<union> set expired \<and>
         set (m_timers s') =
           set (m_timers s) \<union> {q \<in> set expired. m_recurring (timer_at (heap s) q)} \<and>
         sorted_wrt (timer_lt (heap s')) (m_timers s') \<and>
         m_tickled s' = m_tickled s \<and> m_previousTime s' = m_previousTime s)"
  using assms
proof (induction expired arbitrary: s cbs)
  case Nil
  then show ?case by simp
next
  case (Cons q expired)
  define t where "t = timer_at (heap s) q"
  define h where "h = (heap s)(q \<mapsto> rearmed now_ms t)"
  define ts where
    "ts = (if m_recurring t then fst (set_insert (timer_lt h) q (m_timers s)) else m_timers s)"
  define s1 where "s1 = s\<lparr>heap := h, m_timers := ts\<rparr>"
  have sel: "heap s1 = h" "m_timers s1 = ts" "m_tickled s1 = m_tickled s"
    "m_previousTime s1 = m_previousTime s"
    by (simp_all add: s1_def)
  have h_at: "timer_at h x = (if x = q then rearmed now_ms t else timer_at (heap s) x)" for x
    by (simp add: h_def)
  have h_dom: "dom h = insert q (dom (heap s))"
    by (simp add: h_def)
  have step: "expire_all now_ms (q # expired) s cbs = expire_all now_ms expired s1 (cbs @ [m_cb t])"
    by (simp add: rearmed_def Let_def s1_def ts_def h_def t_def)
  have q: "q \<notin> set expired" "q \<notin> set (m_timers s)"
    using Cons.prems by auto
  have srt: "sorted_wrt (timer_lt h) (m_timers s)"
    using Cons.prems(3) q by (simp add: sorted_timer_frame h_def)
  have ts: "set ts = set (m_timers s) \<union> (if m_recurring t then {q} else {})"
    using timer_order.set_insert_set [OF srt, of q] by (simp add: ts_def)
  have srt': "sorted_wrt (timer_lt h) ts"
    using timer_order.sorted_insert [OF srt, of q] srt by (simp add: ts_def)
  have same: "map (\<lambda>x. m_cb (timer_at h x)) expired = map (\<lambda>x. m_cb (timer_at (heap s) x)) expired"
    using q by (auto simp: h_at)
  have disj: "set expired \<inter> set (m_timers s1) = {}"
    using Cons.prems(2) q ts by (auto simp: sel split: if_splits)
  have dst: "distinct expired" and srt1: "sorted_wrt (timer_lt (heap s1)) (m_timers s1)"
    using Cons.prems(1) srt' by (simp_all add: sel)
  obtain r s' where E: "expire_all now_ms expired s1 (cbs @ [m_cb t]) = (r, s')"
    by (rule prod.exhaust)
  note IH = Cons.IH [OF dst disj srt1, of "cbs @ [m_cb t]", unfolded E fst_conv snd_conv Let_def sel]
  from IH have "r = (cbs @ [m_cb t]) @ map (\<lambda>x. m_cb (timer_at h x)) expired"
    by blast
  then have r: "r = cbs @ map (\<lambda>x. m_cb (timer_at (heap s) x)) (q # expired)"
    by (simp only: same) (simp add: t_def)
  from IH have "timer_at (heap s') =
      (\<lambda>x. if x \<in> set expired then rearmed now_ms (timer_at h x) else timer_at h x)"
    by blast
  then have at: "timer_at (heap s') =
      (\<lambda>x. if x \<in> set (q # expired) then rearmed now_ms (timer_at (heap s) x)
           else timer_at (heap s) x)"
    using q(1) by (auto simp: fun_eq_iff h_at t_def)
  from IH have "set (m_timers s') = set ts \<union> {x \<in> set expired. m_recurring (timer_at h x)}"
    by blast
  then have tm: "set (m_timers s') =
      set (m_timers s) \<union> {x \<in> set (q # expired). m_recurring (timer_at (heap s) x)}"
    unfolding ts using q(1) by (auto simp: h_at t_def split: if_splits)
  from IH have "dom (heap s') = dom h \<union> set expired"
    by blast
  then have dm: "dom (heap s') = dom (heap s) \<union> set (q # expired)"
    by (simp add: h_dom)
  from IH have rest: "sorted_wrt (timer_lt (heap s')) (m_timers s')"
      "m_tickled s' = m_tickled s" "m_previousTime s' = m_previousTime s"
    by blast+
  show ?case
    unfolding step E fst_conv snd_conv Let_def using r at tm dm rest by blast
qed

text \<open>The timers one call of \<open>listExpiredCb\<close> takes out of the set.\<close>

definition due_timers :: "timer_manager \<Rightarrow> u64 \<Rightarrow> ptr list" where
  "due_timers s now_ms =
     (if fst (detectClockRollover s now_ms) then m_timers s
      else filter (\<lambda>q. next_of (heap s) q \<le> now_ms) (m_timers s))"

lemma set_due_timers_subset: "set (due_timers s now_ms) \<subseteq> set (m_timers s)"
  by (auto simp: due_timers_def)

lemma listExpiredCb_eq:
  assumes "tm_inv s" and "p \<notin> dom (heap s)"
  shows "listExpiredCb s now_ms p cbs =
    (if m_timers s = [] then (cbs, s)
     else expire_all now_ms (due_timers s now_ms)
            (s\<lparr>m_previousTime := now_ms,
               m_timers := filter (\<lambda>q. q \<notin> set (due_timers s now_ms)) (m_timers s)\<rparr>) cbs)"
proof (cases "m_timers s")
  case Nil
  then show ?thesis by (simp add: listExpiredCb_def)
next
  case (Cons q ts)
  then have ne: "m_timers s \<noteq> []" and hd: "hd (m_timers s) = q"
    by simp_all
  define rollover where "rollover = fst (detectClockRollover s now_ms)"
  have detect: "detectClockRollover s now_ms = (rollover, s\<lparr>m_previousTime := now_ms\<rparr>)"
    by (simp add: rollover_def detectClockRollover_def)
  have srt: "sorted_wrt (timer_lt (heap s)) (m_timers s)"
    using assms(1) by (rule tm_inv_sorted)
  have p: "p \<notin> set (m_timers s)"
    using assms tm_inv_alloc by blast
  let ?h = "(heap s)(p \<mapsto> deadline_timer now_ms)"
  let ?due = "filter (\<lambda>q. next_of (heap s) q \<le> now_ms) (m_timers s)"
  consider (all) rollover | (none) "\<not> rollover" "now_ms < next_of (heap s) q"
    | (some) "\<not> rollover" "\<not> now_ms < next_of (heap s) q" by blast
  then show ?thesis
  proof cases
    case all
    then have due: "due_timers s now_ms = m_timers s"
      by (simp add: due_timers_def rollover_def)
    with all ne show ?thesis
      by (simp add: listExpiredCb_def detect skip_due_eq)
  next
    case none
    have "\<forall>x \<in> set (m_timers s). now_ms < next_of (heap s) x"
      using none(2) srt Cons by (auto simp: timer_lt_iff)
    then have due: "due_timers s now_ms = []"
      using none(1) by (auto simp: due_timers_def rollover_def filter_empty_conv)
    have "s\<lparr>m_previousTime := now_ms, m_timers := m_timers s\<rparr> = s\<lparr>m_previousTime := now_ms\<rparr>"
      by simp
    with none ne hd due show ?thesis
      by (simp add: listExpiredCb_def detect)
  next
    case some
    let ?it = "skip_due ?h now_ms (m_timers s) (lower_bound (timer_lt ?h) p (m_timers s))"
    have "sorted_wrt (timer_lt ?h) (m_timers s)"
      using srt p by (rule sorted_timer_frame)
    then have tk: "take ?it (m_timers s) = filter (\<lambda>q. next_of ?h q \<le> now_ms) (m_timers s)"
      by (rule due_iterator) (simp add: deadline_timer_def)
    have eq: "filter (\<lambda>q. next_of ?h q \<le> now_ms) (m_timers s) = ?due"
      using p by (intro filter_cong) auto
    have dr: "drop ?it (m_timers s) = filter (\<lambda>q. q \<notin> set ?due) (m_timers s)"
      using take_filter_drop_filter [OF tk [unfolded eq]] by (auto intro: filter_cong)
    have due: "due_timers s now_ms = ?due"
      using some(1) by (simp add: due_timers_def rollover_def)
    show ?thesis
      using some(1,2) ne hd tk [unfolded eq] dr by (simp add: listExpiredCb_def detect due)
  qed
qed

text \<open>What one call does to the state and what it returns, in terms of the due timers.\<close>

lemma listExpiredCb_spec:
  assumes "tm_inv s" and "p \<notin> dom (heap s)" and "m_timers s \<noteq> []"
  shows "fst (listExpiredCb s now_ms p cbs) =
           cbs @ map (\<lambda>q. m_cb (timer_at (heap s) q)) (due_timers s now_ms)"
    and "timer_at (heap (snd (listExpiredCb s now_ms p cbs))) =
           (\<lambda>q. if q \<in> set (due_timers s now_ms) then rearmed now_ms (timer_at (heap s) q)
                else timer_at (heap s) q)"
    and "dom (heap (snd (listExpiredCb s now_ms p cbs))) = dom (heap s)"
    and "set (m_timers (snd (listExpiredCb s now_ms p cbs))) =
           {q \<in> set (m_timers s). q \<in> set (due_timers s now_ms) \<longrightarrow> m_recurring (timer_at (heap s) q)}"
    and "sorted_wrt (timer_lt (heap (snd (listExpiredCb s now_ms p cbs))))
           (m_timers (snd (listExpiredCb s now_ms p cbs)))"
    and "m_previousTime (snd (listExpiredCb s now_ms p cbs)) = now_ms"
    and "m_tickled (snd (listExpiredCb s now_ms p cbs)) = m_tickled s"
proof -
  let ?s = "s\<lparr>m_previousTime := now_ms,
              m_timers := filter (\<lambda>q. q \<notin> set (due_timers s now_ms)) (m_timers s)\<rparr>"
  have run: "listExpiredCb s now_ms p cbs = expire_all now_ms (due_timers s now_ms) ?s cbs"
    using listExpiredCb_eq [OF assms(1,2)] assms(3) by simp
  have "distinct (due_timers s now_ms)"
    using tm_inv_distinct [OF assms(1)] by (simp add: due_timers_def)
  moreover have "set (due_timers s now_ms) \<inter> set (m_timers ?s) = {}"
    by auto
  moreover have "sorted_wrt (timer_lt (heap ?s)) (m_timers ?s)"
    using tm_inv_sorted [OF assms(1)] by (simp add: sorted_wrt_filter)
  ultimately have sp: "fst (expire_all now_ms (due_timers s now_ms) ?s cbs) =
           cbs @ map (\<lambda>q. m_cb (timer_at (heap ?s) q)) (due_timers s now_ms) \<and>
     (let s' = snd (expire_all now_ms (due_timers s now_ms) ?s cbs)
      in timer_at (heap s') = (\<lambda>q. if q \<in> set (due_timers s now_ms)
             then rearmed now_ms (timer_at (heap ?s) q) else timer_at (heap ?s) q) \<and>
         dom (heap s') = dom (heap ?s) \<union> set (due_timers s now_ms) \<and>
         set (m_timers s') = set (m_timers ?s) \<union>
           {q \<in> set (due_timers s now_ms). m_recurring (timer_at (heap ?s) q)} \<and>
         sorted_wrt (timer_lt (heap s')) (m_timers s') \<and>
         m_tickled s' = m_tickled ?s \<and> m_previousTime s' = m_previousTime ?s)"
    by (rule expire_all_spec)
  have sub: "set (due_timers s now_ms) \<subseteq> set (m_timers s)"
    by (rule set_due_timers_subset)
  have hp: "heap ?s = heap s"
    by simp
  note sp = sp [unfolded Let_def hp, folded run]
  show "fst (listExpiredCb s now_ms p cbs) =
           cbs @ map (\<lambda>q. m_cb (timer_at (heap s) q)) (due_timers s now_ms)"
    using sp by simp
  show "timer_at (heap (snd (listExpiredCb s now_ms p cbs))) =
           (\<lambda>q. if q \<in> set (due_timers s now_ms) then rearmed now_ms (timer_at (heap s) q)
                else timer_at (heap s) q)"
    using sp by simp
  show "dom (heap (snd (listExpiredCb s now_ms p cbs))) = dom (heap s)"
    using sp sub tm_inv_alloc [OF assms(1)] by auto
  show "set (m_timers (snd (listExpiredCb s now_ms p cbs))) =
           {q \<in> set (m_timers s). q \<in> set (due_timers s now_ms) \<longrightarrow> m_recurring (timer_at (heap s) q)}"
    using sp sub by auto
  show "sorted_wrt (timer_lt (heap (snd (listExpiredCb s now_ms p cbs))))
           (m_timers (snd (listExpiredCb s now_ms p cbs)))"
    and "m_previousTime (snd (listExpiredCb s now_ms p cbs)) = now_ms"
    and "m_tickled (snd (listExpiredCb s now_ms p cbs)) = m_tickled s"
    using sp by simp_all
qed

lemma listExpiredCb_inv [wf_intro]:
  assumes "tm_inv s" and "p \<notin> dom (heap s)"
  shows "tm_inv (snd (listExpiredCb s now_ms p cbs))"
proof (cases "m_timers s = []")
  case True
  with assms show ?thesis by (simp add: listExpiredCb_def)
next
  case False
  note sp = listExpiredCb_spec [OF assms False, of now_ms cbs]
  show ?thesis
  proof (rule tm_invI, goal_cases)
    case 1
    show ?case by (rule sp(5))
  next
    case 2
    show ?case unfolding sp(3,4) using tm_inv_alloc [OF assms(1)] by blast
  next
    case (3 q)
    then show ?case
      unfolding sp(2,4) using tm_inv_armed [OF assms(1), of q] set_due_timers_subset [of s now_ms]
      by (auto simp: rearmed_def split: if_splits)
  qed
qed

end
