(* ===== verification/Timer_Props.thy ===== *)
theory Timer_Props
  imports Timers
begin

text \<open>
  The properties of the timer component: the manager as a transition system with its invariant,
  the abstract table of pending timers it implements, the wake-up protocol between \<open>addTimer\<close>
  and \<open>getNextTimer\<close>, and the bounds of the 64-bit clock arithmetic.
\<close>

subsection \<open>The manager as a transition system\<close>

inductive tm_step :: "timer_manager \<Rightarrow> timer_manager \<Rightarrow> bool" where
  add: "p \<notin> dom (heap s) \<Longrightarrow> tm_step s (snd (addTimer s now p ms cb recurring))"
| add_condition: "p \<notin> dom (heap s) \<Longrightarrow>
     tm_step s (snd (addConditionTimer s now p ms cb weak_cond recurring))"
| cancel: "cancel s p = Inr (b, s') \<Longrightarrow> tm_step s s'"
| refresh: "tm_step s (snd (refresh s now p))"
| reset: "tm_step s (snd (snd (reset s now p ms from_now)))"
| next_timer: "tm_step s (snd (getNextTimer s now))"
| expire: "p \<notin> dom (heap s) \<Longrightarrow> tm_step s (snd (listExpiredCb s now p cbs))"

lemma tm_step_inv: "tm_step s s' \<Longrightarrow> tm_inv s \<Longrightarrow> tm_inv s'"
  by (induction rule: tm_step.induct) (blast intro: wf_intro)+

interpretation tm: transition_inv "\<lambda>s. \<exists>now. s = new_timer_manager now" tm_step tm_inv
  by unfold_locales (auto intro: wf_intro tm_step_inv)

abbreviation tm_reachable :: "timer_manager \<Rightarrow> bool" where
  "tm_reachable s \<equiv> (\<exists>now. tm_step\<^sup>*\<^sup>* (new_timer_manager now) s)"

lemma tm_reachable_inv: "tm_reachable s \<Longrightarrow> tm_inv s"
  using tm.reachable_inv by blast

lemma tm_reachable_step: "tm_reachable s \<Longrightarrow> tm_step s s' \<Longrightarrow> tm_reachable s'"
  by (meson rtranclp.rtrancl_into_rtrancl)

text \<open>A concrete state: a one-shot timer (address 8) and a recurring one (address 16).\<close>

definition ex_timers :: timer_manager where
  "ex_timers =
     snd (addTimer (snd (addTimer (new_timer_manager 1000) 1000 8 50 (Some (User 1)) False))
            1000 16 20 (Some (User 2)) True)"

lemma ex_timers_reachable: "tm_reachable ex_timers"
proof -
  have "tm_step (new_timer_manager 1000)
      (snd (addTimer (new_timer_manager 1000) 1000 8 50 (Some (User 1)) False))"
    by (rule tm_step.add) (simp add: new_timer_manager_def)
  moreover have "tm_step (snd (addTimer (new_timer_manager 1000) 1000 8 50 (Some (User 1)) False))
      ex_timers"
    unfolding ex_timers_def
    by (rule tm_step.add) (simp add: new_timer_manager_def addTimer_def addTimer_locked_eq)
  ultimately show ?thesis
    by (blast intro: converse_rtranclp_into_rtranclp)
qed

lemma ex_timers_eq:
  "ex_timers = \<lparr>heap = [8 \<mapsto> new_timer 1000 50 (Some (User 1)) False,
                       16 \<mapsto> new_timer 1000 20 (Some (User 2)) True],
               m_timers = [16, 8], m_tickled = True, m_previousTime = 1000\<rparr>"
  by (simp add: ex_timers_def addTimer_def addTimer_locked_eq new_timer_manager_def set_insert_def
      lower_bound_def timer_lt_iff new_timer_def timer_at_def fun_upd_def)

text \<open>
  C1. In every state the manager can reach from its constructor by any sequence of calls, the
  ordered set is sorted for the current deadlines, holds live timers only and holds every timer
  whose callback is set; so the unchecked \<open>m_timers.erase(it)\<close> of \<open>Timer::cancel\<close> never
  receives \<open>end()\<close>, and \<open>cancel\<close> answers true exactly for a timer that still has a callback.
\<close>

theorem timer_cancel_safe:
  assumes "tm_reachable s"
  shows "tm_inv s \<and> (\<exists>s'. cancel s p = Inr (m_cb (timer_at (heap s) p) \<noteq> None, s'))"
proof -
  have "tm_inv s"
    using assms by (rule tm_reachable_inv)
  then show ?thesis
    by (cases "m_cb (timer_at (heap s) p) = None") (simp_all add: cancel_disarmed cancel_armed)
qed

theorem timer_cancel_safe_witness:
  "tm_inv ex_timers \<and> (\<exists>s'. cancel ex_timers 8 = Inr (True, s'))"
  using timer_cancel_safe [OF ex_timers_reachable, of 8]
  by (simp add: ex_timers_eq timer_at_def new_timer_def)

subsection \<open>The abstract table of pending timers\<close>

text \<open>
  What the manager promises: a table of armed timers with their deadlines. \<open>spec_expire\<close> drops
  the due one-shot timers and moves the due recurring ones one period on.
\<close>

definition pending :: "timer_manager \<Rightarrow> ptr \<rightharpoonup> timer" where
  "pending s = (\<lambda>q. if q \<in> set (m_timers s) then Some (timer_at (heap s) q) else None)"

definition spec_expire :: "u64 \<Rightarrow> bool \<Rightarrow> (ptr \<rightharpoonup> timer) \<Rightarrow> (ptr \<rightharpoonup> timer)" where
  "spec_expire now_ms rollover a = (\<lambda>q. case a q of
       None \<Rightarrow> None
     | Some t \<Rightarrow>
         (if rollover \<or> m_next t \<le> now_ms
          then (if m_recurring t then Some (t\<lparr>m_next := now_ms + m_ms t\<rparr>) else None)
          else Some t))"

lemma pending_insert:
  assumes "sorted_wrt (timer_lt h) ts"
  shows "pending (s\<lparr>heap := h, m_timers := fst (set_insert (timer_lt h) p ts)\<rparr>) =
         (pending (s\<lparr>heap := h, m_timers := ts\<rparr>))(p \<mapsto> timer_at h p)"
  using timer_order.set_insert_set [OF assms] by (auto simp: pending_def fun_eq_iff)

lemma pending_tickled [simp]: "pending (s\<lparr>m_tickled := b\<rparr>) = pending s"
  by (simp add: pending_def fun_eq_iff)

lemma pending_reinsert:
  assumes "tm_inv s"
  shows "pending (s\<lparr>heap := (heap s)(p \<mapsto> t),
      m_timers := fst (set_insert (timer_lt ((heap s)(p \<mapsto> t))) p (remove1 p (m_timers s)))\<rparr>)
    = (pending s)(p \<mapsto> t)"
proof -
  have "sorted_wrt (timer_lt ((heap s)(p \<mapsto> t))) (remove1 p (m_timers s))"
    using tm_invD [OF assms] by (simp add: sorted_timer_frame sorted_wrt_remove1)
  then show ?thesis
    using tm_inv_distinct [OF assms] by (subst pending_insert) (auto simp: pending_def fun_eq_iff)
qed

lemma pending_addTimer:
  assumes "tm_inv s" and "p \<notin> dom (heap s)"
  shows "pending (snd (addTimer s now p ms cb recurring)) =
           (pending s)(p \<mapsto> new_timer now ms cb recurring)"
proof -
  have "p \<notin> set (m_timers s)"
    using assms tm_inv_alloc by blast
  then have "remove1 p (m_timers s) = m_timers s"
    by (rule remove1_idem)
  then show ?thesis
    using pending_reinsert [OF assms(1), of p "new_timer now ms cb recurring"]
    by (simp add: addTimer_def addTimer_locked_eq)
qed

lemma pending_cancel:
  assumes "tm_inv s" and "m_cb (timer_at (heap s) p) \<noteq> None" and "cancel s p = Inr (b, s')"
  shows "b \<and> pending s' = (pending s)(p := None)"
  using assms(3) cancel_armed [OF assms(1,2)] tm_inv_distinct [OF assms(1)]
  by (auto simp: pending_def fun_eq_iff)

lemma pending_refresh:
  assumes "tm_inv s" and "m_cb (timer_at (heap s) p) \<noteq> None"
  shows "pending (snd (refresh s now p)) =
    (pending s)(p \<mapsto> (timer_at (heap s) p)\<lparr>m_next := now + m_ms (timer_at (heap s) p)\<rparr>)"
  using pending_reinsert [OF assms(1)] refresh_pending [OF assms] by (simp add: Let_def)

lemma pending_reset:
  assumes "tm_inv s" and "m_cb (timer_at (heap s) p) \<noteq> None"
    and "ms \<noteq> m_ms (timer_at (heap s) p) \<or> from_now"
  shows "pending (snd (snd (reset s now p ms from_now))) =
    (let t = timer_at (heap s) p
     in (pending s)(p \<mapsto> t\<lparr>m_ms := ms,
          m_next := (if from_now then now else m_next t - m_ms t) + ms\<rparr>))"
  using pending_reinsert [OF assms(1), of p] reset_pending [OF assms]
  by (simp add: Let_def addTimer_locked_eq)

lemma pending_listExpiredCb:
  assumes "tm_inv s" and "p \<notin> dom (heap s)"
  shows "pending (snd (listExpiredCb s now_ms p cbs)) =
    spec_expire now_ms (fst (detectClockRollover s now_ms)) (pending s)"
proof (cases "m_timers s = []")
  case True
  then show ?thesis by (simp add: listExpiredCb_def pending_def spec_expire_def)
next
  case False
  note sp = listExpiredCb_spec [OF assms False, of now_ms cbs]
  show ?thesis
    unfolding pending_def sp(2,4)
    by (auto simp: fun_eq_iff spec_expire_def due_timers_def rearmed_def)
qed

text \<open>
  C2. The manager refines the table of pending timers: for a state reached from the constructor,
  \<open>addTimer\<close> adds one entry, a successful \<open>cancel\<close> removes exactly one, \<open>refresh\<close> and
  \<open>reset\<close> move one deadline (\<open>reset\<close> counts from now or from the start of the running period),
  and \<open>listExpiredCb\<close> is \<open>spec_expire\<close>. No operation touches another entry.
\<close>

theorem timers_refine_table:
  assumes "tm_reachable s" and "p \<notin> dom (heap s)"
    and "t = timer_at (heap s) q" and "m_cb t \<noteq> None" and "ms \<noteq> m_ms t \<or> from_now"
  shows "pending (snd (addTimer s now p ms cb recurring)) =
           (pending s)(p \<mapsto> new_timer now ms cb recurring) \<and>
         (\<exists>s'. cancel s q = Inr (True, s') \<and> pending s' = (pending s)(q := None)) \<and>
         pending (snd (refresh s now q)) = (pending s)(q \<mapsto> t\<lparr>m_next := now + m_ms t\<rparr>) \<and>
         pending (snd (snd (reset s now q ms from_now))) =
           (pending s)(q \<mapsto> t\<lparr>m_ms := ms,
              m_next := (if from_now then now else m_next t - m_ms t) + ms\<rparr>) \<and>
         pending (snd (listExpiredCb s now p cbs)) =
           spec_expire now (fst (detectClockRollover s now)) (pending s)"
proof -
  have inv: "tm_inv s"
    using assms(1) by (rule tm_reachable_inv)
  have armed: "m_cb (timer_at (heap s) q) \<noteq> None"
    using assms(3,4) by simp
  have "\<exists>s'. cancel s q = Inr (True, s') \<and> pending s' = (pending s)(q := None)"
    using cancel_armed [OF inv armed] pending_cancel [OF inv armed] by blast
  then show ?thesis
    using pending_addTimer [OF inv assms(2)] pending_refresh [OF inv armed]
      pending_reset [OF inv armed] pending_listExpiredCb [OF inv assms(2)] assms(3,5)
    by (simp add: Let_def)
qed

theorem timers_refine_table_witness:
  "\<exists>s'. cancel ex_timers 8 = Inr (True, s') \<and> pending s' = (pending ex_timers)(8 := None)"
  using timers_refine_table [OF ex_timers_reachable, of 24 "timer_at (heap ex_timers) 8" 8 70 False]
  by (simp add: ex_timers_eq timer_at_def new_timer_def)

subsection \<open>What expires\<close>

lemma sorted_due:
  assumes "tm_inv s"
  shows "sorted (map (next_of (heap s)) (due_timers s now_ms))"
proof -
  have "sorted_wrt (\<lambda>a b. next_of (heap s) a \<le> next_of (heap s) b) (m_timers s)"
    by (rule sorted_wrt_mono_rel [OF _ tm_inv_sorted [OF assms]]) (auto simp: timer_lt_iff)
  then show ?thesis
    by (simp add: due_timers_def sorted_map sorted_wrt_filter)
qed

lemma listExpiredCb_callbacks:
  assumes "tm_inv s" and "p \<notin> dom (heap s)"
  shows "fst (listExpiredCb s now_ms p cbs) =
           cbs @ map (\<lambda>q. m_cb (timer_at (heap s) q)) (due_timers s now_ms)"
proof (cases "m_timers s = []")
  case True
  then show ?thesis by (simp add: listExpiredCb_def due_timers_def)
next
  case False
  then show ?thesis by (rule listExpiredCb_spec(1) [OF assms])
qed

subsection \<open>The sleeping loop: \<open>getNextTimer\<close> against \<open>addTimer\<close> and \<open>listExpiredCb\<close>\<close>

lemma hd_pending_least:
  assumes "tm_inv s" and "q \<in> set (m_timers s)"
  shows "next_of (heap s) (hd (m_timers s)) \<le> next_of (heap s) q"
  using tm_inv_sorted [OF assms(1)] assms(2) by (cases "m_timers s") (auto simp: timer_lt_iff)

lemma getNextTimer_value:
  "fst (getNextTimer s now) =
     (if m_timers s = [] then NOT 0
      else if next_of (heap s) (hd (m_timers s)) \<le> now then 0
      else next_of (heap s) (hd (m_timers s)) - now)"
  by (cases "m_timers s") (simp_all add: getNextTimer_def)

lemma due_timers_empty_iff:
  assumes "tm_inv s" and "m_timers s \<noteq> []" and "\<not> fst (detectClockRollover s now_ms)"
  shows "due_timers s now_ms = [] \<longleftrightarrow> now_ms < next_of (heap s) (hd (m_timers s))"
proof -
  have "hd (m_timers s) \<in> set (m_timers s)"
    using assms(2) by simp
  then show ?thesis
    using assms(3) hd_pending_least [OF assms(1)]
    by (fastforce simp: due_timers_def filter_empty_conv)
qed

text \<open>
  The answer of \<open>getNextTimer\<close> fits what \<open>listExpiredCb\<close> does: it is 0 exactly when there is something to
  do, and otherwise the distance to the clock value from which on there is.
\<close>

lemma next_timer_agrees:
  assumes "tm_reachable s" and "m_timers s \<noteq> []" and "p \<notin> dom (heap s)"
    and "w = fst (getNextTimer s now)"
  shows "(\<not> fst (detectClockRollover s now) \<longrightarrow>
            (w = 0 \<longleftrightarrow> fst (listExpiredCb s now p []) \<noteq> [])) \<and>
         (w \<noteq> 0 \<longrightarrow> now < now + w \<and>
            (\<forall>t. \<not> fst (detectClockRollover s t) \<longrightarrow>
               (fst (listExpiredCb s t p []) \<noteq> [] \<longleftrightarrow> now + w \<le> t)))"
proof -
  have inv: "tm_inv s"
    using assms(1) by (rule tm_reachable_inv)
  let ?d = "next_of (heap s) (hd (m_timers s))"
  have fires: "fst (listExpiredCb s t p []) \<noteq> [] \<longleftrightarrow> ?d \<le> t"
    if "\<not> fst (detectClockRollover s t)" for t
    using listExpiredCb_callbacks [OF inv assms(3)] due_timers_empty_iff [OF inv assms(2) that]
    by (auto simp: not_less)
  have w: "w = (if ?d \<le> now then 0 else ?d - now)"
    using assms(2,4) by (simp add: getNextTimer_value)
  then show ?thesis
    using fires by (auto simp: not_le)
qed

text \<open>
  C3. \<open>listExpiredCb\<close> appends to its argument the callbacks of exactly the timers whose deadline
  has passed (or of all of them after a clock rollover), in the order of their deadlines, whatever
  the addresses the allocator returned, the one of the temporary \<open>now_timer\<close> included. And the answer
  of \<open>getNextTimer\<close> fits it, so that the idle loop sleeps the right time: with a timer pending it is 0
  exactly when a call of \<open>listExpiredCb\<close> at the same clock value would return a callback; otherwise it
  is the distance to the earliest deadline, before which nothing expires and at which something does
  (clock rollovers aside).
\<close>

theorem expired_callbacks:
  assumes "tm_reachable s" and "p \<notin> dom (heap s)"
  shows "(\<exists>due. fst (listExpiredCb s now_ms p cbs) =
             cbs @ map (\<lambda>q. m_cb (timer_at (heap s) q)) due \<and>
           sorted (map (next_of (heap s)) due) \<and> distinct due \<and>
           set due = {q \<in> set (m_timers s).
             fst (detectClockRollover s now_ms) \<or> next_of (heap s) q \<le> now_ms}) \<and>
         (\<forall>w. m_timers s \<noteq> [] \<and> w = fst (getNextTimer s now_ms) \<longrightarrow>
           (\<not> fst (detectClockRollover s now_ms) \<longrightarrow>
              (w = 0 \<longleftrightarrow> fst (listExpiredCb s now_ms p []) \<noteq> [])) \<and>
           (w \<noteq> 0 \<longrightarrow> now_ms < now_ms + w \<and>
              (\<forall>t. \<not> fst (detectClockRollover s t) \<longrightarrow>
                 (fst (listExpiredCb s t p []) \<noteq> [] \<longleftrightarrow> now_ms + w \<le> t))))"
  (is "?fired \<and> ?slept")
proof
  have inv: "tm_inv s"
    using assms(1) by (rule tm_reachable_inv)
  have "distinct (due_timers s now_ms)"
    using tm_inv_distinct [OF inv] by (simp add: due_timers_def)
  moreover have "set (due_timers s now_ms) = {q \<in> set (m_timers s).
             fst (detectClockRollover s now_ms) \<or> next_of (heap s) q \<le> now_ms}"
    by (auto simp: due_timers_def)
  ultimately show ?fired
    using listExpiredCb_callbacks [OF inv assms(2)] sorted_due [OF inv] by blast
  show ?slept using next_timer_agrees [OF assms(1) _ assms(2)] by blast
qed

theorem expired_callbacks_witness:
  "(\<exists>due. fst (listExpiredCb ex_timers 1030 24 []) =
             [] @ map (\<lambda>q. m_cb (timer_at (heap ex_timers) q)) due \<and> set due = {16}) \<and>
   fst (getNextTimer ex_timers 1005) = 15 \<and>
   (fst (listExpiredCb ex_timers 1020 24 []) \<noteq> [] \<longleftrightarrow> (1005::u64) + 15 \<le> 1020)"
  (is "?fired \<and> ?slept")
proof
  have out: "24 \<notin> dom (heap ex_timers)" and ne: "m_timers ex_timers \<noteq> []"
    by (simp_all add: ex_timers_eq)
  have "{q \<in> set (m_timers ex_timers). fst (detectClockRollover ex_timers 1030) \<or>
          next_of (heap ex_timers) q \<le> 1030} = {16}"
    by (auto simp: ex_timers_eq detectClockRollover_def timer_at_def new_timer_def)
  then show ?fired
    using expired_callbacks [OF ex_timers_reachable out, of 1030 "[]", THEN conjunct1] by auto
  have w: "fst (getNextTimer ex_timers 1005) = 15"
    by (simp add: ex_timers_eq getNextTimer_def timer_at_def new_timer_def)
  have "\<not> fst (detectClockRollover ex_timers 1020)"
    by (simp add: detectClockRollover_def ex_timers_eq)
  then show ?slept
    using expired_callbacks [OF ex_timers_reachable out, of 1005, THEN conjunct2] w ne by simp
qed



subsection \<open>Cancellation is final\<close>

definition retired :: "ptr \<Rightarrow> timer_manager \<Rightarrow> bool" where
  "retired p s \<longleftrightarrow>
     p \<in> dom (heap s) \<and> p \<notin> set (m_timers s) \<and> m_cb (timer_at (heap s) p) = None"

lemma retired_addTimer:
  assumes "tm_inv s" and "retired p s" and "q \<notin> dom (heap s)"
  shows "retired p (snd (addTimer s now q ms cb recurring))"
proof -
  have ne: "p \<noteq> q"
    using assms(2,3) by (auto simp: retired_def)
  have "q \<notin> set (m_timers s)"
    using assms(1,3) tm_inv_alloc by blast
  then have "sorted_wrt (timer_lt ((heap s)(q \<mapsto> new_timer now ms cb recurring))) (m_timers s)"
    using tm_inv_sorted [OF assms(1)] by (simp add: sorted_timer_frame)
  from timer_order.set_insert_set [OF this, of q] ne show ?thesis
    using assms(2) by (auto simp: retired_def addTimer_def addTimer_locked_eq)
qed

lemma retired_reinsert:
  assumes "tm_inv s" and "retired p s" and "q \<noteq> p"
  shows "retired p (s\<lparr>heap := (heap s)(q \<mapsto> t), m_timers :=
           fst (set_insert (timer_lt ((heap s)(q \<mapsto> t))) q (remove1 q (m_timers s)))\<rparr>)"
proof -
  have "sorted_wrt (timer_lt ((heap s)(q \<mapsto> t))) (remove1 q (m_timers s))"
    using tm_invD [OF assms(1)] by (simp add: sorted_timer_frame sorted_wrt_remove1)
  from timer_order.set_insert_set [OF this, of q] assms(2,3) show ?thesis
    by (auto simp: retired_def dest: notin_set_remove1)
qed

lemma retired_step:
  assumes "tm_step s s'" and "tm_inv s" and "retired p s"
  shows "retired p s'"
  using assms
proof (induction rule: tm_step.induct)
  case (add q s now ms cb recurring)
  then show ?case by (simp add: retired_addTimer)
next
  case (add_condition q s now ms cb weak_cond recurring)
  then show ?case by (simp add: addConditionTimer_def retired_addTimer)
next
  case (cancel s q b s')
  then show ?case
    using cancel_armed [OF \<open>tm_inv s\<close>, of q]
    by (cases "m_cb (timer_at (heap s) q) = None")
       (auto simp: cancel_disarmed retired_def dest: notin_set_remove1)
next
  case (refresh s now q)
  then show ?case
    using refresh_pending [OF \<open>tm_inv s\<close>, of q now] retired_reinsert [of s p q]
    by (cases "m_cb (timer_at (heap s) q) = None")
       (auto simp: refresh_disarmed Let_def retired_def)
next
  case (reset s now q ms from_now)
  then have armed_ne: "q \<noteq> p" if "m_cb (timer_at (heap s) q) \<noteq> None"
    using that by (auto simp: retired_def)
  consider "m_cb (timer_at (heap s) q) = None" | "ms = m_ms (timer_at (heap s) q)" "\<not> from_now"
    | "m_cb (timer_at (heap s) q) \<noteq> None" "ms \<noteq> m_ms (timer_at (heap s) q) \<or> from_now"
    by blast
  then show ?case
  proof cases
    case 1
    with reset show ?thesis by (simp add: reset_disarmed)
  next
    case 2
    with reset show ?thesis by (simp add: reset_same_period)
  next
    case 3
    from retired_reinsert [OF reset armed_ne [OF 3(1)]] show ?thesis
      using reset_pending [OF reset(1) 3] by (simp add: Let_def addTimer_locked_eq retired_def)
  qed
next
  case (next_timer s now)
  then show ?case by (simp add: getNextTimer_def retired_def)
next
  case (expire q s now cbs)
  show ?case
  proof (cases "m_timers s = []")
    case True
    with expire show ?thesis by (simp add: listExpiredCb_def)
  next
    case False
    have "p \<notin> set (due_timers s now)"
      using expire.prems set_due_timers_subset [of s now] by (auto simp: retired_def)
    then show ?thesis
      using expire.prems listExpiredCb_spec(2-4) [OF expire.prems(1) expire.hyps False, of now cbs]
      by (auto simp: retired_def)
  qed
qed

lemma retired_steps: "tm_step\<^sup>*\<^sup>* s s' \<Longrightarrow> tm_inv s \<Longrightarrow> retired p s \<Longrightarrow> retired p s' \<and> tm_inv s'"
  by (induction rule: rtranclp_induct) (blast intro: retired_step tm_step_inv)+

text \<open>
  C6. Once \<open>cancel\<close> has answered true the timer is gone for good: whatever calls follow, on this
  timer or on others, it is never among the timers that expire, and \<open>cancel\<close> and \<open>refresh\<close> on it
  answer false and change nothing.
\<close>

theorem cancelled_never_fires:
  assumes "tm_reachable s" and "cancel s p = Inr (True, s1)" and "tm_step\<^sup>*\<^sup>* s1 s2"
  shows "p \<notin> set (due_timers s2 now) \<and> cancel s2 p = Inr (False, s2) \<and>
         refresh s2 now p = (False, s2)"
proof -
  have inv: "tm_inv s"
    using assms(1) by (rule tm_reachable_inv)
  have armed: "m_cb (timer_at (heap s) p) \<noteq> None"
    using assms(2) cancel_disarmed by fastforce
  have "retired p s1"
    using assms(2) cancel_armed [OF inv armed] tm_inv_distinct [OF inv]
    by (auto simp: retired_def)
  then have "retired p s2"
    using retired_steps [OF assms(3) cancel_inv [OF inv assms(2)]] by blast
  then show ?thesis
    using set_due_timers_subset [of s2 now] cancel_disarmed refresh_disarmed
    by (auto simp: retired_def)
qed

theorem cancelled_never_fires_witness:
  "\<exists>s1. cancel ex_timers 16 = Inr (True, s1) \<and> 16 \<notin> set (due_timers s1 5000)"
proof -
  let ?s1 = "ex_timers\<lparr>heap := (heap ex_timers)(16 \<mapsto> (timer_at (heap ex_timers) 16)\<lparr>m_cb := None\<rparr>),
                      m_timers := remove1 16 (m_timers ex_timers)\<rparr>"
  have c: "cancel ex_timers 16 = Inr (True, ?s1)"
    by (rule cancel_armed [OF tm_reachable_inv [OF ex_timers_reachable]])
       (simp add: ex_timers_eq timer_at_def new_timer_def)
  then show ?thesis
    using cancelled_never_fires [OF ex_timers_reachable c rtranclp.rtrancl_refl, of 5000] by blast
qed

subsection \<open>Bounds of the 64-bit clock arithmetic\<close>

lemma due_after_add:
  assumes "tm_inv s" and "p \<notin> dom (heap s)"
    and "s' = snd (addTimer s now p ms cb recurring)"
  shows "\<not> fst (detectClockRollover s' t) \<Longrightarrow>
    p \<in> set (due_timers s' t) \<longleftrightarrow> now + ms \<le> t"
proof -
  have "pending s' p = Some (new_timer now ms cb recurring)"
    using pending_addTimer [OF assms(1,2)] assms(3) by simp
  then have "p \<in> set (m_timers s')" and "next_of (heap s') p = now + ms"
    by (auto simp: pending_def new_timer_def split: if_splits)
  then show "\<not> fst (detectClockRollover s' t) \<Longrightarrow> ?thesis"
    by (auto simp: due_timers_def)
qed



text \<open>
  Without that bound the deadline wraps around: the longest delay an \<open>uint64_t\<close> can express is
  over at once.
\<close>

lemma longest_delay_fires_at_once:
  assumes "now \<noteq> 0"
  shows "8 \<in> set (due_timers (snd (addTimer (new_timer_manager now) now 8 (NOT 0) cb recurring)) now)"
proof -
  let ?s = "snd (addTimer (new_timer_manager now) now 8 (NOT 0) cb recurring)"
  have "m_previousTime ?s = now"
    by (simp add: addTimer_def addTimer_locked_eq new_timer_manager_def)
  then have nr: "\<not> fst (detectClockRollover ?s now)"
    by (simp add: detectClockRollover_def)
  have "now - 1 \<le> now"
    using assms measure_unat [of now] by (simp add: word_le_nat_alt)
  then show ?thesis
    using due_after_add [OF new_timer_manager_inv _ refl nr] by (simp add: new_timer_manager_def)
qed

text \<open>
  \<open>detectClockRollover\<close> reports a rollover exactly when the clock went back by more than an
  hour, provided the previous reading was at least an hour after the epoch; below that the
  subtraction wraps around and every backward step of the clock counts as a rollover. The reading
  is remembered either way.
\<close>

lemma rollover_bounds:
  "(unat (m_previousTime s) \<ge> 3600000 \<longrightarrow>
      (fst (detectClockRollover s now) \<longleftrightarrow> unat now + 3600000 < unat (m_previousTime s))) \<and>
   (unat (m_previousTime s) < 3600000 \<longrightarrow>
      (fst (detectClockRollover s now) \<longleftrightarrow> unat now < unat (m_previousTime s))) \<and>
   m_previousTime (snd (detectClockRollover s now)) = now"
proof -
  let ?p = "m_previousTime s"
  have "unat (?p - 3600000) = (if 3600000 \<le> unat ?p then unat ?p - 3600000
                               else unat ?p + 2 ^ 64 - 3600000)"
    by (simp add: unat_sub_if')
  then show ?thesis
    using unsigned_less [of ?p, where ?'a = nat] unsigned_less [of now, where ?'a = nat]
    by (auto simp: detectClockRollover_def word_less_nat_alt)
qed

text \<open>
  \<open>Timer::reset\<close> with an unchanged period and without \<open>from_now\<close> answers true before it looks at
  the timer, so also for one that was cancelled and will never fire.
\<close>

lemma reset_true_on_cancelled:
  assumes "tm_inv s" and "m_cb (timer_at (heap s) p) \<noteq> None" and "cancel s p = Inr (b, s')"
  shows "reset s' now p (m_ms (timer_at (heap s) p)) False = (True, False, s')"
  using assms(3) cancel_armed [OF assms(1,2)] by (auto intro: reset_same_period)

end
