(* ===== verification/Fibers.thy ===== *)
theory Fibers
  imports Prelude
begin

text \<open>
  \<open>wille/fiber.h\<close> and \<open>wille/fiber.cpp\<close>: fiber objects, their states, and the transfer of control
  with \<open>swapcontext\<close>.

  A fiber's \<open>m_ctx\<close> is modelled by what resuming it does: nothing yet, start \<open>MainFunc\<close> on a fresh
  stack (\<open>makecontext\<close>), or go on after an earlier \<open>swapcontext\<close>; the place in the code where that
  was is the token \<open>Resume k\<close>. An operation that ends in \<open>swapcontext\<close> takes the token \<open>k\<close> of the
  code after the call and returns the context that runs next. \<open>t_fiber\<close> and \<open>t_threadFiber\<close> are
  thread-local, as is the scheduler's main fiber (\<open>Scheduler::GetMainFiber()\<close>); threads are numbered.
  A failed \<open>WILLE_ASSERT\<close> aborts the process and a null fiber that is dereferenced is undefined:
  both are errors of the operation. \<open>getcontext\<close> and \<open>swapcontext\<close> are taken to succeed (their
  failure branches are an abort); the stack memory itself is not modelled.
\<close>

datatype fstate = INIT | HOLD | EXEC | FTERM \<comment> \<open>\<open>Fiber::TERM\<close>\<close> | READY | EXCEPT

datatype ucontext = EntryPoint | Resume nat

record fiber =
  f_id :: u64
  f_state :: fstate
  f_ctx :: ucontext
  f_cb :: "callback option"
  f_main :: bool

record thread_locals =
  t_fiber :: "ptr option"
  t_threadFiber :: "ptr option"
  t_mainFiber :: "ptr option"

record fibers =
  fheap :: "ptr \<rightharpoonup> fiber"
  s_fiber_id :: u64
  s_fiber_count :: u64
  locals :: "nat \<Rightarrow> thread_locals"

datatype fiber_error = AssertFailed | NullDeref

type_synonym 'a fresult = "fiber_error + 'a"

subsection \<open>Creation and the current fiber\<close>

definition no_locals :: thread_locals where
  "no_locals = \<lparr>t_fiber = None, t_threadFiber = None, t_mainFiber = None\<rparr>"

definition initial_fibers :: fibers where
  "initial_fibers =
     \<lparr>fheap = Map.empty, s_fiber_id = 0, s_fiber_count = 0, locals = (\<lambda>_. no_locals)\<rparr>"

definition SetThis :: "fibers \<Rightarrow> nat \<Rightarrow> ptr option \<Rightarrow> fibers" where
  "SetThis w t f = w\<lparr>locals := (locals w)(t := (locals w t)\<lparr>t_fiber := f\<rparr>)\<rparr>"

definition set_fiber :: "fibers \<Rightarrow> ptr \<Rightarrow> fiber \<Rightarrow> fibers" where
  "set_fiber w p f = w\<lparr>fheap := (fheap w)(p \<mapsto> f)\<rparr>"

definition new_main_fiber :: "fibers \<Rightarrow> nat \<Rightarrow> ptr \<Rightarrow> nat \<Rightarrow> fibers" where
  "new_main_fiber w t p k =
     (let w1 = SetThis w t (Some p);
          w2 = set_fiber w1 p \<lparr>f_id = 0, f_state = EXEC, f_ctx = Resume k, f_cb = None, f_main = True\<rparr>
      in w2\<lparr>s_fiber_count := s_fiber_count w2 + 1\<rparr>)"

definition new_fiber :: "fibers \<Rightarrow> ptr \<Rightarrow> callback option \<Rightarrow> bool \<Rightarrow> fibers" where
  "new_fiber w p cb main =
     (let w1 = w\<lparr>s_fiber_id := s_fiber_id w + 1\<rparr>;
          w2 = set_fiber w1 p \<lparr>f_id = s_fiber_id w1, f_state = INIT, f_ctx = EntryPoint,
                               f_cb = cb, f_main = main\<rparr>
      in w2\<lparr>s_fiber_count := s_fiber_count w2 + 1\<rparr>)"

definition GetThis :: "fibers \<Rightarrow> nat \<Rightarrow> ptr \<Rightarrow> nat \<Rightarrow> ptr \<times> fibers" where
  "GetThis w t p k =
     (case t_fiber (locals w t) of
        Some f \<Rightarrow> (f, w)
      | None \<Rightarrow>
          (let w1 = new_main_fiber w t p k
           in (p, w1\<lparr>locals := (locals w1)(t := (locals w1 t)\<lparr>t_threadFiber := Some p\<rparr>)\<rparr>)))"

definition GetFiberId :: "fibers \<Rightarrow> nat \<Rightarrow> u64 fresult" where
  "GetFiberId w t =
     (case t_fiber (locals w t) of
        Some f \<Rightarrow> (case fheap w f of Some x \<Rightarrow> Inr (f_id x) | None \<Rightarrow> Inl NullDeref)
      | None \<Rightarrow> Inr 0)"

definition util_GetFiberId :: "fibers \<Rightarrow> nat \<Rightarrow> u32 fresult" where
  "util_GetFiberId w t = (case GetFiberId w t of Inl e \<Rightarrow> Inl e | Inr i \<Rightarrow> Inr (ucast i))"

definition TotalFibers :: "fibers \<Rightarrow> u64" where
  "TotalFibers w = s_fiber_count w"

fun stateTermOrExcept :: "fstate \<Rightarrow> bool" where
  "stateTermOrExcept st = (st = FTERM \<or> st = EXCEPT)"

definition destroy_fiber :: "fibers \<Rightarrow> nat \<Rightarrow> ptr \<Rightarrow> fibers fresult" where
  "destroy_fiber w t p =
     (case fheap w p of
        None \<Rightarrow> Inl NullDeref
      | Some f \<Rightarrow>
          (let w1 = w\<lparr>s_fiber_count := s_fiber_count w - 1, fheap := (fheap w)(p := None)\<rparr>
           in if Some p \<noteq> t_threadFiber (locals w t)
              then (if f_state f = FTERM \<or> f_state f = EXCEPT \<or> f_state f = INIT
                    then Inr w1 else Inl AssertFailed)
              else if f_cb f \<noteq> None \<or> f_state f \<noteq> EXEC then Inl AssertFailed
              else if t_fiber (locals w t) = Some p then Inr (SetThis w1 t None)
              else Inr w1))"

definition reset_fiber :: "fibers \<Rightarrow> ptr \<Rightarrow> callback option \<Rightarrow> fibers fresult" where
  "reset_fiber w p cb =
     (case fheap w p of
        None \<Rightarrow> Inl NullDeref
      | Some f \<Rightarrow>
          (if f_state f = FTERM \<or> f_state f = EXCEPT \<or> f_state f = INIT
           then Inr (set_fiber w p (f\<lparr>f_cb := cb, f_ctx := EntryPoint, f_state := INIT\<rparr>))
           else Inl AssertFailed))"

subsection \<open>Transfer of control\<close>

text \<open>The fiber a fiber of this thread is swapped in from and swaps back to.\<close>

definition swap_base :: "fibers \<Rightarrow> nat \<Rightarrow> fiber \<Rightarrow> ptr option" where
  "swap_base w t f =
     (if f_main f \<or> t_mainFiber (locals w t) = None then t_threadFiber (locals w t)
      else t_mainFiber (locals w t))"

definition swapcontext :: "fibers \<Rightarrow> ptr \<Rightarrow> ptr \<Rightarrow> nat \<Rightarrow> (ucontext \<times> fibers) fresult" where
  "swapcontext w from to k =
     (case fheap w from of
        None \<Rightarrow> Inl NullDeref
      | Some a \<Rightarrow>
          (let w1 = set_fiber w from (a\<lparr>f_ctx := Resume k\<rparr>)
           in case fheap w1 to of
                None \<Rightarrow> Inl NullDeref
              | Some b \<Rightarrow> Inr (f_ctx b, w1)))"

definition swapIn :: "fibers \<Rightarrow> nat \<Rightarrow> ptr \<Rightarrow> nat \<Rightarrow> (ucontext \<times> fibers) fresult" where
  "swapIn w t p k =
     (let w1 = SetThis w t (Some p)
      in case fheap w1 p of
           None \<Rightarrow> Inl NullDeref
         | Some f \<Rightarrow>
             (if f_state f = EXEC then Inl AssertFailed
              else let w2 = set_fiber w1 p (f\<lparr>f_state := EXEC\<rparr>)
                   in case swap_base w2 t f of
                        None \<Rightarrow> Inl NullDeref
                      | Some m \<Rightarrow> swapcontext w2 m p k))"

definition swapOut :: "fibers \<Rightarrow> nat \<Rightarrow> ptr \<Rightarrow> nat \<Rightarrow> (ucontext \<times> fibers) fresult" where
  "swapOut w t p k =
     (case fheap w p of
        None \<Rightarrow> Inl NullDeref
      | Some f \<Rightarrow>
          (let w1 = SetThis w t (swap_base w t f)
           in case t_fiber (locals w1 t) of
                None \<Rightarrow> Inl NullDeref
              | Some m \<Rightarrow> swapcontext w1 p m k))"

text \<open>
  \<open>YieldToReady\<close> and \<open>YieldToHold\<close> store the new state first and swap out afterwards; the first
  half is a definition of its own because other threads can run between the two.
\<close>

definition yield_mark :: "fstate \<Rightarrow> fibers \<Rightarrow> nat \<Rightarrow> ptr \<Rightarrow> nat \<Rightarrow> (ptr \<times> fibers) fresult" where
  "yield_mark st w t p k =
     (let (cur, w1) = GetThis w t p k
      in case fheap w1 cur of
           None \<Rightarrow> Inl NullDeref
         | Some f \<Rightarrow>
             (if f_state f = EXEC then Inr (cur, set_fiber w1 cur (f\<lparr>f_state := st\<rparr>))
              else Inl AssertFailed))"

definition YieldToReady :: "fibers \<Rightarrow> nat \<Rightarrow> ptr \<Rightarrow> nat \<Rightarrow> (ucontext \<times> fibers) fresult" where
  "YieldToReady w t p k =
     (case yield_mark READY w t p k of Inl e \<Rightarrow> Inl e | Inr (cur, w1) \<Rightarrow> swapOut w1 t cur k)"

definition YieldToHold :: "fibers \<Rightarrow> nat \<Rightarrow> ptr \<Rightarrow> nat \<Rightarrow> (ucontext \<times> fibers) fresult" where
  "YieldToHold w t p k =
     (case yield_mark HOLD w t p k of Inl e \<Rightarrow> Inl e | Inr (cur, w1) \<Rightarrow> swapOut w1 t cur k)"

text \<open>
  \<open>MainFunc\<close>: the callback runs between the two halves. Calling an empty \<open>std::function\<close> throws
  \<open>std::bad_function_call\<close>, which the handler catches like any other exception.
\<close>

datatype body_outcome = Returned | Threw

definition MainFunc_body :: "fibers \<Rightarrow> nat \<Rightarrow> ptr \<Rightarrow> nat \<Rightarrow> (callback option \<times> fibers) fresult" where
  "MainFunc_body w t p k =
     (let (cur, w1) = GetThis w t p k
      in case fheap w1 cur of None \<Rightarrow> Inl NullDeref | Some f \<Rightarrow> Inr (f_cb f, w1))"

definition MainFunc_finish ::
  "fibers \<Rightarrow> nat \<Rightarrow> ptr \<Rightarrow> body_outcome \<Rightarrow> nat \<Rightarrow> (ucontext \<times> fibers) fresult" where
  "MainFunc_finish w t cur outcome k =
     (case fheap w cur of
        None \<Rightarrow> Inl NullDeref
      | Some f \<Rightarrow>
          (let f1 = (if f_cb f = None \<or> outcome = Threw then f\<lparr>f_state := EXCEPT\<rparr>
                     else f\<lparr>f_cb := None, f_state := FTERM\<rparr>)
           in swapOut (set_fiber w cur f1) t cur k))"

lemmas fiber_defs = SetThis_def set_fiber_def swap_base_def swapcontext_def swapIn_def swapOut_def
  yield_mark_def YieldToReady_def YieldToHold_def GetThis_def MainFunc_finish_def Let_def

end
