(* ===== verification/Fiber_Props.thy ===== *)
theory Fiber_Props
  imports Fibers
begin

text \<open>
  The properties of the fiber component: control comes back to the caller of \<open>swapIn\<close> on every way
  a fiber can give it up and goes on where the fiber left off; the life cycle of a fiber; the
  identifiers and the live count; and the window in which a yielding fiber is already marked.
\<close>

subsection \<open>Swapping in and out\<close>

lemma swap_base_cong:
  "locals w' t = (locals w t)\<lparr>t_fiber := x\<rparr> \<Longrightarrow> f_main g = f_main f \<Longrightarrow>
     swap_base w' t g = swap_base w t f"
  by (simp add: swap_base_def)

lemma set_fiber_sel [simp]:
  "locals (set_fiber w p f) = locals w" "s_fiber_id (set_fiber w p f) = s_fiber_id w"
  "s_fiber_count (set_fiber w p f) = s_fiber_count w"
  "fheap (set_fiber w p f) = (fheap w)(p \<mapsto> f)"
  by (simp_all add: set_fiber_def)

lemma SetThis_sel [simp]:
  "locals (SetThis w t x) = (locals w)(t := (locals w t)\<lparr>t_fiber := x\<rparr>)"
  "s_fiber_id (SetThis w t x) = s_fiber_id w" "s_fiber_count (SetThis w t x) = s_fiber_count w"
  "fheap (SetThis w t x) = fheap w"
  by (simp_all add: SetThis_def)

lemma swapIn_ok:
  assumes "fheap w p = Some f" and "f_state f \<noteq> EXEC"
    and "swap_base w t f = Some m" and "m \<noteq> p" and "fheap w m = Some mf"
  shows "swapIn w t p k =
    Inr (f_ctx f, set_fiber (set_fiber (SetThis w t (Some p)) p (f\<lparr>f_state := EXEC\<rparr>))
                    m (mf\<lparr>f_ctx := Resume k\<rparr>))"
proof -
  have "swap_base (set_fiber (SetThis w t (Some p)) p (f\<lparr>f_state := EXEC\<rparr>)) t f = Some m"
    using assms(3) swap_base_cong [of _ t "Some p" w f f] by simp
  with assms show ?thesis
    by (simp add: swapIn_def swapcontext_def Let_def)
qed

lemma swapOut_ok:
  assumes "fheap w p = Some f" and "swap_base w t f = Some m" and "m \<noteq> p" and "fheap w m = Some mf"
  shows "swapOut w t p k =
    Inr (f_ctx mf, set_fiber (SetThis w t (Some m)) p (f\<lparr>f_ctx := Resume k\<rparr>))"
  using assms by (simp add: swapOut_def swapcontext_def Let_def)

text \<open>
  What a running fiber may do before it gives control back: the other fibers are arbitrary, its own
  record, its base and the thread's locals are as \<open>swapIn\<close> left them.
\<close>

definition still_running :: "fibers \<Rightarrow> nat \<Rightarrow> ptr \<Rightarrow> ptr \<Rightarrow> fibers \<Rightarrow> bool" where
  "still_running w1 t p m w1' \<longleftrightarrow>
     locals w1' t = locals w1 t \<and> fheap w1' p = fheap w1 p \<and> fheap w1' m = fheap w1 m"

lemma still_running_refl: "still_running w t p m w"
  by (simp add: still_running_def)

lemma running_swapOut:
  assumes base: "fheap w p = Some f" "swap_base w t f = Some m" "m \<noteq> p" "fheap w m = Some mf"
    and w1: "w1 = set_fiber (set_fiber (SetThis w t (Some p)) p (f\<lparr>f_state := EXEC\<rparr>))
                    m (mf\<lparr>f_ctx := Resume k\<rparr>)"
    and run: "still_running w1 t p m w1'"
  shows "t_fiber (locals w1' t) = Some p"
    and "fheap w1' p = Some (f\<lparr>f_state := EXEC\<rparr>)"
    and "f_main g = f_main f \<Longrightarrow> swapOut (set_fiber w1' p g) t p k1 =
      Inr (Resume k, set_fiber (SetThis w1' t (Some m)) p (g\<lparr>f_ctx := Resume k1\<rparr>))"
proof -
  show this: "t_fiber (locals w1' t) = Some p" and run_p: "fheap w1' p = Some (f\<lparr>f_state := EXEC\<rparr>)"
    using run base(3) by (simp_all add: still_running_def w1)
  have run_m: "fheap (set_fiber w1' p g) m = Some (mf\<lparr>f_ctx := Resume k\<rparr>)"
    using run base(3) by (simp add: still_running_def w1)
  assume "f_main g = f_main f"
  then have "swap_base (set_fiber w1' p g) t g = Some m"
    using run base(2) swap_base_cong [of "set_fiber w1' p g" t "Some p" w g f]
    by (simp add: still_running_def w1)
  from swapOut_ok [OF _ this base(3) run_m]
  have "swapOut (set_fiber w1' p g) t p k1 =
      Inr (Resume k, set_fiber (SetThis (set_fiber w1' p g) t (Some m)) p (g\<lparr>f_ctx := Resume k1\<rparr>))"
    by simp
  then show "swapOut (set_fiber w1' p g) t p k1 =
      Inr (Resume k, set_fiber (SetThis w1' t (Some m)) p (g\<lparr>f_ctx := Resume k1\<rparr>))"
    by (simp add: set_fiber_def SetThis_def)
qed

lemma set_fiber_same: "fheap w p = Some f \<Longrightarrow> set_fiber w p f = w"
  by (simp add: set_fiber_def map_upd_triv)

lemma yield_running:
  assumes "t_fiber (locals w t) = Some p" and "fheap w p = Some f" and "f_state f = EXEC"
  shows "yield_mark st w t q k = Inr (p, set_fiber w p (f\<lparr>f_state := st\<rparr>))"
  using assms by (simp add: yield_mark_def GetThis_def)

text \<open>The fiber that was swapped in gives control back: by a yield, or by the end of its callback.\<close>

abbreviation swapped_in :: "fibers \<Rightarrow> nat \<Rightarrow> ptr \<Rightarrow> fiber \<Rightarrow> ptr \<Rightarrow> fiber \<Rightarrow> nat \<Rightarrow> fibers" where
  "swapped_in w t p f m mf k \<equiv>
     set_fiber (set_fiber (SetThis w t (Some p)) p (f\<lparr>f_state := EXEC\<rparr>)) m (mf\<lparr>f_ctx := Resume k\<rparr>)"

lemma yield_returns:
  assumes f: "fheap w p = Some f" and base: "swap_base w t f = Some m" "m \<noteq> p" and mf: "fheap w m = Some mf"
    and run: "still_running (swapped_in w t p f m mf k) t p m w1'" and st: "st \<noteq> EXEC"
  shows "\<exists>w2. (case yield_mark st w1' t q k1 of Inl e \<Rightarrow> Inl e
                 | Inr (cur, v) \<Rightarrow> swapOut v t cur k1) = Inr (Resume k, w2) \<and>
       t_fiber (locals w2 t) = Some m \<and> map_option f_state (fheap w2 p) = Some st \<and>
       (\<exists>w3. swapIn w2 t p k2 = Inr (Resume k1, w3))"
proof -
  note r = running_swapOut [OF f base mf refl run]
  let ?g = "f\<lparr>f_state := st\<rparr>"
  let ?w2 = "set_fiber (SetThis w1' t (Some m)) p (?g\<lparr>f_ctx := Resume k1\<rparr>)"
  have base2: "swap_base ?w2 t (?g\<lparr>f_ctx := Resume k1\<rparr>) = Some m"
    using run base(1) swap_base_cong [of ?w2 t "Some m" w "?g\<lparr>f_ctx := Resume k1\<rparr>" f]
    by (simp add: still_running_def)
  have "fheap ?w2 m = Some (mf\<lparr>f_ctx := Resume k\<rparr>)" using run base(2) by (simp add: still_running_def)
  then have "\<exists>w3. swapIn ?w2 t p k2 = Inr (Resume k1, w3)"
    using swapIn_ok [OF _ _ base2 base(2), of "mf\<lparr>f_ctx := Resume k\<rparr>" k2] st by simp
  then show ?thesis using yield_running [OF r(1,2)] r(3) [of ?g k1] by simp
qed

lemma finish_returns:
  assumes f: "fheap w p = Some f" "f_cb f \<noteq> None" and base: "swap_base w t f = Some m" "m \<noteq> p" and mf: "fheap w m = Some mf"
    and run: "still_running (swapped_in w t p f m mf k) t p m w1'"
  shows "\<exists>w2. MainFunc_finish w1' t p outcome k1 = Inr (Resume k, w2) \<and>
       t_fiber (locals w2 t) = Some m \<and>
       map_option f_state (fheap w2 p) = Some (if outcome = Returned then FTERM else EXCEPT) \<and>
       map_option f_cb (fheap w2 p) = Some (if outcome = Returned then None else f_cb f)"
proof -
  note r = running_swapOut [OF f(1) base mf refl run]
  let ?g = "if outcome = Returned then f\<lparr>f_cb := None, f_state := FTERM\<rparr> else f\<lparr>f_state := EXCEPT\<rparr>"
  have "MainFunc_finish w1' t p outcome k1 = swapOut (set_fiber w1' p ?g) t p k1"
    using r(2) f(2) by (cases outcome) (auto simp: MainFunc_finish_def Let_def)
  then show ?thesis using r(3) [of ?g k1] by (cases outcome) simp_all
qed

text \<open>
  C9. Whoever swaps a fiber in gets control back, at the point after the call and with the thread's
  current fiber reset to the one it came from, on every way the fiber can give it up: yielding to
  READY or to HOLD, returning from its callback, or leaving it by an exception. The state it leaves
  behind is the one the scheduler decides on; a returned fiber has dropped its callback. After a
  yield, the next \<open>swapIn\<close> goes on right behind the yield.
\<close>

theorem fiber_control_returns:
  assumes "fheap w p = Some f" and "f_state f \<noteq> EXEC" and "f_cb f \<noteq> None"
    and "swap_base w t f = Some m" and "m \<noteq> p" and "fheap w m = Some mf"
  shows "\<exists>w1. swapIn w t p k = Inr (f_ctx f, w1) \<and>
    (\<forall>w1'. still_running w1 t p m w1' \<longrightarrow>
      (\<exists>w2. YieldToReady w1' t q k1 = Inr (Resume k, w2) \<and> t_fiber (locals w2 t) = Some m \<and>
         map_option f_state (fheap w2 p) = Some READY \<and>
         (\<exists>w3. swapIn w2 t p k2 = Inr (Resume k1, w3))) \<and>
      (\<exists>w2. YieldToHold w1' t q k1 = Inr (Resume k, w2) \<and> t_fiber (locals w2 t) = Some m \<and>
         map_option f_state (fheap w2 p) = Some HOLD \<and>
         (\<exists>w3. swapIn w2 t p k2 = Inr (Resume k1, w3))) \<and>
      (\<exists>w2. MainFunc_finish w1' t p Returned k1 = Inr (Resume k, w2) \<and>
         t_fiber (locals w2 t) = Some m \<and>
         map_option f_state (fheap w2 p) = Some FTERM \<and> map_option f_cb (fheap w2 p) = Some None) \<and>
      (\<exists>w2. MainFunc_finish w1' t p Threw k1 = Inr (Resume k, w2) \<and>
         t_fiber (locals w2 t) = Some m \<and>
         map_option f_state (fheap w2 p) = Some EXCEPT \<and> map_option f_cb (fheap w2 p) = Some (f_cb f)))"
  using swapIn_ok [OF assms(1,2,4,5,6), of k] yield_returns [OF assms(1,4,5,6), of k _ READY k1 q k2]
    yield_returns [OF assms(1,4,5,6), of k _ HOLD k1 q k2]
    finish_returns [OF assms(1,3,4,5,6), of k _ Returned k1] finish_returns [OF assms(1,3,4,5,6), of k _ Threw k1]
  by (simp add: YieldToReady_def YieldToHold_def)

text \<open>A thread with its main fiber (address 1) and a fresh fiber (address 2).\<close>

definition ex_fibers :: fibers where
  "ex_fibers = new_fiber (snd (GetThis initial_fibers 0 1 0)) 2 (Some (User 7)) False"

lemma ex_fibers_simps:
  "fheap ex_fibers 2 = Some \<lparr>f_id = 1, f_state = INIT, f_ctx = EntryPoint, f_cb = Some (User 7),
                            f_main = False\<rparr>"
  "fheap ex_fibers 1 = Some \<lparr>f_id = 0, f_state = EXEC, f_ctx = Resume 0, f_cb = None, f_main = True\<rparr>"
  "t_threadFiber (locals ex_fibers 0) = Some 1" "t_mainFiber (locals ex_fibers 0) = None"
  by (simp_all add: ex_fibers_def new_fiber_def new_main_fiber_def initial_fibers_def no_locals_def
      fiber_defs)

theorem fiber_control_returns_witness:
  "\<exists>w1. swapIn ex_fibers 0 2 10 = Inr (EntryPoint, w1) \<and>
     (\<exists>w2. YieldToHold w1 0 3 11 = Inr (Resume 10, w2) \<and> (\<exists>w3. swapIn w2 0 2 12 = Inr (Resume 11, w3)))"
proof -
  let ?f = "\<lparr>f_id = 1, f_state = INIT, f_ctx = EntryPoint, f_cb = Some (User 7), f_main = False\<rparr>"
  have base: "swap_base ex_fibers 0 ?f = Some 1"
    by (simp add: swap_base_def ex_fibers_simps)
  have "f_state ?f \<noteq> EXEC" and "f_cb ?f \<noteq> None" and "(1::ptr) \<noteq> 2"
    by simp_all
  note th = fiber_control_returns [OF ex_fibers_simps(1) this(1,2) base this(3) ex_fibers_simps(2),
      of 10 3 11 12, unfolded fiber.simps]
  show ?thesis
    using th still_running_refl by blast
qed

subsection \<open>Identifiers and the live count\<close>

definition ids :: "fibers \<Rightarrow> ptr \<rightharpoonup> u64" where
  "ids w = (\<lambda>p. map_option f_id (fheap w p))"

definition same_ids :: "fibers \<Rightarrow> fibers \<Rightarrow> bool" where
  "same_ids w w' \<longleftrightarrow>
     ids w' = ids w \<and> s_fiber_id w' = s_fiber_id w \<and> s_fiber_count w' = s_fiber_count w"

definition fib_inv :: "fibers \<Rightarrow> bool" where
  "fib_inv w \<longleftrightarrow>
     finite (dom (ids w)) \<and> s_fiber_count w = of_nat (card (dom (ids w))) \<and>
     (\<forall>p i. ids w p = Some i \<longrightarrow> i \<le> s_fiber_id w) \<and>
     (\<forall>p q i. ids w p = Some i \<longrightarrow> ids w q = Some i \<longrightarrow> i \<noteq> 0 \<longrightarrow> p = q)"

lemma dom_ids [simp]: "dom (ids w) = dom (fheap w)"
  by (auto simp: ids_def)

lemma same_ids_inv: "same_ids w w' \<Longrightarrow> fib_inv w \<Longrightarrow> fib_inv w'"
  by (simp add: same_ids_def fib_inv_def del: dom_ids)

lemma same_ids_trans: "same_ids u v \<Longrightarrow> same_ids v w \<Longrightarrow> same_ids u w"
  by (simp add: same_ids_def)

lemma same_ids_SetThis: "same_ids w (SetThis w t x)"
  by (simp add: same_ids_def ids_def)

lemma same_ids_set_fiber: "fheap w p = Some f \<Longrightarrow> f_id g = f_id f \<Longrightarrow> same_ids w (set_fiber w p g)"
  by (auto simp: same_ids_def ids_def)

lemma same_ids_from_SetThis [simp]: "same_ids (SetThis w t x) w' = same_ids w w'"
  by (simp add: same_ids_def ids_def)

lemma same_ids_from_set_fiber [simp]:
  "fheap w p = Some f \<Longrightarrow> f_id g = f_id f \<Longrightarrow> same_ids (set_fiber w p g) w' = same_ids w w'"
  using same_ids_set_fiber [of w p f g] by (auto simp: same_ids_def)

lemma same_ids_swapcontext:
  "swapcontext w from to k = Inr (c, w') \<Longrightarrow> same_ids w w'"
  by (auto simp: swapcontext_def Let_def intro: same_ids_set_fiber split: option.splits)

lemma same_ids_swapIn: "swapIn w t p k = Inr (c, w') \<Longrightarrow> same_ids w w'"
  by (auto simp: swapIn_def Let_def dest!: same_ids_swapcontext split: option.splits if_splits)

lemma same_ids_swapOut: "swapOut w t p k = Inr (c, w') \<Longrightarrow> same_ids w w'"
  by (auto simp: swapOut_def Let_def dest!: same_ids_swapcontext split: option.splits)

lemma same_ids_finish: "MainFunc_finish w t p out k = Inr (c, w') \<Longrightarrow> same_ids w w'"
  by (auto simp: MainFunc_finish_def Let_def dest!: same_ids_swapOut split: option.splits if_splits)

lemma same_ids_reset: "reset_fiber w p cb = Inr w' \<Longrightarrow> same_ids w w'"
  by (auto simp: reset_fiber_def intro: same_ids_set_fiber split: option.splits if_splits)

lemma fib_inv_create:
  assumes "fib_inv w" and "p \<notin> dom (fheap w)"
    and "ids w' = (ids w)(p \<mapsto> i)" and "s_fiber_count w' = s_fiber_count w + 1"
    and "s_fiber_id w \<le> s_fiber_id w'" and "i \<le> s_fiber_id w'" and "i = 0 \<or> s_fiber_id w < i"
  shows "fib_inv w'"
proof -
  have "p \<notin> dom (ids w)" and "finite (dom (ids w))"
    using assms(1,2) by (auto simp: fib_inv_def)
  then have "card (dom (ids w')) = Suc (card (dom (ids w)))"
    by (simp add: assms(3) del: dom_ids)
  then show ?thesis
    using assms unfolding fib_inv_def by (fastforce simp del: dom_ids split: if_splits)
qed

lemma fib_inv_GetThis:
  assumes "fib_inv w" and "p \<notin> dom (fheap w)" and "GetThis w t p k = (q, w')"
  shows "fib_inv w'"
proof (cases "t_fiber (locals w t)")
  case (Some f)
  with assms show ?thesis by (simp add: GetThis_def)
next
  case None
  with assms(3) have "ids w' = (ids w)(p \<mapsto> 0)" "s_fiber_count w' = s_fiber_count w + 1"
    "s_fiber_id w' = s_fiber_id w"
    by (auto simp: GetThis_def new_main_fiber_def Let_def ids_def fun_eq_iff)
  with assms(1,2) show ?thesis by (intro fib_inv_create [of w p w' 0]) simp_all
qed

lemma fib_inv_new_fiber:
  assumes "fib_inv w" and "p \<notin> dom (fheap w)" and "s_fiber_id w \<noteq> NOT 0"
  shows "fib_inv (new_fiber w p cb main)"
proof -
  have "s_fiber_id w < s_fiber_id w + 1"
    using assms(3) by (rule u64_less_plus_one)
  then have less: "s_fiber_id w \<le> s_fiber_id w + 1" and fresh: "s_fiber_id w + 1 = 0 \<or> s_fiber_id w < s_fiber_id w + 1"
    by simp_all
  have new: "ids (new_fiber w p cb main) = (ids w)(p \<mapsto> s_fiber_id w + 1)"
    "s_fiber_count (new_fiber w p cb main) = s_fiber_count w + 1"
    "s_fiber_id (new_fiber w p cb main) = s_fiber_id w + 1"
    by (simp_all add: new_fiber_def Let_def ids_def fun_eq_iff set_fiber_def)
  show ?thesis
    by (rule fib_inv_create [OF assms(1,2) new(1,2)]) (simp_all only: new(3) less fresh order.refl)
qed

lemma fib_inv_destroy:
  assumes "fib_inv w" and "destroy_fiber w t p = Inr w'"
  shows "fib_inv w'"
proof -
  have p: "p \<in> dom (ids w)" and ids: "ids w' = (ids w)(p := None)"
    and cnt: "s_fiber_count w' = s_fiber_count w - 1" and sid: "s_fiber_id w' = s_fiber_id w"
    using assms(2)
    by (auto simp: destroy_fiber_def Let_def ids_def fun_eq_iff split: option.splits if_splits)
  have "card (dom (ids w)) \<noteq> 0"
    using p assms(1) by (auto simp: fib_inv_def)
  then have "of_nat (card (dom (ids w'))) = (of_nat (card (dom (ids w))) :: u64) - 1"
    using p by (simp add: ids of_nat_diff del: dom_ids)
  then show ?thesis
    using assms(1) unfolding fib_inv_def cnt sid by (auto simp: ids simp del: dom_ids split: if_splits)
qed

inductive fib_step :: "fibers \<Rightarrow> fibers \<Rightarrow> bool" where
  new: "p \<notin> dom (fheap w) \<Longrightarrow> s_fiber_id w \<noteq> NOT 0 \<Longrightarrow> fib_step w (new_fiber w p cb main)"
| get_this: "p \<notin> dom (fheap w) \<Longrightarrow> GetThis w t p k = (q, w') \<Longrightarrow> fib_step w w'"
| destroy: "destroy_fiber w t p = Inr w' \<Longrightarrow> fib_step w w'"
| reset: "reset_fiber w p cb = Inr w' \<Longrightarrow> fib_step w w'"
| swap_in: "swapIn w t p k = Inr (c, w') \<Longrightarrow> fib_step w w'"
| swap_out: "swapOut w t p k = Inr (c, w') \<Longrightarrow> fib_step w w'"
| yield_mark: "p \<notin> dom (fheap w) \<Longrightarrow> yield_mark st w t p k = Inr (cur, w') \<Longrightarrow> fib_step w w'"
| body: "p \<notin> dom (fheap w) \<Longrightarrow> MainFunc_body w t p k = Inr (cb, w') \<Longrightarrow> fib_step w w'"
| finish: "MainFunc_finish w t p out k = Inr (c, w') \<Longrightarrow> fib_step w w'"

lemma fib_step_inv: "fib_step w w' \<Longrightarrow> fib_inv w \<Longrightarrow> fib_inv w'"
proof (induction rule: fib_step.induct)
  case (yield_mark p w st t k cur w')
  then obtain w1 f where "GetThis w t p k = (cur, w1)" and "fheap w1 cur = Some f"
    and "w' = set_fiber w1 cur (f\<lparr>f_state := st\<rparr>)"
    by (auto simp: yield_mark_def split: prod.splits option.splits if_splits)
  then show ?case
    using yield_mark fib_inv_GetThis same_ids_inv same_ids_set_fiber
    by (metis fiber.select_convs(1) fiber.surjective fiber.update_convs(2))
next
  case (body p w t k cb w')
  then show ?case
    using fib_inv_GetThis by (auto simp: MainFunc_body_def split: prod.splits option.splits)
qed (blast intro: fib_inv_new_fiber fib_inv_GetThis fib_inv_destroy same_ids_inv same_ids_reset
      same_ids_swapIn same_ids_swapOut same_ids_finish)+

lemma initial_fibers_inv: "fib_inv initial_fibers"
  by (simp add: fib_inv_def initial_fibers_def ids_def)

interpretation fib: transition_inv "\<lambda>w. w = initial_fibers" fib_step fib_inv
  by unfold_locales (blast intro: initial_fibers_inv fib_step_inv)+


lemma ex_fibers_reachable: "fib_step\<^sup>*\<^sup>* initial_fibers ex_fibers"
proof -
  have "fib_step initial_fibers (snd (GetThis initial_fibers 0 1 0))"
    by (rule fib_step.get_this [where p = 1 and q = 1 and t = 0 and k = 0])
       (simp_all add: initial_fibers_def GetThis_def no_locals_def Let_def)
  moreover have "fib_step (snd (GetThis initial_fibers 0 1 0)) ex_fibers"
    unfolding ex_fibers_def
    by (rule fib_step.new) (simp_all add: initial_fibers_def no_locals_def new_main_fiber_def fiber_defs)
  ultimately show ?thesis
    by (blast intro: converse_rtranclp_into_rtranclp)
qed


subsection \<open>The window of a yielding fiber\<close>

text \<open>
  \<open>YieldToHold\<close> marks the fiber before its context is saved. A second thread that swaps it in
  between the two halves passes the assertion \<open>m_state != EXEC\<close> and continues at the context saved
  before the current run: the code since then is executed a second time, on a stack that is in use.
\<close>

lemma yield_window:
  assumes "t_fiber (locals w t) = Some p" and "fheap w p = Some f" and "f_state f = EXEC"
    and "st \<noteq> EXEC" and "swap_base w t' f = Some m" and "m \<noteq> p" and "fheap w m = Some mf"
  shows "\<exists>w1 w2. yield_mark st w t q k = Inr (p, w1) \<and> swapIn w1 t' p k' = Inr (f_ctx f, w2)"
proof -
  let ?w1 = "set_fiber w p (f\<lparr>f_state := st\<rparr>)"
  have "swap_base ?w1 t' (f\<lparr>f_state := st\<rparr>) = swap_base w t' f"
    by (simp add: swap_base_def)
  then have "\<exists>w2. swapIn ?w1 t' p k' = Inr (f_ctx f, w2)"
    using swapIn_ok [of ?w1 p "f\<lparr>f_state := st\<rparr>" t' m mf k'] assms by simp
  then show ?thesis
    using yield_running [OF assms(1-3)] by blast
qed

end
