(* ===== verification/Schedulers.thy ===== *)
theory Schedulers
  imports Fibers
begin

text \<open>
  \<open>wille/scheduler.h\<close> and \<open>wille/scheduler.cpp\<close>: the task queue, its entry points, start and
  stop, and the loop \<open>run\<close> that every worker thread executes.

  The operations under the scheduler's mutex are functions on the record of its state; a boolean
  result says whether the code calls the virtual \<open>tickle()\<close>. \<open>run\<close> is a step relation on the
  shared state and a program counter per worker, with one rule per stretch of code between two
  points where other threads can act.
\<close>

subsection \<open>Tasks and the queue\<close>

record task =
  task_fiber :: "ptr option"
  task_cb :: "callback option"
  task_thread :: int

text \<open>
  What \<open>schedule\<close> is called with: a fiber or a callback, by value or by pointer. The constructors of
  \<open>Task\<close> that take a pointer swap the value out of the caller's variable.
\<close>

datatype fiber_or_cb =
    ByFiber "ptr option"
  | ByFiberPtr "ptr option"
  | ByCb "callback option"
  | ByCbPtr "callback option"

fun new_task :: "fiber_or_cb \<Rightarrow> int \<Rightarrow> task \<times> fiber_or_cb" where
  "new_task (ByFiber f) thr = (\<lparr>task_fiber = f, task_cb = None, task_thread = thr\<rparr>, ByFiber f)"
| "new_task (ByFiberPtr f) thr = (\<lparr>task_fiber = f, task_cb = None, task_thread = thr\<rparr>, ByFiberPtr None)"
| "new_task (ByCb c) thr = (\<lparr>task_fiber = None, task_cb = c, task_thread = thr\<rparr>, ByCb c)"
| "new_task (ByCbPtr c) thr = (\<lparr>task_fiber = None, task_cb = c, task_thread = thr\<rparr>, ByCbPtr None)"

definition empty_task :: task where
  "empty_task = \<lparr>task_fiber = None, task_cb = None, task_thread = -1\<rparr>"

definition task_nonnull :: "task \<Rightarrow> bool" where
  "task_nonnull tk \<longleftrightarrow> task_fiber tk \<noteq> None \<or> task_cb tk \<noteq> None"

record scheduler =
  m_threads :: "nat list"
  m_tasks :: "task list"
  m_rootFiber :: "ptr option"
  m_name :: string
  m_threadIds :: "int list"
  m_threadCount :: u64
  m_activeThreadCount :: u64
  m_idleThreadCount :: u64
  m_stopping :: bool
  m_autoStop :: bool
  m_rootThread :: int

definition scheduleNoLock :: "scheduler \<Rightarrow> fiber_or_cb \<Rightarrow> int \<Rightarrow> bool \<times> scheduler \<times> fiber_or_cb" where
  "scheduleNoLock s fc thread =
     (let need_tickle = (m_tasks s = []);
          (ft, fc') = new_task fc thread
      in (need_tickle,
          (if task_fiber ft \<noteq> None \<or> task_cb ft \<noteq> None then s\<lparr>m_tasks := m_tasks s @ [ft]\<rparr> else s),
          fc'))"

definition schedule :: "scheduler \<Rightarrow> fiber_or_cb \<Rightarrow> int \<Rightarrow> bool \<times> scheduler \<times> fiber_or_cb" where
  "schedule s fc thread =
     (let (need_tickle, s', fc') = scheduleNoLock s fc thread in (need_tickle, s', fc'))"

fun schedule_loop ::
  "scheduler \<Rightarrow> fiber_or_cb list \<Rightarrow> bool \<Rightarrow> bool \<times> scheduler \<times> fiber_or_cb list" where
  "schedule_loop s [] need_tickle = (need_tickle, s, [])"
| "schedule_loop s (it # its) need_tickle =
     (let (n, s1, it') = scheduleNoLock s it (-1);
          (need_tickle', s2, its') = schedule_loop s1 its (n \<or> need_tickle)
      in (need_tickle', s2, it' # its'))"

definition schedule_range ::
  "scheduler \<Rightarrow> fiber_or_cb list \<Rightarrow> bool \<times> scheduler \<times> fiber_or_cb list" where
  "schedule_range s its = schedule_loop s its False"

definition hasIdleThreads :: "scheduler \<Rightarrow> bool" where
  "hasIdleThreads s = (m_idleThreadCount s > 0)"

definition stopping :: "scheduler \<Rightarrow> bool" where
  "stopping s =
     (m_autoStop s \<and> m_stopping s \<and> m_tasks s = [] \<and> m_activeThreadCount s = 0)"

subsection \<open>Construction, start and stop\<close>

datatype sched_error = SchedAssert \<comment> \<open>a failed \<open>WILLE_ASSERT\<close>\<close>

text \<open>
  \<open>t_scheduler\<close> is thread-local (one entry per thread number); \<open>tid\<close> is the operating system's
  identifier of the calling thread, \<open>t\<close> its number. The two fibers the constructor may allocate get
  the addresses \<open>p\<close> and \<open>q\<close>.
\<close>

definition Scheduler_ctor ::
  "ptr \<Rightarrow> u64 \<Rightarrow> bool \<Rightarrow> string \<Rightarrow> nat \<Rightarrow> int \<Rightarrow> (nat \<Rightarrow> ptr option) \<Rightarrow> fibers \<Rightarrow> ptr \<Rightarrow> ptr \<Rightarrow> nat \<Rightarrow>
     sched_error + scheduler \<times> (nat \<Rightarrow> ptr option) \<times> fibers" where
  "Scheduler_ctor this threads use_caller name t tid t_scheduler w p q k =
     (let s = \<lparr>m_threads = [], m_tasks = [], m_rootFiber = None, m_name = name, m_threadIds = [],
               m_threadCount = 0, m_activeThreadCount = 0, m_idleThreadCount = 0,
               m_stopping = True, m_autoStop = False, m_rootThread = 0\<rparr>
      in if \<not> threads > 0 then Inl SchedAssert
         else if use_caller
         then (let w1 = snd (GetThis w t p k)
               in if t_scheduler t \<noteq> None then Inl SchedAssert
                  else let w2 = new_fiber w1 q (Some (BoundRun this)) True
                       in Inr (s\<lparr>m_rootFiber := Some q, m_rootThread := tid, m_threadIds := [tid],
                                m_threadCount := threads - 1\<rparr>,
                               t_scheduler(t := Some this),
                               w2\<lparr>locals := (locals w2)(t := (locals w2 t)\<lparr>t_mainFiber := Some q\<rparr>)\<rparr>))
         else Inr (s\<lparr>m_rootThread := -1, m_threadCount := threads\<rparr>, t_scheduler, w))"

definition Scheduler_dtor ::
  "scheduler \<Rightarrow> ptr \<Rightarrow> nat \<Rightarrow> (nat \<Rightarrow> ptr option) \<Rightarrow> sched_error + (nat \<Rightarrow> ptr option)" where
  "Scheduler_dtor s this t t_scheduler =
     (if \<not> m_stopping s then Inl SchedAssert
      else Inr (if t_scheduler t = Some this then t_scheduler(t := None) else t_scheduler))"

text \<open>
  \<open>start\<close>: the threads are created in order; \<open>new_tids i\<close> is the identifier of the \<open>i\<close>-th one. The
  result lists the names the threads were created with.
\<close>

definition start :: "scheduler \<Rightarrow> (nat \<Rightarrow> int) \<Rightarrow> sched_error + scheduler \<times> string list" where
  "start s new_tids =
     (if \<not> m_stopping s then Inr (s, [])
      else let s1 = s\<lparr>m_stopping := False\<rparr>
           in if m_threads s1 \<noteq> [] then Inl SchedAssert
              else let n = unat (m_threadCount s1)
                   in Inr (s1\<lparr>m_threads := [0..<n], m_threadIds := m_threadIds s1 @ map new_tids [0..<n]\<rparr>,
                           map (\<lambda>i. m_name s1 @ ''_'' @ show_nat i) [0..<n]))"

text \<open>
  \<open>stop\<close> up to the point where the caller swaps in the root fiber or joins the threads: the virtual
  \<open>stopping()\<close> is an argument, \<open>root_state\<close> is the state of the root fiber, and the result says
  whether the function returned early, how often \<open>tickle()\<close> was called and whether the root fiber
  is swapped in. \<open>stop_join\<close> is the rest, with the threads that are joined.
\<close>

datatype stop_result = StopReturned | StopGoesOn nat bool

definition stop_enter ::
  "(scheduler \<Rightarrow> bool) \<Rightarrow> scheduler \<Rightarrow> fstate \<Rightarrow> ptr \<Rightarrow> ptr option \<Rightarrow>
     sched_error + stop_result \<times> scheduler" where
  "stop_enter vstopping s root_state this current =
     (let s1 = s\<lparr>m_autoStop := True\<rparr>;
          root_done = (m_rootFiber s1 \<noteq> None \<and> m_threadCount s1 = 0 \<and>
                       (root_state = FTERM \<or> root_state = INIT));
          s2 = (if root_done then s1\<lparr>m_stopping := True\<rparr> else s1)
      in if root_done \<and> vstopping s2 then Inr (StopReturned, s2)
         else if m_rootThread s2 \<noteq> -1 \<and> current \<noteq> Some this then Inl SchedAssert
         else if m_rootThread s2 = -1 \<and> current = Some this then Inl SchedAssert
         else let s3 = s2\<lparr>m_stopping := True\<rparr>
              in Inr (StopGoesOn (unat (m_threadCount s3) + (if m_rootFiber s3 \<noteq> None then 1 else 0))
                        (m_rootFiber s3 \<noteq> None \<and> \<not> vstopping s3), s3))"

definition stop_join :: "scheduler \<Rightarrow> nat list \<times> scheduler" where
  "stop_join s = (m_threads s, s\<lparr>m_threads := []\<rparr>)"

subsection \<open>Picking a task\<close>

text \<open>
  The locked part of \<open>run\<close>: the first task that may run on this thread and whose fiber, if it has
  one, is not executing; it is taken out of the queue. The assertion is on the task looked at.
\<close>

fun pick_task ::
  "(ptr \<rightharpoonup> fstate) \<Rightarrow> int \<Rightarrow> task list \<Rightarrow> sched_error + (task \<times> task list) option" where
  "pick_task st tid [] = Inr None"
| "pick_task st tid (it # its) =
     (let skip = (case pick_task st tid its of
                    Inl e \<Rightarrow> Inl e
                  | Inr None \<Rightarrow> Inr None
                  | Inr (Some (tk, rest)) \<Rightarrow> Inr (Some (tk, it # rest)))
      in if task_thread it \<noteq> -1 \<and> task_thread it \<noteq> tid then skip
         else if \<not> (task_fiber it \<noteq> None \<or> task_cb it \<noteq> None) then Inl SchedAssert
         else if (case task_fiber it of Some f \<Rightarrow> st f = Some EXEC | None \<Rightarrow> False) then skip
         else Inr (Some (it, its)))"

definition runnable :: "(ptr \<rightharpoonup> fstate) \<Rightarrow> int \<Rightarrow> task \<Rightarrow> bool" where
  "runnable st tid tk \<longleftrightarrow>
     (task_thread tk = -1 \<or> task_thread tk = tid) \<and>
     (\<forall>f. task_fiber tk = Some f \<longrightarrow> st f \<noteq> Some EXEC)"

end
