(* ===== verification/Scheduler_Run.thy ===== *)
theory Scheduler_Run
  imports Schedulers
begin

text \<open>
  \<open>Scheduler::run\<close> and \<open>Scheduler::idle\<close> on any number of worker threads at once. A worker is its
  thread identifier, its program counter in \<open>run\<close>, its \<open>cb_fiber\<close> and the state of its
  \<open>idle_fiber\<close>. Each rule of \<open>sched_step\<close> is one stretch of the loop: the locked search for a task,
  the increment of the counter, the dispatch up to the point inside \<open>swapIn\<close> where the fiber runs,
  the fiber giving control back, the decrement, and what is done with the fiber afterwards. The
  rules \<open>env_*\<close> are other threads: submitting work, making fibers, and the assignments of
  \<open>stop\<close>. The label of a step says what happens to a task.
\<close>

datatype pc =
    Top
  | Picked task
  | NothingFound
  | Counted task
  | InFiber ptr
  | FiberBack ptr
  | FiberPost ptr
  | InCb ptr
  | CbBack ptr
  | CbPost ptr
  | InIdle
  | IdleBack
  | Exited

record worker =
  w_tid :: int
  w_pc :: pc
  w_cbFiber :: "ptr option"
  w_idle :: fstate

record sys =
  sch :: scheduler
  fstates :: "ptr \<rightharpoonup> fstate"
  workers :: "worker list"
  aborted :: bool

datatype label = Tau | Submit task | Started task | Dropped task

definition upd :: "sys \<Rightarrow> nat \<Rightarrow> worker \<Rightarrow> sys" where
  "upd s i w = s\<lparr>workers := (workers s)[i := w]\<rparr>"

definition live_worker :: "sys \<Rightarrow> nat \<Rightarrow> worker \<Rightarrow> bool" where
  "live_worker s i w \<longleftrightarrow> i < length (workers s) \<and> workers s ! i = w \<and> \<not> aborted s"

definition fiber_task :: "ptr \<Rightarrow> task" where
  "fiber_task f = \<lparr>task_fiber = Some f, task_cb = None, task_thread = -1\<rparr>"

definition swappable :: "(ptr \<rightharpoonup> fstate) \<Rightarrow> task \<Rightarrow> ptr \<Rightarrow> bool" where
  "swappable st tk f \<longleftrightarrow>
     task_fiber tk = Some f \<and> st f \<noteq> None \<and> \<not> stateTermOrExcept (the (st f))"

inductive sched_step :: "sys \<Rightarrow> label \<Rightarrow> sys \<Rightarrow> bool" where
  pick: "live_worker s i w \<Longrightarrow> w_pc w = Top \<Longrightarrow>
    pick_task (fstates s) (w_tid w) (m_tasks (sch s)) = Inr (Some (tk, rest)) \<Longrightarrow>
    sched_step s Tau ((upd s i (w\<lparr>w_pc := Picked tk\<rparr>))\<lparr>sch := (sch s)\<lparr>m_tasks := rest\<rparr>\<rparr>)"
| pick_nothing: "live_worker s i w \<Longrightarrow> w_pc w = Top \<Longrightarrow>
    pick_task (fstates s) (w_tid w) (m_tasks (sch s)) = Inr None \<Longrightarrow>
    sched_step s Tau (upd s i (w\<lparr>w_pc := NothingFound\<rparr>))"
| pick_abort: "live_worker s i w \<Longrightarrow> w_pc w = Top \<Longrightarrow>
    pick_task (fstates s) (w_tid w) (m_tasks (sch s)) = Inl e \<Longrightarrow>
    sched_step s Tau (s\<lparr>aborted := True\<rparr>)"
| count: "live_worker s i w \<Longrightarrow> w_pc w = Picked tk \<Longrightarrow>
    sched_step s Tau ((upd s i (w\<lparr>w_pc := Counted tk\<rparr>))
      \<lparr>sch := (sch s)\<lparr>m_activeThreadCount := m_activeThreadCount (sch s) + 1\<rparr>\<rparr>)"
| run_fiber: "live_worker s i w \<Longrightarrow> w_pc w = Counted tk \<Longrightarrow> swappable (fstates s) tk f \<Longrightarrow>
    fstates s f \<noteq> Some EXEC \<Longrightarrow>
    sched_step s (Started tk) ((upd s i (w\<lparr>w_pc := InFiber f\<rparr>))\<lparr>fstates := (fstates s)(f \<mapsto> EXEC)\<rparr>)"
| run_fiber_abort: "live_worker s i w \<Longrightarrow> w_pc w = Counted tk \<Longrightarrow> swappable (fstates s) tk f \<Longrightarrow>
    fstates s f = Some EXEC \<Longrightarrow> sched_step s Tau (s\<lparr>aborted := True\<rparr>)"
| run_cb: "live_worker s i w \<Longrightarrow> w_pc w = Counted tk \<Longrightarrow> \<nexists>f. swappable (fstates s) tk f \<Longrightarrow>
    task_cb tk \<noteq> None \<Longrightarrow>
    (case w_cbFiber w of
       Some g \<Rightarrow> f = g \<and> fstates s g \<in> {Some FTERM, Some EXCEPT, Some INIT}
     | None \<Rightarrow> f \<notin> dom (fstates s)) \<Longrightarrow>
    sched_step s (Started tk)
      ((upd s i (w\<lparr>w_pc := InCb f, w_cbFiber := Some f\<rparr>))\<lparr>fstates := (fstates s)(f \<mapsto> EXEC)\<rparr>)"
| run_cb_abort: "live_worker s i w \<Longrightarrow> w_pc w = Counted tk \<Longrightarrow> \<nexists>f. swappable (fstates s) tk f \<Longrightarrow>
    task_cb tk \<noteq> None \<Longrightarrow> w_cbFiber w = Some g \<Longrightarrow>
    fstates s g \<notin> {Some FTERM, Some EXCEPT, Some INIT} \<Longrightarrow>
    sched_step s Tau (s\<lparr>aborted := True\<rparr>)"
| drop: "live_worker s i w \<Longrightarrow> w_pc w = Counted tk \<Longrightarrow> \<nexists>f. swappable (fstates s) tk f \<Longrightarrow>
    task_cb tk = None \<Longrightarrow>
    sched_step s (Dropped tk) ((upd s i (w\<lparr>w_pc := Top\<rparr>))
      \<lparr>sch := (sch s)\<lparr>m_activeThreadCount := m_activeThreadCount (sch s) - 1\<rparr>\<rparr>)"
| fiber_back: "live_worker s i w \<Longrightarrow> w_pc w = InFiber f \<Longrightarrow> st \<noteq> INIT \<Longrightarrow>
    sched_step s Tau ((upd s i (w\<lparr>w_pc := FiberBack f\<rparr>))\<lparr>fstates := (fstates s)(f \<mapsto> st)\<rparr>)"
| fiber_uncount: "live_worker s i w \<Longrightarrow> w_pc w = FiberBack f \<Longrightarrow>
    sched_step s Tau ((upd s i (w\<lparr>w_pc := FiberPost f\<rparr>))
      \<lparr>sch := (sch s)\<lparr>m_activeThreadCount := m_activeThreadCount (sch s) - 1\<rparr>\<rparr>)"
| fiber_ready: "live_worker s i w \<Longrightarrow> w_pc w = FiberPost f \<Longrightarrow> fstates s f = Some READY \<Longrightarrow>
    sched_step s (Submit (fiber_task f)) ((upd s i (w\<lparr>w_pc := Top\<rparr>))
      \<lparr>sch := fst (snd (schedule (sch s) (ByFiber (Some f)) (-1)))\<rparr>)"
| fiber_done: "live_worker s i w \<Longrightarrow> w_pc w = FiberPost f \<Longrightarrow>
    fstates s f \<in> {Some FTERM, Some EXCEPT} \<Longrightarrow> sched_step s Tau (upd s i (w\<lparr>w_pc := Top\<rparr>))"
| fiber_hold: "live_worker s i w \<Longrightarrow> w_pc w = FiberPost f \<Longrightarrow>
    fstates s f \<notin> {Some READY, Some FTERM, Some EXCEPT} \<Longrightarrow>
    sched_step s Tau ((upd s i (w\<lparr>w_pc := Top\<rparr>))\<lparr>fstates := (fstates s)(f \<mapsto> HOLD)\<rparr>)"
| cb_back: "live_worker s i w \<Longrightarrow> w_pc w = InCb f \<Longrightarrow> st \<noteq> INIT \<Longrightarrow>
    sched_step s Tau ((upd s i (w\<lparr>w_pc := CbBack f\<rparr>))\<lparr>fstates := (fstates s)(f \<mapsto> st)\<rparr>)"
| cb_uncount: "live_worker s i w \<Longrightarrow> w_pc w = CbBack f \<Longrightarrow>
    sched_step s Tau ((upd s i (w\<lparr>w_pc := CbPost f\<rparr>))
      \<lparr>sch := (sch s)\<lparr>m_activeThreadCount := m_activeThreadCount (sch s) - 1\<rparr>\<rparr>)"
| cb_ready: "live_worker s i w \<Longrightarrow> w_pc w = CbPost f \<Longrightarrow> fstates s f = Some READY \<Longrightarrow>
    sched_step s (Submit (fiber_task f)) ((upd s i (w\<lparr>w_pc := Top, w_cbFiber := None\<rparr>))
      \<lparr>sch := fst (snd (schedule (sch s) (ByFiber (Some f)) (-1)))\<rparr>)"
| cb_done: "live_worker s i w \<Longrightarrow> w_pc w = CbPost f \<Longrightarrow>
    fstates s f \<in> {Some FTERM, Some EXCEPT} \<Longrightarrow>
    sched_step s Tau ((upd s i (w\<lparr>w_pc := Top\<rparr>))\<lparr>fstates := (fstates s)(f \<mapsto> INIT)\<rparr>)"
| cb_hold: "live_worker s i w \<Longrightarrow> w_pc w = CbPost f \<Longrightarrow>
    fstates s f \<notin> {Some READY, Some FTERM, Some EXCEPT} \<Longrightarrow>
    sched_step s Tau ((upd s i (w\<lparr>w_pc := Top, w_cbFiber := None\<rparr>))
      \<lparr>fstates := (fstates s)(f \<mapsto> HOLD)\<rparr>)"
| idle_break: "live_worker s i w \<Longrightarrow> w_pc w = NothingFound \<Longrightarrow> w_idle w = FTERM \<Longrightarrow>
    sched_step s Tau (upd s i (w\<lparr>w_pc := Exited\<rparr>))"
| idle_enter: "live_worker s i w \<Longrightarrow> w_pc w = NothingFound \<Longrightarrow> w_idle w \<noteq> FTERM \<Longrightarrow>
    sched_step s Tau ((upd s i (w\<lparr>w_pc := InIdle, w_idle := EXEC\<rparr>))
      \<lparr>sch := (sch s)\<lparr>m_idleThreadCount := m_idleThreadCount (sch s) + 1\<rparr>\<rparr>)"
| idle_body: "live_worker s i w \<Longrightarrow> w_pc w = InIdle \<Longrightarrow>
    sched_step s Tau (upd s i (w\<lparr>w_pc := IdleBack, w_idle := (if stopping (sch s) then FTERM else HOLD)\<rparr>))"
| idle_leave: "live_worker s i w \<Longrightarrow> w_pc w = IdleBack \<Longrightarrow>
    sched_step s Tau ((upd s i (w\<lparr>w_pc := Top,
        w_idle := (if stateTermOrExcept (w_idle w) then w_idle w else HOLD)\<rparr>))
      \<lparr>sch := (sch s)\<lparr>m_idleThreadCount := m_idleThreadCount (sch s) - 1\<rparr>\<rparr>)"
| env_submit: "\<not> aborted s \<Longrightarrow> fst (new_task fc thr) = tk \<Longrightarrow> task_nonnull tk \<Longrightarrow>
    (\<forall>f. task_fiber tk = Some f \<longrightarrow> f \<in> dom (fstates s)) \<Longrightarrow>
    sched_step s (Submit tk) (s\<lparr>sch := fst (snd (schedule (sch s) fc thr))\<rparr>)"
| env_fiber: "\<not> aborted s \<Longrightarrow> f \<notin> dom (fstates s) \<Longrightarrow>
    sched_step s Tau (s\<lparr>fstates := (fstates s)(f \<mapsto> INIT)\<rparr>)"
| env_autostop: "\<not> aborted s \<Longrightarrow> sched_step s Tau (s\<lparr>sch := (sch s)\<lparr>m_autoStop := True\<rparr>\<rparr>)"
| env_stopping: "\<not> aborted s \<Longrightarrow> sched_step s Tau (s\<lparr>sch := (sch s)\<lparr>m_stopping := True\<rparr>\<rparr>)"

inductive sched_steps :: "sys \<Rightarrow> label list \<Rightarrow> sys \<Rightarrow> bool" where
  refl: "sched_steps s [] s"
| step: "sched_steps s ls t \<Longrightarrow> sched_step t l u \<Longrightarrow> sched_steps s (ls @ [l]) u"

definition initial_sys :: "sys \<Rightarrow> bool" where
  "initial_sys s \<longleftrightarrow>
     m_tasks (sch s) = [] \<and> m_activeThreadCount (sch s) = 0 \<and> m_idleThreadCount (sch s) = 0 \<and>
     \<not> m_autoStop (sch s) \<and> \<not> m_stopping (sch s) \<and> \<not> aborted s \<and> length (workers s) < 2 ^ 64 \<and>
     (\<forall>w \<in> set (workers s). w_pc w = Top \<and> w_cbFiber w = None \<and> w_idle w = INIT)"

end
