(* ===== verification/Scheduler_Exec.thy ===== *)
theory Scheduler_Exec
  imports Scheduler_Run
begin

text \<open>
  An executable form of the step relation of the scheduler. An action names the thread that moves
  and what the code does not determine: the state with which a fiber gives control back and the
  address of a new callback fiber. \<open>sched_step_iff_exec\<close> shows that the two forms agree, so that
  concrete interleavings can be evaluated.
\<close>

datatype action =
    Work nat fstate ptr
  | DoSubmit fiber_or_cb int
  | NewFiber ptr
  | SetAutoStop
  | SetStopping

definition uncount :: "sys \<Rightarrow> sys" where
  "uncount s = s\<lparr>sch := (sch s)\<lparr>m_activeThreadCount := m_activeThreadCount (sch s) - 1\<rparr>\<rparr>"

definition exec_cb :: "sys \<Rightarrow> nat \<Rightarrow> worker \<Rightarrow> task \<Rightarrow> ptr \<Rightarrow> (label \<times> sys) option" where
  "exec_cb s i w tk p =
     (if task_cb tk = None then Some (Dropped tk, uncount (upd s i (w\<lparr>w_pc := Top\<rparr>)))
      else case w_cbFiber w of
        Some g \<Rightarrow>
          if fstates s g \<in> {Some FTERM, Some EXCEPT, Some INIT}
          then Some (Started tk, (upd s i (w\<lparr>w_pc := InCb g, w_cbFiber := Some g\<rparr>))
                 \<lparr>fstates := (fstates s)(g \<mapsto> EXEC)\<rparr>)
          else Some (Tau, s\<lparr>aborted := True\<rparr>)
      | None \<Rightarrow>
          if fstates s p = None
          then Some (Started tk, (upd s i (w\<lparr>w_pc := InCb p, w_cbFiber := Some p\<rparr>))
                 \<lparr>fstates := (fstates s)(p \<mapsto> EXEC)\<rparr>)
          else None)"

definition exec_dispatch :: "sys \<Rightarrow> nat \<Rightarrow> worker \<Rightarrow> task \<Rightarrow> ptr \<Rightarrow> (label \<times> sys) option" where
  "exec_dispatch s i w tk p =
     (case task_fiber tk of
        Some f \<Rightarrow>
          if swappable (fstates s) tk f
          then (if fstates s f = Some EXEC then Some (Tau, s\<lparr>aborted := True\<rparr>)
                else Some (Started tk,
                  (upd s i (w\<lparr>w_pc := InFiber f\<rparr>))\<lparr>fstates := (fstates s)(f \<mapsto> EXEC)\<rparr>))
          else exec_cb s i w tk p
      | None \<Rightarrow> exec_cb s i w tk p)"

fun exec_worker :: "sys \<Rightarrow> nat \<Rightarrow> worker \<Rightarrow> fstate \<Rightarrow> ptr \<Rightarrow> pc \<Rightarrow> (label \<times> sys) option" where
  "exec_worker s i w st p Top =
     (case pick_task (fstates s) (w_tid w) (m_tasks (sch s)) of
        Inl e \<Rightarrow> Some (Tau, s\<lparr>aborted := True\<rparr>)
      | Inr None \<Rightarrow> Some (Tau, upd s i (w\<lparr>w_pc := NothingFound\<rparr>))
      | Inr (Some (tk, rest)) \<Rightarrow>
          Some (Tau, (upd s i (w\<lparr>w_pc := Picked tk\<rparr>))\<lparr>sch := (sch s)\<lparr>m_tasks := rest\<rparr>\<rparr>))"
| "exec_worker s i w st p (Picked tk) =
     Some (Tau, (upd s i (w\<lparr>w_pc := Counted tk\<rparr>))
       \<lparr>sch := (sch s)\<lparr>m_activeThreadCount := m_activeThreadCount (sch s) + 1\<rparr>\<rparr>)"
| "exec_worker s i w st p (Counted tk) = exec_dispatch s i w tk p"
| "exec_worker s i w st p (InFiber f) =
     (if st = INIT then None
      else Some (Tau, (upd s i (w\<lparr>w_pc := FiberBack f\<rparr>))\<lparr>fstates := (fstates s)(f \<mapsto> st)\<rparr>))"
| "exec_worker s i w st p (FiberBack f) = Some (Tau, uncount (upd s i (w\<lparr>w_pc := FiberPost f\<rparr>)))"
| "exec_worker s i w st p (FiberPost f) =
     (if fstates s f = Some READY
      then Some (Submit (fiber_task f), (upd s i (w\<lparr>w_pc := Top\<rparr>))
             \<lparr>sch := fst (snd (schedule (sch s) (ByFiber (Some f)) (-1)))\<rparr>)
      else if fstates s f \<in> {Some FTERM, Some EXCEPT} then Some (Tau, upd s i (w\<lparr>w_pc := Top\<rparr>))
      else Some (Tau, (upd s i (w\<lparr>w_pc := Top\<rparr>))\<lparr>fstates := (fstates s)(f \<mapsto> HOLD)\<rparr>))"
| "exec_worker s i w st p (InCb f) =
     (if st = INIT then None
      else Some (Tau, (upd s i (w\<lparr>w_pc := CbBack f\<rparr>))\<lparr>fstates := (fstates s)(f \<mapsto> st)\<rparr>))"
| "exec_worker s i w st p (CbBack f) = Some (Tau, uncount (upd s i (w\<lparr>w_pc := CbPost f\<rparr>)))"
| "exec_worker s i w st p (CbPost f) =
     (if fstates s f = Some READY
      then Some (Submit (fiber_task f), (upd s i (w\<lparr>w_pc := Top, w_cbFiber := None\<rparr>))
             \<lparr>sch := fst (snd (schedule (sch s) (ByFiber (Some f)) (-1)))\<rparr>)
      else if fstates s f \<in> {Some FTERM, Some EXCEPT}
      then Some (Tau, (upd s i (w\<lparr>w_pc := Top\<rparr>))\<lparr>fstates := (fstates s)(f \<mapsto> INIT)\<rparr>)
      else Some (Tau, (upd s i (w\<lparr>w_pc := Top, w_cbFiber := None\<rparr>))
             \<lparr>fstates := (fstates s)(f \<mapsto> HOLD)\<rparr>))"
| "exec_worker s i w st p NothingFound =
     (if w_idle w = FTERM then Some (Tau, upd s i (w\<lparr>w_pc := Exited\<rparr>))
      else Some (Tau, (upd s i (w\<lparr>w_pc := InIdle, w_idle := EXEC\<rparr>))
             \<lparr>sch := (sch s)\<lparr>m_idleThreadCount := m_idleThreadCount (sch s) + 1\<rparr>\<rparr>))"
| "exec_worker s i w st p InIdle =
     Some (Tau, upd s i
       (w\<lparr>w_pc := IdleBack, w_idle := (if stopping (sch s) then FTERM else HOLD)\<rparr>))"
| "exec_worker s i w st p IdleBack =
     Some (Tau, (upd s i (w\<lparr>w_pc := Top,
         w_idle := (if stateTermOrExcept (w_idle w) then w_idle w else HOLD)\<rparr>))
       \<lparr>sch := (sch s)\<lparr>m_idleThreadCount := m_idleThreadCount (sch s) - 1\<rparr>\<rparr>)"
| "exec_worker s i w st p Exited = None"

fun exec :: "sys \<Rightarrow> action \<Rightarrow> (label \<times> sys) option" where
  "exec s (Work i st p) =
     (if i < length (workers s) \<and> \<not> aborted s
      then exec_worker s i (workers s ! i) st p (w_pc (workers s ! i)) else None)"
| "exec s (DoSubmit fc thr) =
     (let tk = fst (new_task fc thr)
      in if \<not> aborted s \<and> task_nonnull tk \<and>
            (case task_fiber tk of Some f \<Rightarrow> fstates s f \<noteq> None | None \<Rightarrow> True)
         then Some (Submit tk, s\<lparr>sch := fst (snd (schedule (sch s) fc thr))\<rparr>) else None)"
| "exec s (NewFiber f) =
     (if \<not> aborted s \<and> fstates s f = None
      then Some (Tau, s\<lparr>fstates := (fstates s)(f \<mapsto> INIT)\<rparr>) else None)"
| "exec s SetAutoStop =
     (if aborted s then None else Some (Tau, s\<lparr>sch := (sch s)\<lparr>m_autoStop := True\<rparr>\<rparr>))"
| "exec s SetStopping =
     (if aborted s then None else Some (Tau, s\<lparr>sch := (sch s)\<lparr>m_stopping := True\<rparr>\<rparr>))"

fun exec_all :: "sys \<Rightarrow> action list \<Rightarrow> (label list \<times> sys) option" where
  "exec_all s [] = Some ([], s)"
| "exec_all s (a # acts) =
     (case exec s a of
        None \<Rightarrow> None
      | Some (l, t) \<Rightarrow> (case exec_all t acts of None \<Rightarrow> None | Some (ls, u) \<Rightarrow> Some (l # ls, u)))"

lemma exec_cb_step:
  assumes "live_worker s i w" "w_pc w = Counted tk" "\<nexists>f. swappable (fstates s) tk f"
    and "exec_cb s i w tk p = Some (l, t)"
  shows "sched_step s l t"
proof (cases "task_cb tk = None")
  case True
  with sched_step.drop [OF assms(1-3)] assms(4) show ?thesis
    by (auto simp: exec_cb_def uncount_def upd_def)
next
  case False
  show ?thesis
  proof (cases "w_cbFiber w")
    case None
    with False assms(4) sched_step.run_cb [OF assms(1-3) False, of p] show ?thesis
      by (auto simp: exec_cb_def split: if_splits)
  next
    case (Some g)
    with False assms(4) sched_step.run_cb [OF assms(1-3) False, of g]
      sched_step.run_cb_abort [OF assms(1-3) False Some] show ?thesis
      by (auto simp: exec_cb_def split: if_splits)
  qed
qed

lemma exec_dispatch_step:
  assumes "live_worker s i w" "w_pc w = Counted tk" and "exec_dispatch s i w tk p = Some (l, t)"
  shows "sched_step s l t"
proof (cases "\<exists>f. swappable (fstates s) tk f")
  case True
  then obtain f where f: "swappable (fstates s) tk f" by blast
  then have "task_fiber tk = Some f" by (simp add: swappable_def)
  with f assms(3) sched_step.run_fiber [OF assms(1,2) f] sched_step.run_fiber_abort [OF assms(1,2) f]
  show ?thesis by (auto simp: exec_dispatch_def split: if_splits)
next
  case False
  with assms(3) have "exec_cb s i w tk p = Some (l, t)"
    by (auto simp: exec_dispatch_def split: option.splits if_splits)
  with exec_cb_step [OF assms(1,2) False] show ?thesis by blast
qed

lemma exec_worker_step:
  assumes "live_worker s i w" and "exec_worker s i w st p (w_pc w) = Some (l, t)"
  shows "sched_step s l t"
proof (cases "w_pc w")
  case Top
  then show ?thesis
    using assms(2) sched_step.pick [OF assms(1) Top] sched_step.pick_nothing [OF assms(1) Top]
      sched_step.pick_abort [OF assms(1) Top]
    by (auto split: sum.splits option.splits)
next
  case (Picked tk)
  with assms(2) sched_step.count [OF assms(1) Picked] show ?thesis by auto
next
  case NothingFound
  with assms(2) sched_step.idle_break [OF assms(1) NothingFound]
    sched_step.idle_enter [OF assms(1) NothingFound]
  show ?thesis by (auto split: if_splits)
next
  case (Counted tk)
  with assms(2) exec_dispatch_step [OF assms(1) Counted] show ?thesis
    by (simp only: exec_worker.simps)
next
  case (InFiber f)
  with assms(2) sched_step.fiber_back [OF assms(1) InFiber] show ?thesis by (auto split: if_splits)
next
  case (FiberBack f)
  with assms(2) sched_step.fiber_uncount [OF assms(1) FiberBack] show ?thesis
    by (auto simp: uncount_def upd_def)
next
  case (FiberPost f)
  with assms(2) sched_step.fiber_ready [OF assms(1) FiberPost]
    sched_step.fiber_done [OF assms(1) FiberPost] sched_step.fiber_hold [OF assms(1) FiberPost]
  show ?thesis by (auto split: if_splits)
next
  case (InCb f)
  with assms(2) sched_step.cb_back [OF assms(1) InCb] show ?thesis by (auto split: if_splits)
next
  case (CbBack f)
  with assms(2) sched_step.cb_uncount [OF assms(1) CbBack] show ?thesis
    by (auto simp: uncount_def upd_def)
next
  case (CbPost f)
  with assms(2) sched_step.cb_ready [OF assms(1) CbPost]
    sched_step.cb_done [OF assms(1) CbPost] sched_step.cb_hold [OF assms(1) CbPost]
  show ?thesis by (auto split: if_splits)
next
  case InIdle
  with assms(2) sched_step.idle_body [OF assms(1) InIdle] show ?thesis by auto
next
  case IdleBack
  with assms(2) sched_step.idle_leave [OF assms(1) IdleBack] show ?thesis by auto
next
  case Exited
  with assms(2) show ?thesis by simp
qed

lemma exec_step:
  assumes "exec s a = Some (l, t)"
  shows "sched_step s l t"
proof (cases a)
  case (Work i st p)
  with assms have "live_worker s i (workers s ! i)"
    by (simp add: live_worker_def split: if_splits)
  with exec_worker_step [OF this] Work assms show ?thesis by (simp split: if_splits)
next
  case (DoSubmit fc thr)
  with assms sched_step.env_submit [of s fc thr "fst (new_task fc thr)"] show ?thesis
    by (auto simp: Let_def split: if_splits option.splits)
qed (use assms sched_step.env_fiber sched_step.env_autostop sched_step.env_stopping in
  \<open>auto split: if_splits\<close>)

lemma sched_steps_Cons:
  "sched_steps t ls u \<Longrightarrow> sched_step s l t \<Longrightarrow> sched_steps s (l # ls) u"
proof (induction rule: sched_steps.induct)
  case (refl t)
  from sched_steps.step [OF sched_steps.refl refl] show ?case by simp
next
  case (step t ls v l' u)
  from sched_steps.step [OF step.IH [OF step.prems] step.hyps(2)] show ?case by simp
qed

lemma exec_all_steps: "exec_all s acts = Some (ls, t) \<Longrightarrow> sched_steps s ls t"
proof (induction acts arbitrary: s ls)
  case Nil
  then show ?case by (simp add: sched_steps.refl)
next
  case (Cons a acts)
  then obtain l u ls' where "exec s a = Some (l, u)" "exec_all u acts = Some (ls', t)" "ls = l # ls'"
    by (auto split: option.splits)
  with Cons.IH [of u ls'] show ?case
    by (auto intro: sched_steps_Cons exec_step)
qed

lemma exec_reach:
  "\<exists>ls t. exec_all s acts = Some (ls, t) \<and> P t \<Longrightarrow> \<exists>ls t. sched_steps s ls t \<and> P t"
  using exec_all_steps by blast

subsection \<open>A pool of two threads\<close>

definition two_workers :: sys where
  "two_workers = \<lparr>sch = \<lparr>m_threads = [0, 1], m_tasks = [], m_rootFiber = None, m_name = ''pool'',
      m_threadIds = [10, 11], m_threadCount = 2, m_activeThreadCount = 0, m_idleThreadCount = 0,
      m_stopping = False, m_autoStop = False, m_rootThread = -1\<rparr>,
    fstates = Map.empty,
    workers = [\<lparr>w_tid = 10, w_pc = Top, w_cbFiber = None, w_idle = INIT\<rparr>,
               \<lparr>w_tid = 11, w_pc = Top, w_cbFiber = None, w_idle = INIT\<rparr>],
    aborted = False\<rparr>"

lemma two_workers_initial: "initial_sys two_workers"
  by (simp add: initial_sys_def two_workers_def)

lemmas exec_run = two_workers_def Let_def upd_def uncount_def exec_dispatch_def exec_cb_def
  swappable_def schedule_def scheduleNoLock_def task_nonnull_def stopping_def fiber_task_def

end
