(* ===== verification/Scheduler_Props.thy ===== *)
theory Scheduler_Props
  imports Scheduler_Exec
begin

text \<open>
  The properties of the scheduler: the queue and its wake-ups, the choice of the next task, and
  the counters over every interleaving of the workers.
\<close>

subsection \<open>The queue as an interface\<close>

text \<open>
  What the timer manager and the I/O manager rely on when they hand work to a scheduler: a queue to
  which one request appends at most one task at the end.
\<close>

locale task_queue =
  fixes enq :: "'a \<Rightarrow> 'q \<Rightarrow> 'q"
    and contents :: "'q \<Rightarrow> 't list"
    and mk :: "'a \<Rightarrow> 't"
    and valid :: "'t \<Rightarrow> bool"
  assumes contents_enq:
    "contents (enq a q) = (if valid (mk a) then contents q @ [mk a] else contents q)"
begin

lemma contents_enq_all: "contents (fold enq as q) = contents q @ filter valid (map mk as)"
  by (induction as arbitrary: q) (simp_all add: contents_enq)

lemma enq_all_nonempty: "contents q \<noteq> [] \<Longrightarrow> contents (fold enq as q) \<noteq> []"
  by (simp add: contents_enq_all)

end

definition task_of :: "fiber_or_cb \<Rightarrow> task" where
  "task_of fc = fst (new_task fc (-1))"

definition enqueue :: "fiber_or_cb \<Rightarrow> scheduler \<Rightarrow> scheduler" where
  "enqueue fc s = fst (snd (scheduleNoLock s fc (-1)))"

lemma scheduleNoLock_eq:
  "scheduleNoLock s fc thr =
     (m_tasks s = [],
      (if task_nonnull (fst (new_task fc thr)) then s\<lparr>m_tasks := m_tasks s @ [fst (new_task fc thr)]\<rparr>
       else s),
      snd (new_task fc thr))"
  by (simp add: scheduleNoLock_def task_nonnull_def Let_def split_beta)

lemma schedule_eq: "schedule s fc thr = scheduleNoLock s fc thr"
  by (simp add: schedule_def split_beta)

interpretation scheduler_queue: task_queue enqueue m_tasks task_of task_nonnull
  by unfold_locales (simp add: enqueue_def task_of_def scheduleNoLock_eq)

lemma enqueue_frame [frame_simps]:
  "m_activeThreadCount (enqueue fc s) = m_activeThreadCount s"
  "m_idleThreadCount (enqueue fc s) = m_idleThreadCount s"
  "m_stopping (enqueue fc s) = m_stopping s" "m_autoStop (enqueue fc s) = m_autoStop s"
  by (simp_all add: enqueue_def scheduleNoLock_eq)

lemma fold_enqueue:
  "fold enqueue its s = s\<lparr>m_tasks := m_tasks s @ filter task_nonnull (map task_of its)\<rparr>"
  by (induction its arbitrary: s) (simp_all add: enqueue_def scheduleNoLock_eq task_of_def)

lemma schedule_loop_eq:
  "schedule_loop s its need =
     (need \<or> (its \<noteq> [] \<and> m_tasks s = []), fold enqueue its s, map (\<lambda>it. snd (new_task it (-1))) its)"
proof (induction its arbitrary: s need)
  case Nil
  then show ?case by simp
next
  case (Cons it its)
  have "m_tasks (enqueue it s) = [] \<Longrightarrow> m_tasks s = []"
    by (simp add: scheduler_queue.contents_enq split: if_splits)
  then show ?case
    by (auto simp: Cons.IH scheduleNoLock_eq enqueue_def)
qed

text \<open>
  Scheduling never loses work and never loses a wake-up. \<open>schedule\<close> of a range appends exactly
  the tasks with a fiber or a callback, in their order and free to run on any thread, empties the
  variables it was given pointers to, and asks for a \<open>tickle\<close> whenever the queue was empty before a
  non-empty range; everything else of the scheduler is unchanged.
\<close>

lemma schedule_range_appends:
  "\<exists>s'. schedule_range s (map ByCbPtr cbs) =
          (cbs \<noteq> [] \<and> m_tasks s = [], s', map (\<lambda>_. ByCbPtr None) cbs) \<and>
        m_tasks s' = m_tasks s @
          map (\<lambda>c. \<lparr>task_fiber = None, task_cb = Some c, task_thread = -1\<rparr>) (map the (filter (\<lambda>c. c \<noteq> None) cbs)) \<and>
        s' = s\<lparr>m_tasks := m_tasks s'\<rparr>"
proof -
  let ?s' = "fold enqueue (map ByCbPtr cbs) s"
  have "filter task_nonnull (map task_of (map ByCbPtr cbs)) =
      map (\<lambda>c. \<lparr>task_fiber = None, task_cb = Some c, task_thread = -1\<rparr>)
        (map the (filter (\<lambda>c. c \<noteq> None) cbs))"
    by (induction cbs) (auto simp: task_of_def task_nonnull_def)
  then have "m_tasks ?s' = m_tasks s @
      map (\<lambda>c. \<lparr>task_fiber = None, task_cb = Some c, task_thread = -1\<rparr>)
        (map the (filter (\<lambda>c. c \<noteq> None) cbs))"
    by (simp only: scheduler_queue.contents_enq_all)
  moreover have "?s' = s\<lparr>m_tasks := m_tasks ?s'\<rparr>"
    by (subst fold_enqueue) (simp add: scheduler_queue.contents_enq_all)
  ultimately show ?thesis
    by (auto simp: schedule_range_def schedule_loop_eq)
qed

subsection \<open>The choice of the next task\<close>

lemma pick_task_eq:
  assumes "\<forall>tk \<in> set ts. task_nonnull tk"
  shows "pick_task st tid ts = Inr (case dropWhile (\<lambda>tk. \<not> runnable st tid tk) ts of
      [] \<Rightarrow> None
    | tk # post \<Rightarrow> Some (tk, takeWhile (\<lambda>tk. \<not> runnable st tid tk) ts @ post))"
  using assms
proof (induction ts)
  case Nil
  then show ?case by simp
next
  case (Cons it ts)
  have first: "pick_task st tid (it # ts) = (if runnable st tid it then Inr (Some (it, ts))
      else case pick_task st tid ts of
             Inl e \<Rightarrow> Inl e
           | Inr None \<Rightarrow> Inr None
           | Inr (Some (tk, rest)) \<Rightarrow> Inr (Some (tk, it # rest)))"
    using Cons.prems by (auto simp: runnable_def task_nonnull_def Let_def split: option.splits)
  show ?case
  proof (cases "runnable st tid it")
    case True
    then show ?thesis by (simp add: first del: pick_task.simps)
  next
    case False
    define d where "d = dropWhile (\<lambda>tk. \<not> runnable st tid tk) ts"
    have "pick_task st tid ts = Inr (case d of [] \<Rightarrow> None
        | tk # post \<Rightarrow> Some (tk, takeWhile (\<lambda>tk. \<not> runnable st tid tk) ts @ post))"
      using Cons unfolding d_def by simp
    moreover have dw: "dropWhile (\<lambda>tk. \<not> runnable st tid tk) (it # ts) = d"
      using False by (simp add: d_def)
    ultimately show ?thesis
      unfolding first dw using False by (cases d) simp_all
  qed
qed

lemma pick_task_SomeD:
  assumes "pick_task st tid ts = Inr (Some (tk, rest))"
  shows "\<exists>pre post. ts = pre @ tk # post \<and> rest = pre @ post"
  using assms
proof (induction ts arbitrary: rest)
  case Nil
  then show ?case by simp
next
  case (Cons it ts)
  from Cons.prems consider "it = tk" "ts = rest"
    | rest' where "pick_task st tid ts = Inr (Some (tk, rest'))" "rest = it # rest'"
    by (auto simp: Let_def split: if_splits sum.splits option.splits)
  then show ?case
  proof cases
    case 1
    then show ?thesis by (metis append_Nil)
  next
    case 2
    then obtain pre post where "ts = pre @ tk # post" "rest' = pre @ post"
      using Cons.IH by blast
    with 2 show ?thesis by (metis append_Cons)
  qed
qed

lemma pick_task_runnable:
  "pick_task st tid ts = Inr (Some (tk, rest)) \<Longrightarrow> runnable st tid tk"
  by (induction ts arbitrary: rest)
     (auto simp: Let_def runnable_def split: if_splits sum.splits option.splits)

text \<open>
  C12. The locked search of \<open>run\<close> takes the first task of the queue that is free or pinned to the
  calling thread and whose fiber is not executing, leaves all others in their order, and finds
  nothing only if no task qualifies; on a queue of non-null tasks its assertion never fails.
\<close>

theorem pick_task_first_runnable:
  assumes "\<forall>tk \<in> set ts. task_nonnull tk"
  shows "(pick_task st tid ts = Inr None \<longleftrightarrow> (\<forall>tk \<in> set ts. \<not> runnable st tid tk)) \<and>
         (pick_task st tid ts = Inr (Some (tk, rest)) \<longleftrightarrow>
            (\<exists>pre post. ts = pre @ tk # post \<and> rest = pre @ post \<and> runnable st tid tk \<and>
               (\<forall>x \<in> set pre. \<not> runnable st tid x))) \<and>
         (\<forall>e. pick_task st tid ts \<noteq> Inl e)"
proof -
  let ?n = "\<lambda>tk. \<not> runnable st tid tk"
  have "(\<exists>pre post. ts = pre @ tk # post \<and> rest = pre @ post \<and> runnable st tid tk \<and>
               (\<forall>x \<in> set pre. \<not> runnable st tid x)) \<longleftrightarrow>
        (\<exists>post. dropWhile ?n ts = tk # post \<and> rest = takeWhile ?n ts @ post)"
  proof
    assume "\<exists>pre post. ts = pre @ tk # post \<and> rest = pre @ post \<and> runnable st tid tk \<and>
               (\<forall>x \<in> set pre. \<not> runnable st tid x)"
    then show "\<exists>post. dropWhile ?n ts = tk # post \<and> rest = takeWhile ?n ts @ post"
      by (auto simp: dropWhile_append takeWhile_append)
  next
    assume "\<exists>post. dropWhile ?n ts = tk # post \<and> rest = takeWhile ?n ts @ post"
    then obtain post where p: "dropWhile ?n ts = tk # post" "rest = takeWhile ?n ts @ post"
      by blast
    then have "ts = takeWhile ?n ts @ tk # post" and "runnable st tid tk"
      using takeWhile_dropWhile_id [of ?n ts] hd_dropWhile [of ?n ts] by auto
    with p(2) show "\<exists>pre post. ts = pre @ tk # post \<and> rest = pre @ post \<and> runnable st tid tk \<and>
               (\<forall>x \<in> set pre. \<not> runnable st tid x)"
      by (metis set_takeWhileD)
  qed
  moreover have "dropWhile ?n ts = [] \<longleftrightarrow> (\<forall>tk \<in> set ts. \<not> runnable st tid tk)"
    by (rule dropWhile_eq_Nil_conv)
  moreover define d where "d = dropWhile ?n ts"
  ultimately show ?thesis
    unfolding pick_task_eq [OF assms] d_def [symmetric] by (cases d) (simp_all, blast+)
qed

theorem pick_task_first_runnable_witness:
  "pick_task [5 \<mapsto> EXEC] 2 [fiber_task 5, \<lparr>task_fiber = None, task_cb = Some (User 1), task_thread = 3\<rparr>]
     = Inr None"
proof -
  have "\<forall>tk \<in> set [fiber_task 5, \<lparr>task_fiber = None, task_cb = Some (User 1), task_thread = 3\<rparr>].
      task_nonnull tk"
    by (simp add: task_nonnull_def fiber_task_def)
  from pick_task_first_runnable [OF this, of "[5 \<mapsto> EXEC]" 2] show ?thesis
    by (simp add: runnable_def fiber_task_def)
qed

subsection \<open>Counters\<close>

fun counted :: "pc \<Rightarrow> bool" where
  "counted (Counted _) = True"
| "counted (InFiber _) = True"
| "counted (FiberBack _) = True"
| "counted (InCb _) = True"
| "counted (CbBack _) = True"
| "counted _ = False"

fun idling :: "pc \<Rightarrow> bool" where
  "idling InIdle = True"
| "idling IdleBack = True"
| "idling _ = False"

fun in_hand :: "pc \<Rightarrow> task list" where
  "in_hand (Picked tk) = [tk]"
| "in_hand (Counted tk) = [tk]"
| "in_hand _ = []"

definition tally :: "(pc \<Rightarrow> bool) \<Rightarrow> worker list \<Rightarrow> u64" where
  "tally P ws = sum_list (map (\<lambda>w. if P (w_pc w) then 1 else 0) ws)"

lemma tally_eq: "tally P ws = of_nat (length (filter (\<lambda>w. P (w_pc w)) ws))"
  by (induction ws) (simp_all add: tally_def)

lemma tally_update:
  assumes "i < length ws"
  shows "tally P (ws[i := w]) =
    tally P ws + (if P (w_pc w) then 1 else 0) - (if P (w_pc (ws ! i)) then 1 else 0)"
  using sum_list_map_update [OF assms, of "\<lambda>w. if P (w_pc w) then 1 else 0" w]
  unfolding tally_def by (simp only: eq_diff_eq)

definition sched_inv :: "sys \<Rightarrow> bool" where
  "sched_inv s \<longleftrightarrow>
     m_activeThreadCount (sch s) = tally counted (workers s) \<and>
     m_idleThreadCount (sch s) = tally idling (workers s) \<and>
     (\<forall>tk \<in> set (m_tasks (sch s)). task_nonnull tk) \<and>
     (\<forall>w \<in> set (workers s). (w_idle w = FTERM \<longrightarrow> m_autoStop (sch s) \<and> m_stopping (sch s)) \<and>
        (w_pc w = Exited \<longrightarrow> w_idle w = FTERM))"

lemma sched_inv_tally:
  "sched_inv s \<Longrightarrow> m_activeThreadCount (sch s) = tally counted (workers s) \<and>
     m_idleThreadCount (sch s) = tally idling (workers s)"
  by (simp add: sched_inv_def)

lemma schedule_sel:
  "m_activeThreadCount (fst (snd (schedule s fc thr))) = m_activeThreadCount s"
  "m_idleThreadCount (fst (snd (schedule s fc thr))) = m_idleThreadCount s"
  "m_stopping (fst (snd (schedule s fc thr))) = m_stopping s"
  "m_autoStop (fst (snd (schedule s fc thr))) = m_autoStop s"
  "m_tasks (fst (snd (schedule s fc thr))) =
     m_tasks s @ (if task_nonnull (fst (new_task fc thr)) then [fst (new_task fc thr)] else [])"
  by (simp_all add: schedule_eq scheduleNoLock_eq)

lemma set_workers_upd:
  "live_worker s i v \<Longrightarrow> set (workers (upd s i w)) \<subseteq> insert w (set (workers s))"
  by (simp add: upd_def set_update_subset_insert)

lemma live_worker_mem: "live_worker s i w \<Longrightarrow> w \<in> set (workers s)"
  by (auto simp: live_worker_def)

lemma upd_sel [simp]:
  "sch (upd s i w) = sch s" "fstates (upd s i w) = fstates s" "aborted (upd s i w) = aborted s"
  "workers (upd s i w) = (workers s)[i := w]"
  by (simp_all add: upd_def)

lemma sched_inv_ignores [simp]:
  "sched_inv (s\<lparr>fstates := f\<rparr>) = sched_inv s" "sched_inv (s\<lparr>aborted := b\<rparr>) = sched_inv s"
  by (simp_all add: sched_inv_def)

text \<open>A step of one worker keeps the invariant if it moves the counters with its program counter.\<close>

lemma sched_inv_worker:
  assumes inv: "sched_inv s" and live: "live_worker s i w"
    and active: "m_activeThreadCount sc = m_activeThreadCount (sch s)
        + (if counted (w_pc w') then 1 else 0) - (if counted (w_pc w) then 1 else 0)"
    and idle: "m_idleThreadCount sc = m_idleThreadCount (sch s)
        + (if idling (w_pc w') then 1 else 0) - (if idling (w_pc w) then 1 else 0)"
    and tasks: "set (m_tasks sc) \<subseteq> set (m_tasks (sch s)) \<union> Collect task_nonnull"
    and flags: "m_autoStop sc = m_autoStop (sch s)" "m_stopping sc = m_stopping (sch s)"
    and own: "w_idle w' = FTERM \<Longrightarrow> w_idle w = FTERM \<or> m_autoStop sc \<and> m_stopping sc"
      "w_pc w' = Exited \<Longrightarrow> w_idle w' = FTERM"
  shows "sched_inv ((upd s i w')\<lparr>sch := sc\<rparr>)"
proof -
  have i: "i < length (workers s)" and wi: "workers s ! i = w"
    using live by (simp_all add: live_worker_def)
  have w: "w_idle w = FTERM \<longrightarrow> m_autoStop (sch s) \<and> m_stopping (sch s)"
    using inv live_worker_mem [OF live] by (simp add: sched_inv_def)
  have "v = w' \<or> v \<in> set (workers s)" if "v \<in> set ((workers s)[i := w'])" for v
    using that set_update_subset_insert by fast
  then have "(w_idle v = FTERM \<longrightarrow> m_autoStop sc \<and> m_stopping sc) \<and>
      (w_pc v = Exited \<longrightarrow> w_idle v = FTERM)" if "v \<in> set ((workers s)[i := w'])" for v
    using that inv flags own w by (auto simp: sched_inv_def)
  moreover have "\<forall>tk \<in> set (m_tasks sc). task_nonnull tk"
    using tasks inv by (auto simp: sched_inv_def)
  ultimately show ?thesis
    using sched_inv_tally [OF inv]
    by (simp add: sched_inv_def active idle tally_update [OF i] wi)
qed

lemma sched_inv_pc:
  assumes "sched_inv s" and "live_worker s i w"
    and "counted (w_pc w') = counted (w_pc w)" and "idling (w_pc w') = idling (w_pc w)"
    and "w_idle w' = FTERM \<Longrightarrow> w_idle w = FTERM \<or> m_autoStop (sch s) \<and> m_stopping (sch s)"
    and "w_pc w' = Exited \<Longrightarrow> w_idle w' = FTERM"
  shows "sched_inv (upd s i w')"
proof -
  have "sched_inv ((upd s i w')\<lparr>sch := sch s\<rparr>)"
    using assms by (intro sched_inv_worker [OF assms(1,2)]) auto
  moreover have "(upd s i w')\<lparr>sch := sch s\<rparr> = upd s i w'"
    by (simp add: upd_def)
  ultimately show ?thesis by simp
qed

lemma sched_inv_sch:
  assumes "sched_inv s"
    and "m_activeThreadCount sc = m_activeThreadCount (sch s)"
    and "m_idleThreadCount sc = m_idleThreadCount (sch s)"
    and "set (m_tasks sc) \<subseteq> set (m_tasks (sch s)) \<union> Collect task_nonnull"
    and "m_autoStop (sch s) \<Longrightarrow> m_autoStop sc" "m_stopping (sch s) \<Longrightarrow> m_stopping sc"
  shows "sched_inv (s\<lparr>sch := sc\<rparr>)"
  using assms by (auto simp: sched_inv_def)

lemma sched_step_inv: "sched_step s l s' \<Longrightarrow> sched_inv s \<Longrightarrow> sched_inv s'"
proof (induction rule: sched_step.induct)
  case (pick s i w tk rest)
  from pick_task_SomeD [OF pick.hyps(3)] pick show ?case
    by (intro sched_inv_worker [OF pick.prems pick.hyps(1)]) auto
next
  case (count s i w tk)
  then show ?case by (intro sched_inv_worker [OF count.prems count.hyps(1)]) auto
next
  case (drop s i w tk)
  then show ?case by (intro sched_inv_worker [OF drop.prems drop.hyps(1)]) auto
next
  case (fiber_uncount s i w f)
  then show ?case by (intro sched_inv_worker [OF fiber_uncount.prems fiber_uncount.hyps(1)]) auto
next
  case (cb_uncount s i w f)
  then show ?case by (intro sched_inv_worker [OF cb_uncount.prems cb_uncount.hyps(1)]) auto
next
  case (fiber_ready s i w f)
  then show ?case
    by (intro sched_inv_worker [OF fiber_ready.prems fiber_ready.hyps(1)]) (auto simp: schedule_sel)
next
  case (cb_ready s i w f)
  then show ?case
    by (intro sched_inv_worker [OF cb_ready.prems cb_ready.hyps(1)]) (auto simp: schedule_sel)
next
  case (idle_enter s i w)
  then show ?case by (intro sched_inv_worker [OF idle_enter.prems idle_enter.hyps(1)]) auto
next
  case (idle_leave s i w)
  then show ?case
    by (intro sched_inv_worker [OF idle_leave.prems idle_leave.hyps(1)]) (auto split: if_splits)
next
  case (env_submit s fc thr tk)
  then show ?case by (intro sched_inv_sch [OF env_submit.prems]) (auto simp: schedule_sel)
next
  case (env_autostop s)
  then show ?case by (intro sched_inv_sch [OF env_autostop.prems]) auto
next
  case (env_stopping s)
  then show ?case by (intro sched_inv_sch [OF env_stopping.prems]) auto
next
  case (idle_body s i w)
  then show ?case
    by (intro sched_inv_pc [OF idle_body.prems idle_body.hyps(1)])
       (auto simp: stopping_def split: if_splits)
next
  case (pick_nothing s i w)
  then show ?case
    by (intro sched_inv_pc [OF pick_nothing.prems pick_nothing.hyps(1)]) simp_all
next
  case (run_fiber s i w tk f)
  then show ?case
    unfolding sched_inv_ignores by (intro sched_inv_pc [OF run_fiber.prems run_fiber.hyps(1)]) simp_all
next
  case (run_cb s i w tk f)
  then show ?case
    unfolding sched_inv_ignores by (intro sched_inv_pc [OF run_cb.prems run_cb.hyps(1)]) simp_all
next
  case (fiber_back s i w f st)
  then show ?case
    unfolding sched_inv_ignores by (intro sched_inv_pc [OF fiber_back.prems fiber_back.hyps(1)]) simp_all
next
  case (fiber_done s i w f)
  then show ?case
    by (intro sched_inv_pc [OF fiber_done.prems fiber_done.hyps(1)]) simp_all
next
  case (fiber_hold s i w f)
  then show ?case
    unfolding sched_inv_ignores by (intro sched_inv_pc [OF fiber_hold.prems fiber_hold.hyps(1)]) simp_all
next
  case (cb_back s i w f st)
  then show ?case
    unfolding sched_inv_ignores by (intro sched_inv_pc [OF cb_back.prems cb_back.hyps(1)]) simp_all
next
  case (cb_done s i w f)
  then show ?case
    unfolding sched_inv_ignores by (intro sched_inv_pc [OF cb_done.prems cb_done.hyps(1)]) simp_all
next
  case (cb_hold s i w f)
  then show ?case
    unfolding sched_inv_ignores by (intro sched_inv_pc [OF cb_hold.prems cb_hold.hyps(1)]) simp_all
next
  case (idle_break s i w)
  then show ?case
    by (intro sched_inv_pc [OF idle_break.prems idle_break.hyps(1)]) simp_all
qed simp_all

lemma initial_sys_inv: "initial_sys s \<Longrightarrow> sched_inv s"
proof -
  assume init: "initial_sys s"
  then have top: "\<forall>w \<in> set (workers s). w_pc w = Top \<and> w_idle w = INIT"
    by (simp add: initial_sys_def)
  have "tally P (workers s) = 0" if "\<not> P Top" for P
  proof -
    have "filter (\<lambda>w. P (w_pc w)) (workers s) = []"
      using top that by (simp add: filter_empty_conv)
    then show ?thesis by (simp add: tally_eq)
  qed
  then have "tally counted (workers s) = 0" "tally idling (workers s) = 0" by simp_all
  moreover have "\<forall>w \<in> set (workers s). w_idle w \<noteq> FTERM \<and> w_pc w \<noteq> Exited"
    using top by simp
  ultimately show ?thesis
    using init by (simp add: sched_inv_def initial_sys_def)
qed

interpretation sched: transition_inv initial_sys "\<lambda>s s'. \<exists>l. sched_step s l s'" sched_inv
  by unfold_locales (auto intro: initial_sys_inv sched_step_inv)

lemma sched_steps_rtranclp: "sched_steps s ls t \<Longrightarrow> (\<lambda>s s'. \<exists>l. sched_step s l s')\<^sup>*\<^sup>* s t"
  by (induction rule: sched_steps.induct) (auto intro: rtranclp.rtrancl_into_rtrancl)

lemma sched_steps_inv: "sched_steps s ls t \<Longrightarrow> initial_sys s \<Longrightarrow> sched_inv t"
  using sched.reachable_inv sched_steps_rtranclp by blast

lemma sched_steps_workers: "sched_steps s ls t \<Longrightarrow> length (workers t) = length (workers s)"
  by (induction rule: sched_steps.induct) (auto elim!: sched_step.cases)

text \<open>
  What the counters mean in every interleaving of fewer than 2 to the 64 workers; no null task is
  queued; and a worker leaves \<open>run\<close> only after \<open>stop\<close> was called.
\<close>

lemma scheduler_counters:
  assumes "initial_sys s0" and "sched_steps s0 ls s"
  shows "unat (m_activeThreadCount (sch s)) = length (filter (\<lambda>w. counted (w_pc w)) (workers s)) \<and>
         unat (m_idleThreadCount (sch s)) = length (filter (\<lambda>w. idling (w_pc w)) (workers s)) \<and>
         (\<forall>e tid. pick_task (fstates s) tid (m_tasks (sch s)) \<noteq> Inl e) \<and>
         ((\<exists>w \<in> set (workers s). w_pc w = Exited) \<longrightarrow> m_autoStop (sch s) \<and> m_stopping (sch s))"
proof -
  have inv: "sched_inv s"
    using sched_steps_inv assms by blast
  have bound: "length (filter P (workers s)) < 2 ^ 64" for P
    using length_filter_le [of P "workers s"] sched_steps_workers [OF assms(2)] assms(1)
    by (simp add: initial_sys_def)
  then have count: "unat (tally P (workers s)) = length (filter (\<lambda>w. P (w_pc w)) (workers s))" for P
    unfolding tally_eq by (rule unat_u64_of_nat)
  have "\<forall>e tid. pick_task (fstates s) tid (m_tasks (sch s)) \<noteq> Inl e"
    using pick_task_eq [of "m_tasks (sch s)"] inv by (simp add: sched_inv_def)
  moreover have "(\<exists>w \<in> set (workers s). w_pc w = Exited) \<longrightarrow> m_autoStop (sch s) \<and> m_stopping (sch s)"
    using inv by (auto simp: sched_inv_def)
  ultimately show ?thesis
    using sched_inv_tally [OF inv] count by simp
qed

end
