(* ===== verification/Scheduler_Runs.thy ===== *)
theory Scheduler_Runs
  imports Scheduler_Props
begin

text \<open>
  Properties of whole runs of the scheduler: every submitted task is accounted for, a single worker
  drains the queue and exits, and two interleavings in which the code does not keep what it promises.
\<close>

subsection \<open>Conservation of tasks\<close>

fun submitted :: "label \<Rightarrow> task multiset" where
  "submitted (Submit tk) = {#tk#}"
| "submitted _ = {#}"

fun finished :: "label \<Rightarrow> task multiset" where
  "finished (Started tk) = {#tk#}"
| "finished (Dropped tk) = {#tk#}"
| "finished _ = {#}"

definition held :: "worker list \<Rightarrow> task multiset" where
  "held ws = sum_list (map (\<lambda>w. mset (in_hand (w_pc w))) ws)"

lemma held_update:
  assumes "i < length ws" and "mset (in_hand (w_pc (ws ! i))) = m"
  shows "held (ws[i := w]) + m = held ws + mset (in_hand (w_pc w))"
  using sum_list_map_update [OF assms(1), of "\<lambda>w. mset (in_hand (w_pc w))" w] assms(2)
  by (simp add: held_def)

definition pending :: "sys \<Rightarrow> task multiset" where
  "pending s = mset (m_tasks (sch s)) + held (workers s)"

lemma pending_sel [simp]:
  "pending (s\<lparr>fstates := f\<rparr>) = pending s" "pending (s\<lparr>aborted := b\<rparr>) = pending s"
  by (simp_all add: pending_def)

lemma mset_exchange:
  fixes a b c d :: "'a multiset"
  assumes "a + w' + d = b + w + c" and "h' + w = h + w'"
  shows "a + h' + d = b + h + c"
proof (rule multiset_eqI)
  fix x
  from arg_cong [OF assms(1), of "\<lambda>m. count m x"] arg_cong [OF assms(2), of "\<lambda>m. count m x"]
  show "count (a + h' + d) x = count (b + h + c) x" by simp
qed

lemma pending_worker:
  assumes "live_worker s i w"
    and "mset (m_tasks sc) + mset (in_hand (w_pc w')) + d =
         mset (m_tasks (sch s)) + mset (in_hand (w_pc w)) + c"
  shows "pending ((upd s i w')\<lparr>sch := sc\<rparr>) + d = pending s + c"
proof -
  have "held ((workers s)[i := w']) + mset (in_hand (w_pc w)) =
      held (workers s) + mset (in_hand (w_pc w'))"
    using assms(1) by (intro held_update) (simp_all add: live_worker_def)
  from mset_exchange [OF assms(2) this]
  show ?thesis by (simp add: pending_def)
qed

lemma pending_pc:
  assumes "live_worker s i w"
    and "mset (in_hand (w_pc w')) + d = mset (in_hand (w_pc w)) + c"
  shows "pending (upd s i w') + d = pending s + c"
proof -
  have "pending ((upd s i w')\<lparr>sch := sch s\<rparr>) + d = pending s + c"
    using assms by (intro pending_worker) (simp_all add: add.assoc)
  moreover have "pending ((upd s i w')\<lparr>sch := sch s\<rparr>) = pending (upd s i w')"
    by (simp add: pending_def)
  ultimately show ?thesis by simp
qed

lemma sched_step_pending: "sched_step s l t \<Longrightarrow> pending t + finished l = pending s + submitted l"
proof (induction rule: sched_step.induct)
  case (pick s i w tk rest)
  from pick_task_SomeD [OF pick(3)] obtain pre post
    where "m_tasks (sch s) = pre @ tk # post" "rest = pre @ post" by blast
  with pick(2) show ?case by (intro pending_worker [OF pick(1)]) simp_all
next
  case (drop s i w tk)
  then show ?case by (intro pending_worker [OF drop(1)]) simp_all
next
  case (fiber_ready s i w f)
  then show ?case
    by (intro pending_worker [OF fiber_ready(1)]) (simp_all add: schedule_sel fiber_task_def task_nonnull_def)
next
  case (cb_ready s i w f)
  then show ?case
    by (intro pending_worker [OF cb_ready(1)]) (simp_all add: schedule_sel fiber_task_def task_nonnull_def)
next
  case (env_submit s fc thr tk)
  then show ?case by (simp add: pending_def schedule_sel)
next
  case (count s i w tk)
  then show ?case by (intro pending_worker [OF count(1)]) simp_all
next
  case (fiber_uncount s i w f)
  then show ?case by (intro pending_worker [OF fiber_uncount(1)]) simp_all
next
  case (cb_uncount s i w f)
  then show ?case by (intro pending_worker [OF cb_uncount(1)]) simp_all
next
  case (idle_enter s i w)
  then show ?case by (intro pending_worker [OF idle_enter(1)]) simp_all
next
  case (idle_leave s i w)
  then show ?case by (intro pending_worker [OF idle_leave(1)]) simp_all
next
  case (pick_nothing s i w)
  then show ?case by (intro pending_pc [OF pick_nothing(1)]) simp_all
next
  case (run_fiber s i w tk f)
  then show ?case unfolding pending_sel by (intro pending_pc [OF run_fiber(1)]) simp_all
next
  case (run_cb s i w tk f)
  then show ?case unfolding pending_sel by (intro pending_pc [OF run_cb(1)]) simp_all
next
  case (fiber_back s i w f st)
  then show ?case unfolding pending_sel by (intro pending_pc [OF fiber_back(1)]) simp_all
next
  case (fiber_done s i w f)
  then show ?case by (intro pending_pc [OF fiber_done(1)]) simp_all
next
  case (fiber_hold s i w f)
  then show ?case unfolding pending_sel by (intro pending_pc [OF fiber_hold(1)]) simp_all
next
  case (cb_back s i w f st)
  then show ?case unfolding pending_sel by (intro pending_pc [OF cb_back(1)]) simp_all
next
  case (cb_done s i w f)
  then show ?case unfolding pending_sel by (intro pending_pc [OF cb_done(1)]) simp_all
next
  case (cb_hold s i w f)
  then show ?case unfolding pending_sel by (intro pending_pc [OF cb_hold(1)]) simp_all
next
  case (idle_break s i w)
  then show ?case by (intro pending_pc [OF idle_break(1)]) simp_all
next
  case (idle_body s i w)
  then show ?case by (intro pending_pc [OF idle_body(1)]) simp_all
qed (simp_all add: pending_def)

lemma sched_steps_pending:
  "sched_steps s ls t \<Longrightarrow>
     pending t + sum_list (map finished ls) = pending s + sum_list (map submitted ls)"
proof (induction rule: sched_steps.induct)
  case (step s ls t l u)
  show ?case
  proof (rule multiset_eqI)
    fix x
    from arg_cong [OF sched_step_pending [OF step.hyps(2)], of "\<lambda>m. count m x"]
      arg_cong [OF step.IH, of "\<lambda>m. count m x"]
    show "count (pending u + sum_list (map finished (ls @ [l]))) x =
        count (pending s + sum_list (map submitted (ls @ [l]))) x"
      by simp
  qed
qed simp

lemma initial_pending: "initial_sys s \<Longrightarrow> pending s = {#}"
proof -
  assume init: "initial_sys s"
  have "held ws = {#}" if "\<forall>w \<in> set ws. w_pc w = Top" for ws
    using that by (induction ws) (simp_all add: held_def)
  with init show ?thesis by (simp add: pending_def initial_sys_def)
qed

text \<open>
  C13. No task is lost or run twice, and the counters are exact. Over every interleaving of any number of
  workers (fewer than 2 to the 64) with threads that submit work and stop the scheduler: the tasks
  submitted (from outside, or by a worker that puts a fiber in state \<open>READY\<close> back) are those
  in the queue, those a worker has taken and not yet dispatched, and those dispatched, each as often as it
  was submitted; \<open>m_activeThreadCount\<close> and \<open>m_idleThreadCount\<close> are the numbers of workers between
  their increment and their decrement, so neither ever wraps around; every queued task has a fiber or a
  callback, so the assertion in the search of \<open>run\<close> holds; and a worker leaves \<open>run\<close> only after
  \<open>stop\<close> was called.
\<close>

theorem tasks_conserved:
  assumes "initial_sys s0" and "sched_steps s0 ls s"
  shows "sum_list (map submitted ls) =
         mset (m_tasks (sch s)) + held (workers s) + sum_list (map finished ls) \<and>
         unat (m_activeThreadCount (sch s)) = length (filter (\<lambda>w. counted (w_pc w)) (workers s)) \<and>
         unat (m_idleThreadCount (sch s)) = length (filter (\<lambda>w. idling (w_pc w)) (workers s)) \<and>
         (\<forall>e tid. pick_task (fstates s) tid (m_tasks (sch s)) \<noteq> Inl e) \<and>
         ((\<exists>w \<in> set (workers s). w_pc w = Exited) \<longrightarrow> m_autoStop (sch s) \<and> m_stopping (sch s))"
  using sched_steps_pending [OF assms(2)] initial_pending [OF assms(1)] scheduler_counters [OF assms]
  by (simp add: pending_def)

theorem tasks_conserved_witness:
  "\<exists>ls s. sched_steps two_workers ls s \<and> map w_pc (workers s) = [InCb 5, Top] \<and>
     sum_list (map submitted ls) =
     mset (m_tasks (sch s)) + held (workers s) + sum_list (map finished ls) \<and>
     unat (m_activeThreadCount (sch s)) = length (filter counted [InCb 5, Top])"
proof -
  have "\<exists>ls s. exec_all two_workers
      [DoSubmit (ByCb (Some (User 1))) (-1), DoSubmit (ByCb (Some (User 2))) 11,
       Work 0 HOLD 5, Work 0 HOLD 5, Work 0 HOLD 5] = Some (ls, s) \<and> map w_pc (workers s) = [InCb 5, Top]"
    by (simp add: exec_run)
  from exec_reach [OF this] obtain ls s
    where s: "sched_steps two_workers ls s" "map w_pc (workers s) = [InCb 5, Top]"
    by (elim exE conjE)
  have "length (filter (\<lambda>w. counted (w_pc w)) (workers s)) = length (filter counted (map w_pc (workers s)))"
    by (simp add: filter_map o_def)
  with s tasks_conserved [OF two_workers_initial s(1)] show ?thesis by (intro exI [of _ ls] exI [of _ s]) simp
qed

subsection \<open>One worker empties the queue\<close>

definition own_cb :: "int \<Rightarrow> task \<Rightarrow> bool" where
  "own_cb tid tk \<longleftrightarrow> task_fiber tk = None \<and> task_cb tk \<noteq> None \<and> (task_thread tk = -1 \<or> task_thread tk = tid)"

lemma pick_own_cb: "own_cb tid tk \<Longrightarrow> pick_task st tid (tk # ts) = Inr (Some (tk, ts))"
  by (auto simp: own_cb_def Let_def)

definition ready_worker :: "sys \<Rightarrow> worker \<Rightarrow> ptr \<Rightarrow> bool" where
  "ready_worker s w p \<longleftrightarrow> workers s = [w] \<and> w_pc w = Top \<and> w_idle w \<noteq> FTERM \<and> \<not> aborted s \<and>
     (case w_cbFiber w of None \<Rightarrow> fstates s p = None | Some g \<Rightarrow> g = p \<and> fstates s p = Some INIT)"

lemma exec_all_append:
  "exec_all s acts = Some (ls, t) \<Longrightarrow> exec_all t acts' = Some (ls', u) \<Longrightarrow>
     exec_all s (acts @ acts') = Some (ls @ ls', u)"
  by (induction acts arbitrary: s ls) (auto split: option.splits)

text \<open>\<open>busy s i n\<close>: worker \<open>i\<close> does not enter the idle loop before its last \<open>n\<close>-th move.\<close>

fun busy :: "sys \<Rightarrow> nat \<Rightarrow> fstate \<Rightarrow> ptr \<Rightarrow> nat \<Rightarrow> bool" where
  "busy s i st p 0 = True"
| "busy s i st p (Suc n) =
     (w_pc (workers s ! i) \<noteq> InIdle \<and>
      (case exec s (Work i st p) of None \<Rightarrow> True | Some (l, v) \<Rightarrow> busy v i st p n))"

lemma busy_append:
  "busy s i st p m \<Longrightarrow> exec_all s (replicate m (Work i st p)) = Some (ls, t) \<Longrightarrow> busy t i st p n \<Longrightarrow>
     busy s i st p (m + n)"
  by (induction m arbitrary: s ls) (auto simp del: exec.simps split: option.splits)

lemma one_callback:
  assumes "ready_worker s w p" and "m_tasks (sch s) = tk # ts" and "own_cb (w_tid w) tk"
  shows "exec_all s (replicate 6 (Work 0 FTERM p)) =
    Some ([Tau, Tau, Started tk, Tau, Tau, Tau],
      s\<lparr>workers := [w\<lparr>w_pc := Top, w_cbFiber := Some p\<rparr>], fstates := (fstates s)(p \<mapsto> INIT),
        sch := (sch s)\<lparr>m_tasks := ts\<rparr>\<rparr>)" and "busy s 0 FTERM p 6"
proof -
  obtain c where tk: "task_fiber tk = None" "task_cb tk = Some c"
    using assms(3) by (auto simp: own_cb_def)
  note run = numeral_eq_Suc pick_own_cb [OF assms(3)] tk exec_dispatch_def exec_cb_def uncount_def upd_def
  show "exec_all s (replicate 6 (Work 0 FTERM p)) = Some ([Tau, Tau, Started tk, Tau, Tau, Tau],
      s\<lparr>workers := [w\<lparr>w_pc := Top, w_cbFiber := Some p\<rparr>], fstates := (fstates s)(p \<mapsto> INIT),
        sch := (sch s)\<lparr>m_tasks := ts\<rparr>\<rparr>)"
    using assms(1,2) by (cases "w_cbFiber w") (simp_all add: run ready_worker_def del: pick_task.simps)
  show "busy s 0 FTERM p 6"
    using assms(1,2) by (cases "w_cbFiber w") (simp_all add: run ready_worker_def del: pick_task.simps)
qed

lemma drain_callbacks:
  assumes "ready_worker s w p" and "\<forall>tk \<in> set (m_tasks (sch s)). own_cb (w_tid w) tk"
  shows "\<exists>ls t w'. exec_all s (replicate (6 * length (m_tasks (sch s))) (Work 0 FTERM p)) = Some (ls, t) \<and>
    filter (\<lambda>l. l \<noteq> Tau) ls = map Started (m_tasks (sch s)) \<and> ready_worker t w' p \<and>
    sch t = (sch s)\<lparr>m_tasks := []\<rparr> \<and> busy s 0 FTERM p (6 * length (m_tasks (sch s)))"
  using assms
proof (induction "m_tasks (sch s)" arbitrary: s w)
  case Nil
  then have "sch s = (sch s)\<lparr>m_tasks := []\<rparr>" by simp
  with Nil show ?case by auto
next
  case (Cons tk ts)
  let ?w = "w\<lparr>w_pc := Top, w_cbFiber := Some p\<rparr>"
  let ?s = "s\<lparr>workers := [?w], fstates := (fstates s)(p \<mapsto> INIT), sch := (sch s)\<lparr>m_tasks := ts\<rparr>\<rparr>"
  from Cons.prems Cons.hyps(2) have own: "own_cb (w_tid w) tk" "\<forall>x \<in> set ts. own_cb (w_tid ?w) x"
    by (metis list.set_intros(1)) (use Cons.prems Cons.hyps(2) [symmetric] in simp)
  note this_one = one_callback [OF Cons.prems(1) Cons.hyps(2) [symmetric] own(1)]
  from this_one(1) have one: "exec_all s (replicate 6 (Work 0 FTERM p)) =
      Some ([Tau, Tau, Started tk, Tau, Tau, Tau], ?s)" .
  have "ready_worker ?s ?w p"
    using Cons.prems(1) by (simp add: ready_worker_def)
  from Cons.hyps(1) [of ?s ?w, OF _ this] own(2) obtain ls t w'
    where rest: "exec_all ?s (replicate (6 * length ts) (Work 0 FTERM p)) = Some (ls, t)"
      "filter (\<lambda>l. l \<noteq> Tau) ls = map Started ts" "ready_worker t w' p" "sch t = (sch s)\<lparr>m_tasks := []\<rparr>"
      "busy ?s 0 FTERM p (6 * length ts)"
    by auto
  have len: "6 * length (m_tasks (sch s)) = 6 + 6 * length ts"
    by (simp flip: Cons.hyps(2))
  from exec_all_append [OF one rest(1)] rest(2-4) busy_append [OF this_one(2) one rest(5)] show ?case
    unfolding len replicate_add by (auto simp flip: Cons.hyps(2))
qed

lemma idle_exit:
  assumes "ready_worker s w p" and "stopping (sch s)"
  shows "\<exists>t. exec_all s (replicate 6 (Work 0 FTERM p)) = Some (replicate 6 Tau, t) \<and>
    map w_pc (workers t) = [Exited] \<and> sch t = sch s"
  using assms by (simp add: numeral_eq_Suc ready_worker_def stopping_def upd_def)

text \<open>
  Once \<open>stop\<close> has set both flags and nothing new is submitted, a single worker runs every queued
  callback exactly once, in the order of submission, and then leaves \<open>run\<close>, in exactly six steps
  per callback and six more to go idle and exit; it leaves an empty queue and a counter of zero.
\<close>

lemma stop_drains_queue:
  assumes "ready_worker s w p" and "\<forall>tk \<in> set (m_tasks (sch s)). own_cb (w_tid w) tk"
    and "m_autoStop (sch s)" and "m_stopping (sch s)" and "m_activeThreadCount (sch s) = 0"
  shows "\<exists>ls t. exec_all s (replicate (6 * length (m_tasks (sch s)) + 6) (Work 0 FTERM p)) = Some (ls, t) \<and>
    sched_steps s ls t \<and> filter (\<lambda>l. l \<noteq> Tau) ls = map Started (m_tasks (sch s)) \<and>
    map w_pc (workers t) = [Exited] \<and> sch t = (sch s)\<lparr>m_tasks := []\<rparr>"
proof -
  from drain_callbacks [OF assms(1,2)] obtain ls t w'
    where d: "exec_all s (replicate (6 * length (m_tasks (sch s))) (Work 0 FTERM p)) = Some (ls, t)"
      "filter (\<lambda>l. l \<noteq> Tau) ls = map Started (m_tasks (sch s))" "ready_worker t w' p"
      "sch t = (sch s)\<lparr>m_tasks := []\<rparr>" by blast
  have "stopping (sch t)"
    using assms(3-5) by (simp add: stopping_def d(4))
  from idle_exit [OF d(3) this] obtain u
    where u: "exec_all t (replicate 6 (Work 0 FTERM p)) = Some (replicate 6 Tau, u)"
      "map w_pc (workers u) = [Exited]" "sch u = sch t" by (elim exE conjE)
  let ?n = "6 * length (m_tasks (sch s))"
  have all: "exec_all s (replicate (?n + 6) (Work 0 FTERM p)) = Some (ls @ replicate 6 Tau, u)"
    unfolding replicate_add by (rule exec_all_append [OF d(1) u(1)])
  have "filter (\<lambda>l. l \<noteq> Tau) (ls @ replicate 6 Tau) = map Started (m_tasks (sch s))"
    by (simp add: d(2) filter_empty_conv)
  moreover have "sch u = (sch s)\<lparr>m_tasks := []\<rparr>" by (simp add: u(3) d(4))
  ultimately show ?thesis
    using all u(2) exec_all_steps [OF all] by (intro exI conjI)
qed

subsection \<open>A worker that leaves too early\<close>

definition orphaned :: "task \<Rightarrow> sys \<Rightarrow> bool" where
  "orphaned tk s \<longleftrightarrow> tk \<in> set (m_tasks (sch s)) \<and> task_thread tk \<noteq> -1 \<and>
     (\<forall>w \<in> set (workers s). w_tid w = task_thread tk \<longrightarrow> w_pc w = Exited)"

lemma orphaned_worker:
  assumes "orphaned tk s" and "live_worker s i w" and "w_pc w \<noteq> Exited" and "w_tid w' = w_tid w"
    and "tk \<in> set (m_tasks sc)"
  shows "orphaned tk ((upd s i w')\<lparr>sch := sc\<rparr>)"
proof -
  have "w_tid w \<noteq> task_thread tk"
    using assms(1,3) live_worker_mem [OF assms(2)] by (auto simp: orphaned_def)
  then have "w_pc v = Exited" if "v \<in> set ((workers s)[i := w'])" "w_tid v = task_thread tk" for v
    using that assms(1,4) set_update_subset_insert [of "workers s" i w'] by (auto simp: orphaned_def)
  then show ?thesis
    using assms(1,5) by (auto simp: orphaned_def)
qed

lemma orphaned_pc:
  assumes "orphaned tk s" and "live_worker s i w" and "w_pc w \<noteq> Exited" and "w_tid w' = w_tid w"
  shows "orphaned tk (upd s i w')"
  using orphaned_worker [OF assms, of "sch s"] assms(1) by (simp add: orphaned_def)

lemma orphaned_sel [simp]:
  "orphaned tk (s\<lparr>fstates := f\<rparr>) = orphaned tk s" "orphaned tk (s\<lparr>aborted := b\<rparr>) = orphaned tk s"
  by (simp_all add: orphaned_def)

lemma orphaned_step: "sched_step s l t \<Longrightarrow> orphaned tk s \<Longrightarrow> orphaned tk t"
proof (induction rule: sched_step.induct)
  case (pick s i w tk' rest)
  from pick_task_SomeD [OF pick(3)] obtain pre post
    where split: "m_tasks (sch s) = pre @ tk' # post" "rest = pre @ post"
    by blast
  have "w_tid w \<noteq> task_thread tk"
    using pick(2) pick.prems live_worker_mem [OF pick(1)] by (auto simp: orphaned_def)
  with split pick_task_runnable [OF pick(3)] pick.prems have "tk \<in> set rest"
    by (auto simp: orphaned_def runnable_def)
  with pick show ?case by (intro orphaned_worker [OF pick.prems pick(1)]) simp_all
next
  case (env_submit s fc thr tk')
  then show ?case by (simp add: orphaned_def schedule_sel)
next
  case (count s i w tk')
  then show ?case
    by (intro orphaned_worker [OF count.prems count(1)]) (simp_all add: orphaned_def schedule_sel)
next
  case (drop s i w tk')
  then show ?case
    by (intro orphaned_worker [OF drop.prems drop(1)]) (simp_all add: orphaned_def schedule_sel)
next
  case (fiber_uncount s i w f)
  then show ?case
    by (intro orphaned_worker [OF fiber_uncount.prems fiber_uncount(1)]) (simp_all add: orphaned_def schedule_sel)
next
  case (cb_uncount s i w f)
  then show ?case
    by (intro orphaned_worker [OF cb_uncount.prems cb_uncount(1)]) (simp_all add: orphaned_def schedule_sel)
next
  case (idle_enter s i w)
  then show ?case
    by (intro orphaned_worker [OF idle_enter.prems idle_enter(1)]) (simp_all add: orphaned_def schedule_sel)
next
  case (idle_leave s i w)
  then show ?case
    by (intro orphaned_worker [OF idle_leave.prems idle_leave(1)]) (simp_all add: orphaned_def schedule_sel)
next
  case (fiber_ready s i w f)
  then show ?case
    by (intro orphaned_worker [OF fiber_ready.prems fiber_ready(1)]) (simp_all add: orphaned_def schedule_sel)
next
  case (cb_ready s i w f)
  then show ?case
    by (intro orphaned_worker [OF cb_ready.prems cb_ready(1)]) (simp_all add: orphaned_def schedule_sel)
next
  case (pick_nothing s i w)
  then show ?case by (intro orphaned_pc [OF pick_nothing.prems pick_nothing(1)]) simp_all
next
  case (run_fiber s i w tk' f)
  then show ?case unfolding orphaned_sel by (intro orphaned_pc [OF run_fiber.prems run_fiber(1)]) simp_all
next
  case (run_cb s i w tk' f)
  then show ?case unfolding orphaned_sel by (intro orphaned_pc [OF run_cb.prems run_cb(1)]) simp_all
next
  case (fiber_back s i w f st)
  then show ?case unfolding orphaned_sel by (intro orphaned_pc [OF fiber_back.prems fiber_back(1)]) simp_all
next
  case (fiber_done s i w f)
  then show ?case by (intro orphaned_pc [OF fiber_done.prems fiber_done(1)]) simp_all
next
  case (fiber_hold s i w f)
  then show ?case unfolding orphaned_sel by (intro orphaned_pc [OF fiber_hold.prems fiber_hold(1)]) simp_all
next
  case (cb_back s i w f st)
  then show ?case unfolding orphaned_sel by (intro orphaned_pc [OF cb_back.prems cb_back(1)]) simp_all
next
  case (cb_done s i w f)
  then show ?case unfolding orphaned_sel by (intro orphaned_pc [OF cb_done.prems cb_done(1)]) simp_all
next
  case (cb_hold s i w f)
  then show ?case unfolding orphaned_sel by (intro orphaned_pc [OF cb_hold.prems cb_hold(1)]) simp_all
next
  case (idle_break s i w)
  then show ?case by (intro orphaned_pc [OF idle_break.prems idle_break(1)]) simp_all
next
  case (idle_body s i w)
  then show ?case by (intro orphaned_pc [OF idle_body.prems idle_body(1)]) simp_all
qed (simp_all add: orphaned_def)

lemma orphaned_steps: "sched_steps s ls t \<Longrightarrow> orphaned tk s \<Longrightarrow> orphaned tk t"
  by (induction rule: sched_steps.induct) (auto intro: orphaned_step)



subsection \<open>A fiber on two threads\<close>

text \<open>
  C17. After \<open>swapIn\<close> returns, \<open>run\<close> reads the state of the fiber and sets it to \<open>HOLD\<close> without a
  lock. When another thread has scheduled the fiber in between and a second worker has started it,
  the assignment overwrites \<open>EXEC\<close>; the guard on executing fibers no longer holds it back, and the
  fiber is run on two workers at once. The run has no failed assertion.
\<close>

theorem fiber_on_two_workers:
  "\<exists>ls s. sched_steps two_workers ls s \<and> map w_pc (workers s) = [InFiber 3, InFiber 3] \<and> \<not> aborted s"
proof -
  have "\<exists>ls s. exec_all two_workers
      [NewFiber 3, DoSubmit (ByFiber (Some 3)) (-1), Work 0 HOLD 5, Work 0 HOLD 5, Work 0 HOLD 5,
       Work 0 HOLD 5, Work 0 HOLD 5,
       DoSubmit (ByFiber (Some 3)) (-1), Work 1 HOLD 6, Work 1 HOLD 6, Work 1 HOLD 6,
       Work 0 HOLD 5,
       DoSubmit (ByFiber (Some 3)) (-1), Work 0 HOLD 5, Work 0 HOLD 5, Work 0 HOLD 5]
      = Some (ls, s) \<and> map w_pc (workers s) = [InFiber 3, InFiber 3] \<and> \<not> aborted s"
    by (simp add: exec_run)
  then show ?thesis by (rule exec_reach)
qed

end
