(* ===== verification/Scheduler_Lifecycle.thy ===== *)
theory Scheduler_Lifecycle
  imports Scheduler_Runs Fiber_Props
begin

text \<open>
  A scheduler from its construction to its destruction on the thread that made it
  (\<open>Scheduler(1, true, name)\<close>): the constructor, \<open>start\<close>, \<open>schedule\<close>, \<open>stop\<close>, the swap into the root fiber,
  \<open>run\<close> on that fiber, the swap back, the end of \<open>stop\<close> and the destructor.
\<close>

subsection \<open>Construction\<close>

definition fresh_scheduler :: "string \<Rightarrow> ptr \<Rightarrow> int \<Rightarrow> scheduler" where
  "fresh_scheduler name q tid =
     \<lparr>m_threads = [], m_tasks = [], m_rootFiber = Some q, m_name = name, m_threadIds = [tid],
      m_threadCount = 0, m_activeThreadCount = 0, m_idleThreadCount = 0, m_stopping = True,
      m_autoStop = False, m_rootThread = tid\<rparr>"

lemma ctor_caller:
  assumes "tsch t = None" and "locals w t = no_locals" and "p \<noteq> q"
  shows "\<exists>w0. Scheduler_ctor this 1 True name t tid tsch w p q k =
      Inr (fresh_scheduler name q tid, tsch(t := Some this), w0) \<and>
    locals w0 t = \<lparr>t_fiber = Some p, t_threadFiber = Some p, t_mainFiber = Some q\<rparr> \<and>
    fheap w0 p = Some \<lparr>f_id = 0, f_state = EXEC, f_ctx = Resume k, f_cb = None, f_main = True\<rparr> \<and>
    (\<exists>i. fheap w0 q = Some \<lparr>f_id = i, f_state = INIT, f_ctx = EntryPoint, f_cb = Some (BoundRun this), f_main = True\<rparr>)"
  using assms
  by (simp add: Scheduler_ctor_def fresh_scheduler_def Let_def GetThis_def no_locals_def new_main_fiber_def
      new_fiber_def SetThis_def set_fiber_def)

lemma start_caller:
  "start (fresh_scheduler name q tid) tids = Inr ((fresh_scheduler name q tid)\<lparr>m_stopping := False\<rparr>, [])"
  by (simp add: start_def fresh_scheduler_def Let_def)

text \<open>The root fiber is entered from the thread's main fiber and gives control back to it at its end.\<close>

lemma root_fiber_round:
  assumes l: "locals w t = \<lparr>t_fiber = Some p, t_threadFiber = Some p, t_mainFiber = Some q\<rparr>" and pq: "p \<noteq> q"
    and p: "fheap w p = Some fp" and q: "fheap w q = Some fq" "f_state fq = INIT" "f_ctx fq = EntryPoint"
      "f_cb fq = Some cb" "f_main fq"
  shows "\<exists>w1. swapIn w t q k = Inr (EntryPoint, w1) \<and> MainFunc_body w1 t r k' = Inr (Some cb, w1) \<and>
    (\<forall>w2. fheap w2 p = fheap w1 p \<and> fheap w2 q = fheap w1 q \<and> locals w2 t = locals w1 t \<longrightarrow>
       (\<exists>w3 f. MainFunc_finish w2 t q Returned k'' = Inr (Resume k, w3) \<and> fheap w3 q = Some f \<and>
          f_state f = FTERM \<and> f_cb f = None \<and> t_fiber (locals w3 t) = Some p))"
  using assms by (simp add: fiber_defs MainFunc_body_def)

subsection \<open>Stopping with work queued\<close>

definition plain_task :: "callback \<Rightarrow> task" where
  "plain_task f = \<lparr>task_fiber = None, task_cb = Some f, task_thread = -1\<rparr>"

definition stopped_scheduler :: "string \<Rightarrow> ptr \<Rightarrow> int \<Rightarrow> callback list \<Rightarrow> scheduler" where
  "stopped_scheduler name q tid fs =
     (fresh_scheduler name q tid)\<lparr>m_tasks := map plain_task fs, m_autoStop := True\<rparr>"

lemma submit_all:
  "\<exists>n fs'. schedule_range ((fresh_scheduler name q tid)\<lparr>m_stopping := False\<rparr>) (map (\<lambda>f. ByCbPtr (Some f)) fs) =
     (n, (fresh_scheduler name q tid)\<lparr>m_stopping := False, m_tasks := map plain_task fs\<rparr>, fs')"
proof -
  let ?s = "(fresh_scheduler name q tid)\<lparr>m_stopping := False\<rparr>"
  have "filter task_nonnull (map task_of (map (\<lambda>f. ByCbPtr (Some f)) fs)) = map plain_task fs"
    by (induction fs) (simp_all add: task_of_def task_nonnull_def plain_task_def)
  then have "fold enqueue (map (\<lambda>f. ByCbPtr (Some f)) fs) ?s = ?s\<lparr>m_tasks := map plain_task fs\<rparr>"
    unfolding fold_enqueue by (simp add: fresh_scheduler_def)
  then show ?thesis by (simp add: schedule_range_def schedule_loop_eq)
qed

lemma stop_caller:
  assumes "fs \<noteq> []" and "tid \<noteq> -1"
  shows "stop_enter stopping ((fresh_scheduler name q tid)\<lparr>m_stopping := False, m_tasks := map plain_task fs\<rparr>)
      INIT this (Some this) = Inr (StopGoesOn 1 True, stopped_scheduler name q tid fs)"
  using assms by (simp add: stop_enter_def fresh_scheduler_def stopped_scheduler_def stopping_def Let_def)

text \<open>
  C15. A scheduler that uses only the thread that made it runs everything and goes away cleanly. On a thread
  without a scheduler, the constructor, \<open>start\<close> and any number of submitted callbacks succeed; \<open>stop\<close> swaps
  in the root fiber, which is entered at \<open>run\<close>; there every callback runs exactly once, in the order of
  submission, and \<open>run\<close> ends after exactly six steps per callback and six more; the end of the root
  fiber gives control back to the place in \<open>stop\<close> it was entered from, whatever the callbacks did to other
  fibers; no thread is left to join, and the destructor passes its assertion and clears the thread's scheduler.
\<close>

theorem caller_scheduler_lifecycle:
  assumes tsch: "tsch t = None" and locals: "locals w t = no_locals" and pq: "p \<noteq> q" and tid: "tid \<noteq> -1"
    and fs: "fs \<noteq> []" and g: "g \<noteq> p" "g \<noteq> q"
  shows "\<exists>s0 ts w0 s1 s2 n fs' s3 w1 ls u.
    Scheduler_ctor this 1 True name t tid tsch w p q k = Inr (s0, ts, w0) \<and>
    start s0 tids = Inr (s1, []) \<and>
    schedule_range s1 (map (\<lambda>f. ByCbPtr (Some f)) fs) = (n, s2, fs') \<and>
    stop_enter stopping s2 INIT this (ts t) = Inr (StopGoesOn 1 True, s3) \<and>
    swapIn w0 t q k' = Inr (EntryPoint, w1) \<and> MainFunc_body w1 t r k'' = Inr (Some (BoundRun this), w1) \<and>
    exec_all \<lparr>sch = s3, fstates = [p \<mapsto> EXEC, q \<mapsto> EXEC],
        workers = [\<lparr>w_tid = tid, w_pc = Top, w_cbFiber = None, w_idle = INIT\<rparr>], aborted = False\<rparr>
      (replicate (6 * length fs + 6) (Work 0 FTERM g)) = Some (ls, u) \<and>
    filter (\<lambda>l. l \<noteq> Tau) ls = map (\<lambda>f. Started (plain_task f)) fs \<and>
    map w_pc (workers u) = [Exited] \<and> m_tasks (sch u) = [] \<and>
    (\<forall>w2. fheap w2 p = fheap w1 p \<and> fheap w2 q = fheap w1 q \<and> locals w2 t = locals w1 t \<longrightarrow>
       (\<exists>w3 f. MainFunc_finish w2 t q Returned kend = Inr (Resume k', w3) \<and> fheap w3 q = Some f \<and>
          f_state f = FTERM \<and> f_cb f = None \<and> t_fiber (locals w3 t) = Some p)) \<and>
    fst (stop_join (sch u)) = [] \<and> Scheduler_dtor (snd (stop_join (sch u))) this t ts = Inr tsch"
proof -
  let ?s0 = "fresh_scheduler name q tid" and ?s3 = "stopped_scheduler name q tid fs"
  let ?s1 = "?s0\<lparr>m_stopping := False\<rparr>" and ?ts = "tsch(t := Some this)"
  from ctor_caller [where tsch = tsch and t = t and this = this and name = name and tid = tid and k = k,
      OF tsch locals pq] obtain w0 i where ctor:
    "Scheduler_ctor this 1 True name t tid tsch w p q k = Inr (?s0, ?ts, w0)"
    and w0: "locals w0 t = \<lparr>t_fiber = Some p, t_threadFiber = Some p, t_mainFiber = Some q\<rparr>"
      "fheap w0 p = Some \<lparr>f_id = 0, f_state = EXEC, f_ctx = Resume k, f_cb = None, f_main = True\<rparr>"
      "fheap w0 q = Some \<lparr>f_id = i, f_state = INIT, f_ctx = EntryPoint, f_cb = Some (BoundRun this), f_main = True\<rparr>"
    by (elim exE conjE)
  from root_fiber_round [OF w0(1) pq w0(2,3), of "BoundRun this" k' r k'' kend] obtain w1 where fiber:
    "swapIn w0 t q k' = Inr (EntryPoint, w1)" "MainFunc_body w1 t r k'' = Inr (Some (BoundRun this), w1)"
    "\<forall>w2. fheap w2 p = fheap w1 p \<and> fheap w2 q = fheap w1 q \<and> locals w2 t = locals w1 t \<longrightarrow>
       (\<exists>w3 f. MainFunc_finish w2 t q Returned kend = Inr (Resume k', w3) \<and> fheap w3 q = Some f \<and>
          f_state f = FTERM \<and> f_cb f = None \<and> t_fiber (locals w3 t) = Some p)"
    by auto
  from submit_all [of name q tid fs] obtain n fs' where submit:
    "schedule_range ?s1 (map (\<lambda>f. ByCbPtr (Some f)) fs) = (n, ?s1\<lparr>m_tasks := map plain_task fs\<rparr>, fs')"
    by (elim exE)
  let ?w = "\<lparr>w_tid = tid, w_pc = Top, w_cbFiber = None, w_idle = INIT\<rparr>"
  let ?y = "\<lparr>sch = ?s3, fstates = [p \<mapsto> EXEC, q \<mapsto> EXEC], workers = [?w], aborted = False\<rparr>"
  have "ready_worker ?y ?w g" "\<forall>tk \<in> set (m_tasks (sch ?y)). own_cb (w_tid ?w) tk"
    "m_autoStop (sch ?y)" "m_stopping (sch ?y)" "m_activeThreadCount (sch ?y) = 0"
    using g by (auto simp: ready_worker_def own_cb_def plain_task_def stopped_scheduler_def fresh_scheduler_def)
  from stop_drains_queue [OF this] obtain ls u where run:
    "exec_all ?y (replicate (6 * length fs + 6) (Work 0 FTERM g)) = Some (ls, u)"
    "filter (\<lambda>l. l \<noteq> Tau) ls = map (\<lambda>f. Started (plain_task f)) fs"
    "map w_pc (workers u) = [Exited]" "sch u = ?s3\<lparr>m_tasks := []\<rparr>"
    by (auto simp: stopped_scheduler_def o_def)
  have tail: "m_tasks (sch u) = []" "fst (stop_join (sch u)) = []"
    "Scheduler_dtor (snd (stop_join (sch u))) this t ?ts = Inr tsch"
    using tsch by (simp_all add: run(4) stop_join_def Scheduler_dtor_def stopped_scheduler_def
        fresh_scheduler_def fun_upd_idem)
  have stop: "stop_enter stopping (?s1\<lparr>m_tasks := map plain_task fs\<rparr>) INIT this (?ts t) = Inr (StopGoesOn 1 True, ?s3)"
    using stop_caller [OF fs tid] by simp
  show ?thesis
    by (intro exI conjI) (rule ctor start_caller submit stop fiber run tail)+
qed

theorem caller_scheduler_lifecycle_witness:
  "\<exists>s0 ts w0 s3 ls u.
    Scheduler_ctor 1 1 True ''main'' 0 42 (\<lambda>_. None) initial_fibers 5 6 0 = Inr (s0, ts, w0) \<and>
    exec_all \<lparr>sch = s3, fstates = [5 \<mapsto> EXEC, 6 \<mapsto> EXEC],
        workers = [\<lparr>w_tid = 42, w_pc = Top, w_cbFiber = None, w_idle = INIT\<rparr>], aborted = False\<rparr>
      (replicate 18 (Work 0 FTERM 7)) = Some (ls, u) \<and>
    filter (\<lambda>l. l \<noteq> Tau) ls = map (\<lambda>f. Started (plain_task f)) [User 1, User 2] \<and>
    map w_pc (workers u) = [Exited] \<and>
    Scheduler_dtor (snd (stop_join (sch u))) 1 0 ts = Inr (\<lambda>_. None)"
proof -
  have none: "(\<lambda>_. None :: ptr option) (0 :: nat) = None" "locals initial_fibers 0 = no_locals" "(5 :: ptr) \<noteq> 6"
    "(42 :: int) \<noteq> -1" "[User 1, User 2] \<noteq> []" "(7 :: ptr) \<noteq> 5" "(7 :: ptr) \<noteq> 6"
    by (simp_all add: initial_fibers_def)
  have n: "6 * length [User 1, User 2] + 6 = 18" by simp
  from caller_scheduler_lifecycle [where tsch = "\<lambda>_. None" and t = 0 and this = 1 and name = "''main''" and k = 0
      and tids = "\<lambda>_. 0" and k' = 1 and r = 8 and k'' = 2 and kend = 3, OF none]
  show ?thesis unfolding n
    by (elim exE conjE) (intro exI conjI; assumption)
qed

end
