(* ===== verification/IOManagers.thy ===== *)
theory IOManagers
  imports Timers Scheduler_Props
begin

text \<open>
  \<open>wille/iomanager.h\<close> and \<open>wille/iomanager.cpp\<close>: the table of \<open>FdContext\<close> objects, the operations that
  register and remove events, and one round of the idle loop.

  The kernel is a parameter: \<open>ctl\<close> is \<open>epoll_ctl\<close> on an abstract kernel state, and what \<open>epoll_wait\<close>
  reports is an argument of \<open>idle_round\<close>. \<open>FdContext\<close> objects live in a heap, because the kernel
  keeps pointers to them that outlive the table. Schedulers are in a map, since an event goes to the
  scheduler of the thread that registered it; \<open>tickles\<close> lists the schedulers whose virtual
  \<open>tickle()\<close> was called. A failed assertion, a null pointer that is dereferenced and an index
  outside the table are errors. \<open>new\<close> takes the next unused address.
\<close>

subsection \<open>Events and contexts\<close>

abbreviation (input) NONE :: u32 where "NONE \<equiv> 0x0"
abbreviation (input) READ :: u32 where "READ \<equiv> 0x1"
abbreviation (input) WRITE :: u32 where "WRITE \<equiv> 0x4"

abbreviation (input) EPOLLIN :: u32 where "EPOLLIN \<equiv> 0x1"
abbreviation (input) EPOLLOUT :: u32 where "EPOLLOUT \<equiv> 0x4"
abbreviation (input) EPOLLERR :: u32 where "EPOLLERR \<equiv> 0x8"
abbreviation (input) EPOLLHUP :: u32 where "EPOLLHUP \<equiv> 0x10"
abbreviation (input) EPOLLET :: u32 where "EPOLLET \<equiv> 0x80000000"

record event_context =
  ec_scheduler :: "ptr option"
  ec_fiber :: "ptr option"
  ec_cb :: "callback option"

record fd_context =
  fc_read :: event_context
  fc_write :: event_context
  fc_fd :: int
  fc_events :: u32

definition empty_event_context :: event_context where
  "empty_event_context = \<lparr>ec_scheduler = None, ec_fiber = None, ec_cb = None\<rparr>"

definition new_fd_context :: "int \<Rightarrow> fd_context" where
  "new_fd_context i = \<lparr>fc_read = empty_event_context, fc_write = empty_event_context, fc_fd = i,
                       fc_events = NONE\<rparr>"

text \<open>\<open>getContext\<close>; \<open>None\<close> is the failed assertion. \<open>putContext\<close> stores through the reference.\<close>

definition getContext :: "fd_context \<Rightarrow> u32 \<Rightarrow> event_context option" where
  "getContext c event =
     (if event = READ then Some (fc_read c) else if event = WRITE then Some (fc_write c) else None)"

definition putContext :: "fd_context \<Rightarrow> u32 \<Rightarrow> event_context \<Rightarrow> fd_context" where
  "putContext c event x = (if event = READ then c\<lparr>fc_read := x\<rparr> else c\<lparr>fc_write := x\<rparr>)"

definition resetContext :: "event_context \<Rightarrow> event_context" where
  "resetContext ctx = ctx\<lparr>ec_scheduler := None, ec_fiber := None, ec_cb := None\<rparr>"

subsection \<open>The manager\<close>

datatype ctl_op = CTL_ADD | CTL_MOD | CTL_DEL

datatype epoll_data = TickleFd | CtxPtr ptr

type_synonym 'k epoll_ctl = "'k \<Rightarrow> ctl_op \<Rightarrow> int \<Rightarrow> u32 \<Rightarrow> epoll_data \<Rightarrow> int \<times> 'k"

record 'k iomanager =
  io_this :: ptr
  epoll :: 'k
  m_tickleFd :: int
  m_pendingEventCount :: u64
  m_fdContexts :: "ptr option list"
  fd_heap :: "ptr \<rightharpoonup> fd_context"
  next_addr :: ptr
  scheds :: "ptr \<rightharpoonup> scheduler"
  tickles :: "ptr list"
  io_timers :: timer_manager

datatype io_error = IoAssert | IoNull | IoBounds

type_synonym ('k, 'a) ioresult = "io_error + 'a \<times> 'k iomanager"

definition triggerEvent :: "'k iomanager \<Rightarrow> ptr \<Rightarrow> u32 \<Rightarrow> io_error + 'k iomanager" where
  "triggerEvent s p event =
     (case fd_heap s p of
        None \<Rightarrow> Inl IoNull
      | Some c \<Rightarrow>
          if fc_events c AND event = 0 then Inl IoAssert
          else let c1 = c\<lparr>fc_events := fc_events c AND NOT event\<rparr>
               in case getContext c1 event of
                    None \<Rightarrow> Inl IoAssert
                  | Some ctx \<Rightarrow>
                      (case ec_scheduler ctx of
                         None \<Rightarrow> Inl IoNull
                       | Some q \<Rightarrow>
                           (case scheds s q of
                              None \<Rightarrow> Inl IoNull
                            | Some sc \<Rightarrow>
                                let fc = (if ec_cb ctx \<noteq> None then ByCbPtr (ec_cb ctx)
                                          else ByFiberPtr (ec_fiber ctx));
                                    (need_tickle, sc', _) = schedule sc fc (-1);
                                    ctx1 = (if ec_cb ctx \<noteq> None then ctx\<lparr>ec_cb := None\<rparr>
                                            else ctx\<lparr>ec_fiber := None\<rparr>)
                                in Inr (s\<lparr>fd_heap := (fd_heap s)(p \<mapsto>
                                             putContext c1 event (ctx1\<lparr>ec_scheduler := None\<rparr>)),
                                          scheds := (scheds s)(q \<mapsto> sc'),
                                          tickles := (if need_tickle then tickles s @ [q]
                                                      else tickles s)\<rparr>))))"

text \<open>\<open>std::vector::resize\<close> and the loop that fills the null entries.\<close>

fun fill_contexts ::
  "nat \<Rightarrow> ptr option list \<Rightarrow> (ptr \<rightharpoonup> fd_context) \<Rightarrow> ptr \<Rightarrow>
     ptr option list \<times> (ptr \<rightharpoonup> fd_context) \<times> ptr" where
  "fill_contexts i [] h n = ([], h, n)"
| "fill_contexts i (Some p # cs) h n =
     (let (cs', h', n') = fill_contexts (Suc i) cs h n in (Some p # cs', h', n'))"
| "fill_contexts i (None # cs) h n =
     (let (cs', h', n') = fill_contexts (Suc i) cs (h(n \<mapsto> new_fd_context (int i))) (Suc n)
      in (Some n # cs', h', n'))"

definition contextResize :: "'k iomanager \<Rightarrow> nat \<Rightarrow> 'k iomanager" where
  "contextResize s new_size =
     (let cs = take new_size (m_fdContexts s) @ replicate (new_size - length (m_fdContexts s)) None;
          (cs', h', n') = fill_contexts 0 cs (fd_heap s) (next_addr s)
      in s\<lparr>m_fdContexts := cs', fd_heap := h', next_addr := n'\<rparr>)"

text \<open>
  The constructor, from the state the base classes have built; the second half of \<open>start()\<close> is
  \<open>Schedulers.start\<close> on the manager's own scheduler.
\<close>

definition IOManager_ctor ::
  "'k epoll_ctl \<Rightarrow> 'k \<Rightarrow> ptr \<Rightarrow> int \<Rightarrow> (ptr \<rightharpoonup> scheduler) \<Rightarrow> timer_manager \<Rightarrow> ptr \<Rightarrow> (nat \<Rightarrow> int) \<Rightarrow>
     io_error + 'k iomanager" where
  "IOManager_ctor ctl k this fd0 sc ti n new_tids =
     (let (rt, k') = ctl k CTL_ADD fd0 (EPOLLIN OR EPOLLET) TickleFd;
          s = \<lparr>io_this = this, epoll = k', m_tickleFd = fd0, m_pendingEventCount = 0, m_fdContexts = [],
               fd_heap = Map.empty, next_addr = n, scheds = sc, tickles = [], io_timers = ti\<rparr>
      in if rt \<noteq> 0 then Inl IoAssert
         else let s1 = contextResize s 32
              in case scheds s1 this of
                   None \<Rightarrow> Inl IoNull
                 | Some own \<Rightarrow> (case Schedulers.start own new_tids of
                                 Inl _ \<Rightarrow> Inl IoAssert
                               | Inr (own', _) \<Rightarrow> Inr (s1\<lparr>scheds := (scheds s1)(this \<mapsto> own')\<rparr>)))"

text \<open>
  The destructor, after \<open>stop()\<close> has returned and the descriptors are closed: the contexts in the
  table are deleted.
\<close>

fun delete_contexts :: "ptr option list \<Rightarrow> (ptr \<rightharpoonup> fd_context) \<Rightarrow> (ptr \<rightharpoonup> fd_context)" where
  "delete_contexts [] h = h"
| "delete_contexts (Some p # cs) h = delete_contexts cs (h(p := None))"
| "delete_contexts (None # cs) h = delete_contexts cs h"

definition IOManager_dtor :: "'k iomanager \<Rightarrow> 'k iomanager" where
  "IOManager_dtor s = s\<lparr>fd_heap := delete_contexts (m_fdContexts s) (fd_heap s)\<rparr>"

lemma delete_contexts_apply:
  "delete_contexts cs h p = (if Some p \<in> set cs then None else h p)"
  by (induction cs h rule: delete_contexts.induct) (auto simp: fun_upd_def)

subsection \<open>Registering and removing events\<close>

text \<open>
  \<open>addEvent\<close> in the stretches between which other threads can run: the look-up under the read lock,
  the growth of the table under the write lock, and the registration under the lock of the context.
  \<open>fd * 1.5\<close> converted to \<open>size_t\<close> is the integer part. \<open>current\<close> is \<open>Scheduler::GetThis()\<close> and
  \<open>cur\<close>, \<open>cur_state\<close> the running fiber.
\<close>

definition addEvent_lookup :: "'k iomanager \<Rightarrow> int \<Rightarrow> io_error + ptr option" where
  "addEvent_lookup s fd =
     (if int (length (m_fdContexts s)) > fd
      then (if fd < 0 then Inl IoBounds
            else case m_fdContexts s ! nat fd of None \<Rightarrow> Inl IoNull | Some p \<Rightarrow> Inr (Some p))
      else Inr None)"

definition addEvent_grow :: "'k iomanager \<Rightarrow> int \<Rightarrow> ('k, ptr) ioresult" where
  "addEvent_grow s fd =
     (let s1 = contextResize s (nat (fd * 3 div 2))
      in if nat fd < length (m_fdContexts s1)
         then (case m_fdContexts s1 ! nat fd of None \<Rightarrow> Inl IoNull | Some p \<Rightarrow> Inr (p, s1))
         else Inl IoBounds)"

definition addEvent_register ::
  "'k epoll_ctl \<Rightarrow> 'k iomanager \<Rightarrow> ptr \<Rightarrow> int \<Rightarrow> u32 \<Rightarrow> callback option \<Rightarrow> ptr option \<Rightarrow> ptr \<Rightarrow> fstate \<Rightarrow>
     ('k, bool) ioresult" where
  "addEvent_register ctl s p fd event cb current cur cur_state =
     (case fd_heap s p of
        None \<Rightarrow> Inl IoNull
      | Some c \<Rightarrow>
          if fc_events c AND event \<noteq> 0 then Inl IoAssert
          else let op = (if fc_events c \<noteq> 0 then CTL_MOD else CTL_ADD);
                   (rt, k) = ctl (epoll s) op fd (EPOLLET OR fc_events c OR event) (CtxPtr p);
                   s1 = s\<lparr>epoll := k\<rparr>
               in if rt \<noteq> 0 then Inr (False, s1)
                  else let s2 = s1\<lparr>m_pendingEventCount := m_pendingEventCount s1 + 1\<rparr>;
                           c1 = c\<lparr>fc_events := fc_events c OR event\<rparr>
                       in case getContext c1 event of
                            None \<Rightarrow> Inl IoAssert
                          | Some ctx \<Rightarrow>
                              if \<not> (ec_scheduler ctx = None \<and> ec_fiber ctx = None \<and> ec_cb ctx = None)
                              then Inl IoAssert
                              else let ctx1 = ctx\<lparr>ec_scheduler := current\<rparr>
                                   in if cb \<noteq> None
                                      then Inr (True, s2\<lparr>fd_heap := (fd_heap s2)(p \<mapsto>
                                                 putContext c1 event (ctx1\<lparr>ec_cb := cb\<rparr>))\<rparr>)
                                      else if cur_state = EXEC
                                      then Inr (True, s2\<lparr>fd_heap := (fd_heap s2)(p \<mapsto>
                                                 putContext c1 event (ctx1\<lparr>ec_fiber := Some cur\<rparr>))\<rparr>)
                                      else Inl IoAssert)"

definition addEvent ::
  "'k epoll_ctl \<Rightarrow> 'k iomanager \<Rightarrow> int \<Rightarrow> u32 \<Rightarrow> callback option \<Rightarrow> ptr option \<Rightarrow> ptr \<Rightarrow> fstate \<Rightarrow>
     ('k, bool) ioresult" where
  "addEvent ctl s fd event cb current cur cur_state =
     (case addEvent_lookup s fd of
        Inl e \<Rightarrow> Inl e
      | Inr (Some p) \<Rightarrow> addEvent_register ctl s p fd event cb current cur cur_state
      | Inr None \<Rightarrow>
          (case addEvent_grow s fd of
             Inl e \<Rightarrow> Inl e
           | Inr (p, s1) \<Rightarrow> addEvent_register ctl s1 p fd event cb current cur cur_state))"

text \<open>
  The other operations find the context under the read lock: \<open>None\<close> is the early return for a
  descriptor outside the table.
\<close>

definition find_context :: "'k iomanager \<Rightarrow> int \<Rightarrow> io_error + (ptr \<times> fd_context) option" where
  "find_context s fd =
     (if int (length (m_fdContexts s)) \<le> fd then Inr None
      else if fd < 0 then Inl IoBounds
      else case m_fdContexts s ! nat fd of
             None \<Rightarrow> Inl IoNull
           | Some p \<Rightarrow> (case fd_heap s p of None \<Rightarrow> Inl IoNull | Some c \<Rightarrow> Inr (Some (p, c))))"

definition delEvent :: "'k epoll_ctl \<Rightarrow> 'k iomanager \<Rightarrow> int \<Rightarrow> u32 \<Rightarrow> ('k, bool) ioresult" where
  "delEvent ctl s fd event =
     (case find_context s fd of
        Inl e \<Rightarrow> Inl e
      | Inr None \<Rightarrow> Inr (False, s)
      | Inr (Some (p, c)) \<Rightarrow>
          if fc_events c AND event = 0 then Inr (False, s)
          else let new_events = fc_events c AND NOT event;
                   op = (if new_events \<noteq> 0 then CTL_MOD else CTL_DEL);
                   (rt, k) = ctl (epoll s) op fd (EPOLLET OR new_events) (CtxPtr p);
                   c1 = c\<lparr>fc_events := new_events\<rparr>
               in case getContext c1 event of
                    None \<Rightarrow> Inl IoAssert
                  | Some ctx \<Rightarrow>
                      Inr (True, s\<lparr>epoll := k, m_pendingEventCount := m_pendingEventCount s - 1,
                                   fd_heap := (fd_heap s)(p \<mapsto> putContext c1 event (resetContext ctx))\<rparr>))"

definition cancelEvent :: "'k epoll_ctl \<Rightarrow> 'k iomanager \<Rightarrow> int \<Rightarrow> u32 \<Rightarrow> ('k, bool) ioresult" where
  "cancelEvent ctl s fd event =
     (case find_context s fd of
        Inl e \<Rightarrow> Inl e
      | Inr None \<Rightarrow> Inr (False, s)
      | Inr (Some (p, c)) \<Rightarrow>
          if fc_events c = 0 then Inr (False, s)
          else let new_events = fc_events c AND NOT event;
                   op = (if new_events \<noteq> 0 then CTL_MOD else CTL_DEL);
                   (rt, k) = ctl (epoll s) op fd (EPOLLET OR new_events) (CtxPtr p)
               in if rt \<noteq> 0 then Inr (False, s\<lparr>epoll := k\<rparr>)
                  else case triggerEvent (s\<lparr>epoll := k\<rparr>) p event of
                         Inl e \<Rightarrow> Inl e
                       | Inr s1 \<Rightarrow> Inr (True, s1\<lparr>m_pendingEventCount := m_pendingEventCount s1 - 1\<rparr>))"

text \<open>\<open>if(bits & event) { triggerEvent(event); --m_pendingEventCount; }\<close>, used four times.\<close>

definition trigger_if :: "u32 \<Rightarrow> u32 \<Rightarrow> ptr \<Rightarrow> 'k iomanager \<Rightarrow> io_error + 'k iomanager" where
  "trigger_if bits event p s =
     (if bits AND event = 0 then Inr s
      else case triggerEvent s p event of
             Inl e \<Rightarrow> Inl e
           | Inr s1 \<Rightarrow> Inr (s1\<lparr>m_pendingEventCount := m_pendingEventCount s1 - 1\<rparr>))"

definition events_at :: "'k iomanager \<Rightarrow> ptr \<Rightarrow> u32" where
  "events_at s p = (case fd_heap s p of None \<Rightarrow> 0 | Some c \<Rightarrow> fc_events c)"

definition cancelAll :: "'k epoll_ctl \<Rightarrow> 'k iomanager \<Rightarrow> int \<Rightarrow> ('k, bool) ioresult" where
  "cancelAll ctl s fd =
     (case find_context s fd of
        Inl e \<Rightarrow> Inl e
      | Inr None \<Rightarrow> Inr (False, s)
      | Inr (Some (p, c)) \<Rightarrow>
          if fc_events c = 0 then Inr (False, s)
          else let (rt, k) = ctl (epoll s) CTL_DEL fd 0 (CtxPtr p); s0 = s\<lparr>epoll := k\<rparr>
               in if rt \<noteq> 0 then Inr (False, s0)
                  else case trigger_if (events_at s0 p) READ p s0 of
                         Inl e \<Rightarrow> Inl e
                       | Inr s1 \<Rightarrow>
                           (case trigger_if (events_at s1 p) WRITE p s1 of
                              Inl e \<Rightarrow> Inl e
                            | Inr s2 \<Rightarrow> if events_at s2 p = 0 then Inr (True, s2) else Inl IoAssert))"

subsection \<open>Waking up, stopping and the idle loop\<close>

text \<open>\<open>tickle\<close> writes one byte into the pipe if a worker is idle; the result says whether it writes.\<close>

definition io_tickle :: "scheduler \<Rightarrow> bool" where
  "io_tickle own = hasIdleThreads own"

definition io_stopping :: "'k iomanager \<Rightarrow> u64 \<Rightarrow> (bool \<times> u64 \<times> 'k iomanager) option" where
  "io_stopping s now =
     (case scheds s (io_this s) of
        None \<Rightarrow> None
      | Some own \<Rightarrow>
          (let (timeout, ti) = getNextTimer (io_timers s) now
           in Some (timeout = NOT 0 \<and> stopping own \<and> m_pendingEventCount s = 0, timeout,
                    s\<lparr>io_timers := ti\<rparr>)))"

text \<open>
  The timeout handed to \<open>epoll_wait\<close>. \<open>(int)\<close> keeps the low 32 bits; the second cast is the argument
  conversion.
\<close>

definition to_int :: "u64 \<Rightarrow> int" where
  "to_int x = sint (ucast x :: u32)"

definition epoll_timeout :: "u64 \<Rightarrow> int" where
  "epoll_timeout next_timeout =
     (let next_timeout' = (if next_timeout = NOT 0 \<or> to_int next_timeout > 3000 then 3000 else next_timeout)
      in to_int next_timeout')"

text \<open>
  One event of the array \<open>epoll_wait\<close> has filled: the events of the context the reported bits stand
  for, and what is done about them.
\<close>

definition real_events :: "u32 \<Rightarrow> u32 \<Rightarrow> u32" where
  "real_events bits events =
     (let bits1 = (if bits AND (EPOLLERR OR EPOLLHUP) \<noteq> 0
                   then bits OR ((EPOLLIN OR EPOLLOUT) AND events) else bits)
      in (if bits1 AND EPOLLIN \<noteq> 0 then READ else NONE) OR
         (if bits1 AND EPOLLOUT \<noteq> 0 then WRITE else NONE))"

definition idle_event :: "'k epoll_ctl \<Rightarrow> 'k iomanager \<Rightarrow> epoll_data \<times> u32 \<Rightarrow> io_error + 'k iomanager" where
  "idle_event ctl s ev =
     (case ev of
        (TickleFd, _) \<Rightarrow> Inr s
      | (CtxPtr p, bits) \<Rightarrow>
          (case fd_heap s p of
             None \<Rightarrow> Inl IoNull
           | Some c \<Rightarrow>
               let real = real_events bits (fc_events c)
               in if fc_events c AND real = NONE then Inr s
                  else let left_events = fc_events c AND NOT real;
                           op = (if left_events \<noteq> 0 then CTL_MOD else CTL_DEL);
                           (rt2, k) = ctl (epoll s) op (fc_fd c) (EPOLLET OR left_events) (CtxPtr p);
                           s0 = s\<lparr>epoll := k\<rparr>
                       in if rt2 \<noteq> 0 then Inr s0
                          else case trigger_if real READ p s0 of
                                 Inl e \<Rightarrow> Inl e
                               | Inr s1 \<Rightarrow> trigger_if real WRITE p s1))"

fun idle_events ::
  "'k epoll_ctl \<Rightarrow> 'k iomanager \<Rightarrow> (epoll_data \<times> u32) list \<Rightarrow> io_error + 'k iomanager" where
  "idle_events ctl s [] = Inr s"
| "idle_events ctl s (ev # evs) =
     (case idle_event ctl s ev of Inl e \<Rightarrow> Inl e | Inr s1 \<Rightarrow> idle_events ctl s1 evs)"

text \<open>
  One round of \<open>idle\<close>: \<open>None\<close> is the exit from the loop. \<open>wait\<close> is \<open>epoll_wait\<close> as a function of
  the timeout; \<open>p\<close> is the address of the timer \<open>listExpiredCb\<close> allocates.
\<close>

definition schedule_expired :: "'k iomanager \<Rightarrow> callback option list \<Rightarrow> io_error + 'k iomanager" where
  "schedule_expired s cbs =
     (if cbs = [] then Inr s
      else case scheds s (io_this s) of
             None \<Rightarrow> Inl IoNull
           | Some own \<Rightarrow>
               (let (need_tickle, own', _) = schedule_range own (map ByCbPtr cbs)
                in Inr (s\<lparr>scheds := (scheds s)(io_this s \<mapsto> own'),
                          tickles := (if need_tickle then tickles s @ [io_this s] else tickles s)\<rparr>)))"

definition idle_round ::
  "'k epoll_ctl \<Rightarrow> 'k iomanager \<Rightarrow> u64 \<Rightarrow> (int \<Rightarrow> (epoll_data \<times> u32) list) \<Rightarrow> u64 \<Rightarrow> ptr \<Rightarrow>
     io_error + 'k iomanager option" where
  "idle_round ctl s now wait now2 p =
     (case io_stopping s now of
        None \<Rightarrow> Inl IoNull
      | Some (True, _, _) \<Rightarrow> Inr None
      | Some (False, next_timeout, s1) \<Rightarrow>
          (let evs = wait (epoll_timeout next_timeout);
               (cbs, ti) = listExpiredCb (io_timers s1) now2 p []
           in case schedule_expired (s1\<lparr>io_timers := ti\<rparr>) cbs of
                Inl e \<Rightarrow> Inl e
              | Inr s2 \<Rightarrow> (case idle_events ctl s2 evs of Inl e \<Rightarrow> Inl e | Inr s3 \<Rightarrow> Inr (Some s3))))"

end
