(* ===== verification/IO_Props.thy ===== *)
theory IO_Props
  imports IOManagers
begin

text \<open>
  The invariant of the I/O manager: the consistency of the context table and the exact count of
  pending events over every sequence of operations.
\<close>

subsection \<open>Contexts\<close>

definition events_ok :: "u32 \<Rightarrow> bool" where
  "events_ok e \<longleftrightarrow> e \<in> {0, 1, 4, 5}"

definition slot_ok :: "(ptr \<rightharpoonup> scheduler) \<Rightarrow> bool \<Rightarrow> event_context \<Rightarrow> bool" where
  "slot_ok sc on x \<longleftrightarrow>
     (if on then (\<exists>q \<in> dom sc. ec_scheduler x = Some q) \<and> (ec_cb x = None) \<noteq> (ec_fiber x = None)
      else x = empty_event_context)"

definition ctx_ok :: "(ptr \<rightharpoonup> scheduler) \<Rightarrow> fd_context \<Rightarrow> bool" where
  "ctx_ok sc c \<longleftrightarrow> events_ok (fc_events c) \<and> slot_ok sc (fc_events c AND READ \<noteq> 0) (fc_read c) \<and>
     slot_ok sc (fc_events c AND WRITE \<noteq> 0) (fc_write c)"

definition registered :: "fd_context \<Rightarrow> nat" where
  "registered c = (if fc_events c AND READ \<noteq> 0 then 1 else 0) + (if fc_events c AND WRITE \<noteq> 0 then 1 else 0)"

definition event_task :: "event_context \<Rightarrow> task" where
  "event_task x = \<lparr>task_fiber = ec_fiber x, task_cb = ec_cb x, task_thread = -1\<rparr>"

lemma events_cases:
  assumes "events_ok e"
  obtains "e = 0" | "e = 1" | "e = 4" | "e = 5"
  using assms by (auto simp: events_ok_def)

lemma putContext_sel [simp]:
  "fc_events (putContext c e x) = fc_events c" "fc_fd (putContext c e x) = fc_fd c"
  by (simp_all add: putContext_def)

lemma slot_task_nonnull: "slot_ok sc True x \<Longrightarrow> task_nonnull (event_task x)"
  by (auto simp: slot_ok_def task_nonnull_def event_task_def)

text \<open>Setting or clearing one event of a well-formed context.\<close>

lemma clear_event:
  assumes "ctx_ok sc c" and "e = READ \<or> e = WRITE" and "fc_events c AND e \<noteq> 0"
  shows "ctx_ok sc (putContext (c\<lparr>fc_events := fc_events c AND NOT e\<rparr>) e empty_event_context) \<and>
    registered c = Suc (registered (putContext (c\<lparr>fc_events := fc_events c AND NOT e\<rparr>) e x))"
  using assms
  by (auto simp: ctx_ok_def events_ok_def slot_ok_def registered_def putContext_def)

lemma set_event:
  assumes "ctx_ok sc c" and "e = READ \<or> e = WRITE" and "fc_events c AND e = 0" and "slot_ok sc True x"
  shows "ctx_ok sc (putContext (c\<lparr>fc_events := fc_events c OR e\<rparr>) e x) \<and>
    registered (putContext (c\<lparr>fc_events := fc_events c OR e\<rparr>) e x) = Suc (registered c) \<and>
    getContext c e = Some empty_event_context"
  using assms
  by (auto simp: ctx_ok_def events_ok_def slot_ok_def registered_def putContext_def getContext_def)

lemma registered_slot:
  assumes "ctx_ok sc c" and "e = READ \<or> e = WRITE" and "fc_events c AND e \<noteq> 0"
  shows "\<exists>x. getContext c e = Some x \<and> slot_ok sc True x"
  using assms by (auto simp: ctx_ok_def getContext_def)

lemma single_event:
  assumes "ctx_ok sc c" and "fc_events c AND e \<noteq> 0" and "getContext c e \<noteq> None"
  shows "e = READ \<or> e = WRITE"
  using assms by (auto simp: getContext_def split: if_splits)

subsection \<open>The invariant\<close>

definition registered_sum :: "(ptr \<rightharpoonup> fd_context) \<Rightarrow> nat" where
  "registered_sum h = (\<Sum>p \<in> dom h. registered (the (h p)))"

definition io_inv :: "'k iomanager \<Rightarrow> bool" where
  "io_inv s \<longleftrightarrow>
     dom (fd_heap s) \<subseteq> {..<next_addr s} \<and>
     (\<forall>i < length (m_fdContexts s). \<exists>p c. m_fdContexts s ! i = Some p \<and> fd_heap s p = Some c \<and> fc_fd c = int i) \<and>
     (\<forall>p c. fd_heap s p = Some c \<longrightarrow> ctx_ok (scheds s) c) \<and>
     m_pendingEventCount s = of_nat (registered_sum (fd_heap s)) \<and>
     io_this s \<in> dom (scheds s)"

lemma registered_sum_update:
  assumes "finite (dom h)" and "h p = Some c"
  shows "registered_sum (h(p \<mapsto> c')) + registered c = registered_sum h + registered c'"
proof -
  have d: "dom (h(p \<mapsto> c')) = dom h" using assms(2) by auto
  have "registered_sum (h(p \<mapsto> c')) = registered c' + (\<Sum>q \<in> dom h - {p}. registered (the (h q)))"
    unfolding registered_sum_def d using assms by (subst sum.remove [of _ p]) (auto intro: sum.cong)
  moreover have "registered_sum h = registered c + (\<Sum>q \<in> dom h - {p}. registered (the (h q)))"
    unfolding registered_sum_def using assms by (subst sum.remove [of _ p]) auto
  ultimately show ?thesis by simp
qed

lemma registered_sum_new:
  assumes "finite (dom h)" and "p \<notin> dom h" and "registered c = 0"
  shows "registered_sum (h(p \<mapsto> c)) = registered_sum h"
proof -
  have "(\<Sum>q \<in> dom h. registered (the ((h(p \<mapsto> c)) q))) = (\<Sum>q \<in> dom h. registered (the (h q)))"
    using assms(2) by (intro sum.cong) auto
  with assms show ?thesis by (simp add: registered_sum_def)
qed

lemma io_inv_finite: "io_inv s \<Longrightarrow> finite (dom (fd_heap s))"
  by (auto simp: io_inv_def intro: finite_subset)

lemma io_inv_ctx: "io_inv s \<Longrightarrow> fd_heap s p = Some c \<Longrightarrow> ctx_ok (scheds s) c"
  by (simp add: io_inv_def)

lemma io_inv_epoll [simp]: "io_inv (s\<lparr>epoll := k\<rparr>) = io_inv s"
  by (simp add: io_inv_def)

text \<open>Storing a context that registers one event more or one less moves the count with it.\<close>

lemma io_inv_store:
  assumes inv: "io_inv s" and c: "fd_heap s p = Some c"
    and ok: "ctx_ok (scheds s) c'" and fd: "fc_fd c' = fc_fd c"
    and dom: "dom sc = dom (scheds s)"
    and count: "n + of_nat (registered c) = m_pendingEventCount s + of_nat (registered c')"
  shows "io_inv (s\<lparr>fd_heap := (fd_heap s)(p \<mapsto> c'), m_pendingEventCount := n, scheds := sc,
                   tickles := ts\<rparr>)"
proof -
  let ?h = "(fd_heap s)(p \<mapsto> c')"
  have same: "ctx_ok sc x = ctx_ok (scheds s) x" for x
    by (simp add: ctx_ok_def slot_ok_def dom)
  have "of_nat (registered_sum ?h) + of_nat (registered c) =
      (of_nat (registered_sum (fd_heap s)) + of_nat (registered c') :: u64)"
    using registered_sum_update [OF io_inv_finite [OF inv] c, of c'] by (metis of_nat_add)
  moreover have "m_pendingEventCount s = of_nat (registered_sum (fd_heap s))"
    using inv by (simp add: io_inv_def)
  ultimately have "n = of_nat (registered_sum ?h)"
    using count by (metis add_right_cancel)
  moreover have "\<exists>q d. m_fdContexts s ! i = Some q \<and> ?h q = Some d \<and> fc_fd d = int i"
    if "i < length (m_fdContexts s)" for i
  proof -
    from inv that obtain q d where "m_fdContexts s ! i = Some q" "fd_heap s q = Some d" "fc_fd d = int i"
      unfolding io_inv_def by blast
    with c fd show ?thesis by (cases "q = p") auto
  qed
  ultimately show ?thesis
    using inv c ok dom unfolding io_inv_def by (auto simp: same)
qed

subsection \<open>Triggering\<close>

definition work_of :: "event_context \<Rightarrow> fiber_or_cb" where
  "work_of x = (if ec_cb x \<noteq> None then ByCbPtr (ec_cb x) else ByFiberPtr (ec_fiber x))"

lemma task_of_work: "slot_ok sc True x \<Longrightarrow> task_of (work_of x) = event_task x"
  by (auto simp: work_of_def task_of_def event_task_def slot_ok_def)

text \<open>The state after a registered event \<open>e\<close> of context \<open>c\<close> at \<open>p\<close> has been triggered.\<close>

definition triggered :: "'k iomanager \<Rightarrow> ptr \<Rightarrow> fd_context \<Rightarrow> u32 \<Rightarrow> ptr \<Rightarrow> scheduler \<Rightarrow> event_context \<Rightarrow> 'k iomanager" where
  "triggered s p c e q sc x = s\<lparr>
     fd_heap := (fd_heap s)(p \<mapsto> putContext (c\<lparr>fc_events := fc_events c AND NOT e\<rparr>) e empty_event_context),
     scheds := (scheds s)(q \<mapsto> enqueue (work_of x) sc),
     tickles := (if m_tasks sc = [] then tickles s @ [q] else tickles s)\<rparr>"

lemma getContext_events [simp]: "getContext (c\<lparr>fc_events := v\<rparr>) e = getContext c e"
  by (simp add: getContext_def)

lemma triggerEvent_eq:
  assumes "fd_heap s p = Some c" and "fc_events c AND e \<noteq> 0" and "getContext c e = Some x"
    and "slot_ok (scheds s) True x" and "ec_scheduler x = Some q" and "scheds s q = Some sc"
  shows "triggerEvent s p e = Inr (triggered s p c e q sc x)"
proof -
  have "(if ec_cb x \<noteq> None then x\<lparr>ec_cb := None\<rparr> else x\<lparr>ec_fiber := None\<rparr>)\<lparr>ec_scheduler := None\<rparr> =
      empty_event_context"
    using assms(4) by (cases x) (auto simp: slot_ok_def empty_event_context_def)
  then show ?thesis
    using assms unfolding triggered_def
    by (simp add: triggerEvent_def schedule_eq enqueue_def work_of_def split_beta Let_def scheduleNoLock_eq)
qed

lemma triggerEvent_ok:
  assumes "io_inv s" and "fd_heap s p = Some c" and "e = READ \<or> e = WRITE" and "fc_events c AND e \<noteq> 0"
  obtains q sc x where "triggerEvent s p e = Inr (triggered s p c e q sc x)" and "getContext c e = Some x"
    and "slot_ok (scheds s) True x" and "ec_scheduler x = Some q" and "scheds s q = Some sc"
    and "m_tasks (enqueue (work_of x) sc) = m_tasks sc @ [event_task x]"
proof -
  from registered_slot [OF io_inv_ctx [OF assms(1,2)] assms(3,4)]
  obtain x where x: "getContext c e = Some x" "slot_ok (scheds s) True x" by blast
  then obtain q sc where q: "ec_scheduler x = Some q" "scheds s q = Some sc"
    by (auto simp: slot_ok_def)
  have "m_tasks (enqueue (work_of x) sc) = m_tasks sc @ [event_task x]"
    using scheduler_queue.contents_enq [of "work_of x" sc]
    by (simp add: task_of_work [OF x(2)] slot_task_nonnull [OF x(2)])
  with that triggerEvent_eq [OF assms(2,4) x q] x q show thesis by blast
qed

definition count_down :: "'k iomanager \<Rightarrow> 'k iomanager" where
  "count_down s = s\<lparr>m_pendingEventCount := m_pendingEventCount s - 1\<rparr>"

lemma trigger_count_inv:
  assumes "io_inv s" and "fd_heap s p = Some c" and "e = READ \<or> e = WRITE" and "fc_events c AND e \<noteq> 0"
    and "scheds s q = Some sc"
  shows "io_inv (count_down (triggered s p c e q sc x))"
proof -
  let ?c = "putContext (c\<lparr>fc_events := fc_events c AND NOT e\<rparr>) e empty_event_context"
  have "ctx_ok (scheds s) ?c" "registered c = Suc (registered ?c)"
    using clear_event [OF io_inv_ctx [OF assms(1,2)] assms(3,4)] by blast+
  moreover have "count_down (triggered s p c e q sc x) =
      s\<lparr>fd_heap := (fd_heap s)(p \<mapsto> ?c), m_pendingEventCount := m_pendingEventCount s - 1,
        scheds := (scheds s)(q \<mapsto> enqueue (work_of x) sc),
        tickles := (if m_tasks sc = [] then tickles s @ [q] else tickles s)\<rparr>"
    unfolding count_down_def triggered_def by (rule iomanager.equality) simp_all
  ultimately show ?thesis
    using assms by (simp only:) (intro io_inv_store, auto simp: insert_absorb)
qed

lemma trigger_if_inv:
  assumes "io_inv s" and "e = READ \<or> e = WRITE" and "trigger_if bits e p s = Inr s'"
  shows "io_inv s'"
proof (cases "bits AND e = 0")
  case True
  with assms show ?thesis by (simp add: trigger_if_def)
next
  case False
  with assms(3) obtain s1 where s1: "triggerEvent s p e = Inr s1" "s' = count_down s1"
    by (auto simp: trigger_if_def count_down_def split: sum.splits)
  then obtain c where c: "fd_heap s p = Some c" "fc_events c AND e \<noteq> 0"
    by (auto simp: triggerEvent_def split: option.splits if_splits)
  from triggerEvent_ok [OF assms(1) c(1) assms(2) c(2)] obtain q sc x
    where t: "triggerEvent s p e = Inr (triggered s p c e q sc x)" "scheds s q = Some sc" .
  then have "s' = count_down (triggered s p c e q sc x)" using s1 by simp
  with trigger_count_inv [OF assms(1) c(1) assms(2) c(2) t(2)] show ?thesis by simp
qed

subsection \<open>The table\<close>

definition entries_ok :: "nat \<Rightarrow> ptr option list \<Rightarrow> (ptr \<rightharpoonup> fd_context) \<Rightarrow> bool" where
  "entries_ok i cs h \<longleftrightarrow>
     (\<forall>j p. j < length cs \<and> cs ! j = Some p \<longrightarrow> (\<exists>c. h p = Some c \<and> fc_fd c = int (i + j)))"

lemma entries_ok_Cons:
  "entries_ok i (x # cs) h \<longleftrightarrow>
     (\<forall>p. x = Some p \<longrightarrow> (\<exists>c. h p = Some c \<and> fc_fd c = int i)) \<and> entries_ok (Suc i) cs h"
  unfolding entries_ok_def by (auto simp: nth_Cons less_Suc_eq_0_disj ac_simps all_conj_distrib split: nat.splits)

lemma map_leD: "m \<subseteq>\<^sub>m m' \<Longrightarrow> m a = Some b \<Longrightarrow> m' a = Some b"
  by (force simp: map_le_def)

lemma entries_ok_mono:
  assumes "entries_ok i cs h" and "h \<subseteq>\<^sub>m h'"
  shows "entries_ok i cs h'"
proof -
  have "\<exists>c. h' p = Some c \<and> fc_fd c = int (i + j)" if "j < length cs" "cs ! j = Some p" for j p
  proof -
    from assms(1) that obtain c where c: "h p = Some c" "fc_fd c = int (i + j)"
      unfolding entries_ok_def by blast
    from map_leD [OF assms(2) c(1)] c(2) show ?thesis by blast
  qed
  then show ?thesis by (simp add: entries_ok_def)
qed

lemma fill_contexts_spec:
  assumes "fill_contexts i cs h n = (cs', h', n')" and "dom h \<subseteq> {..<n}" and "entries_ok i cs h"
  shows "h \<subseteq>\<^sub>m h' \<and> dom h' \<subseteq> {..<n'} \<and> length cs' = length cs \<and> None \<notin> set cs' \<and>
    entries_ok i cs' h' \<and> registered_sum h' = registered_sum h \<and>
    (\<forall>p c. h' p = Some c \<longrightarrow> h p = Some c \<or> (\<exists>j. c = new_fd_context j)) \<and>
    (\<forall>j p. j < length cs \<and> cs ! j = Some p \<longrightarrow> cs' ! j = Some p)"
  using assms
proof (induction i cs h n arbitrary: cs' h' n' rule: fill_contexts.induct)
  case (1 i h n)
  then show ?case by (simp add: entries_ok_def)
next
  case (2 i p cs h n)
  from 2(2) obtain ds where r: "fill_contexts (Suc i) cs h n = (ds, h', n')" "cs' = Some p # ds"
    by (auto split: prod.splits)
  from 2(4) obtain c where c: "h p = Some c" "fc_fd c = int i"
    by (auto simp: entries_ok_Cons)
  from 2(1) [OF r(1) 2(3)] 2(4) have ih: "h \<subseteq>\<^sub>m h'" "dom h' \<subseteq> {..<n'}" "length ds = length cs"
    "None \<notin> set ds" "entries_ok (Suc i) ds h'" "registered_sum h' = registered_sum h"
    "\<forall>p c. h' p = Some c \<longrightarrow> h p = Some c \<or> (\<exists>j. c = new_fd_context j)"
    "\<forall>j p. j < length cs \<and> cs ! j = Some p \<longrightarrow> ds ! j = Some p"
    by (simp_all add: entries_ok_Cons)
  have "entries_ok i cs' h'"
    using ih(5) c map_leD [OF ih(1) c(1)] by (simp add: r(2) entries_ok_Cons)
  with ih show ?case
    by (simp add: r(2) nth_Cons split: nat.splits)
next
  case (3 i cs h n)
  let ?h = "h(n \<mapsto> new_fd_context (int i))"
  from 3(2) obtain ds where r: "fill_contexts (Suc i) cs ?h (Suc n) = (ds, h', n')" "cs' = Some n # ds"
    by (auto split: prod.splits)
  have fresh: "n \<notin> dom h" using 3(3) by auto
  then have le: "h \<subseteq>\<^sub>m ?h" by (auto simp: map_le_def)
  have ent: "entries_ok (Suc i) cs ?h"
    using 3(4) entries_ok_mono [OF _ le] by (simp add: entries_ok_Cons)
  have dom: "dom ?h \<subseteq> {..<Suc n}" using 3(3) by auto
  from 3(1) [OF r(1) dom ent] have ih: "?h \<subseteq>\<^sub>m h'" "dom h' \<subseteq> {..<n'}" "length ds = length cs"
    "None \<notin> set ds" "entries_ok (Suc i) ds h'" "registered_sum h' = registered_sum ?h"
    "\<forall>p c. h' p = Some c \<longrightarrow> ?h p = Some c \<or> (\<exists>j. c = new_fd_context j)"
    "\<forall>j p. j < length cs \<and> cs ! j = Some p \<longrightarrow> ds ! j = Some p"
    by blast+
  have "registered_sum ?h = registered_sum h"
    using 3(3) fresh
    by (intro registered_sum_new) (auto simp: registered_def new_fd_context_def intro: finite_subset)
  moreover have "entries_ok i cs' h'"
    using ih(5) map_leD [OF ih(1), of n] by (simp add: r(2) entries_ok_Cons new_fd_context_def)
  moreover have "\<forall>p c. h' p = Some c \<longrightarrow> h p = Some c \<or> (\<exists>j. c = new_fd_context j)"
    using ih(7) by (auto split: if_splits)
  ultimately show ?case
    using ih map_le_trans [OF le ih(1)] by (simp add: r(2) nth_Cons split: nat.splits)
qed

lemma io_inv_entries:
  "io_inv s \<longleftrightarrow> dom (fd_heap s) \<subseteq> {..<next_addr s} \<and> entries_ok 0 (m_fdContexts s) (fd_heap s) \<and>
     None \<notin> set (m_fdContexts s) \<and>
     (\<forall>p c. fd_heap s p = Some c \<longrightarrow> ctx_ok (scheds s) c) \<and>
     m_pendingEventCount s = of_nat (registered_sum (fd_heap s)) \<and> io_this s \<in> dom (scheds s)"
proof -
  have "(\<forall>i < length cs. \<exists>p c. cs ! i = Some p \<and> h p = Some c \<and> fc_fd c = int i) \<longleftrightarrow>
      entries_ok 0 cs h \<and> None \<notin> set cs" for cs :: "ptr option list" and h
  proof
    assume l: "\<forall>i < length cs. \<exists>p c. cs ! i = Some p \<and> h p = Some c \<and> fc_fd c = int i"
    then have "entries_ok 0 cs h" by (fastforce simp: entries_ok_def)
    moreover have "None \<notin> set cs" using l by (auto simp: in_set_conv_nth)
    ultimately show "entries_ok 0 cs h \<and> None \<notin> set cs" by blast
  next
    assume r: "entries_ok 0 cs h \<and> None \<notin> set cs"
    show "\<forall>i < length cs. \<exists>p c. cs ! i = Some p \<and> h p = Some c \<and> fc_fd c = int i"
    proof (intro allI impI)
      fix i assume i: "i < length cs"
      with r obtain p where "cs ! i = Some p" by (metis nth_mem option.exhaust)
      with r i show "\<exists>p c. cs ! i = Some p \<and> h p = Some c \<and> fc_fd c = int i"
        by (auto simp: entries_ok_def)
    qed
  qed
  then show ?thesis unfolding io_inv_def by auto
qed

lemma ctx_ok_new: "ctx_ok sc (new_fd_context j)"
  by (simp add: ctx_ok_def new_fd_context_def slot_ok_def events_ok_def)

lemma contextResize_inv:
  assumes "io_inv s"
  shows "io_inv (contextResize s n)"
    and "length (m_fdContexts (contextResize s n)) = n"
proof -
  let ?cs = "take n (m_fdContexts s) @ replicate (n - length (m_fdContexts s)) None"
  obtain cs' h' n' where f: "fill_contexts 0 ?cs (fd_heap s) (next_addr s) = (cs', h', n')"
    by (metis prod_cases3)
  have "entries_ok 0 ?cs (fd_heap s)"
    using assms unfolding io_inv_entries entries_ok_def by (auto simp: nth_append split: if_splits)
  from fill_contexts_spec [OF f _ this] assms show "io_inv (contextResize s n)"
    unfolding contextResize_def f Let_def io_inv_entries by (fastforce simp: ctx_ok_new)
  from fill_contexts_spec [OF f _ \<open>entries_ok 0 ?cs (fd_heap s)\<close>] assms
  show "length (m_fdContexts (contextResize s n)) = n"
    unfolding contextResize_def f Let_def io_inv_entries by auto
qed

subsection \<open>The operations keep the invariant\<close>

lemma find_context_SomeD:
  "find_context s fd = Inr (Some (p, c)) \<Longrightarrow> fd_heap s p = Some c"
  by (auto simp: find_context_def split: if_splits option.splits)

lemma find_context_inv:
  assumes "io_inv s" and "0 \<le> fd"
  obtains (outside) "int (length (m_fdContexts s)) \<le> fd" and "find_context s fd = Inr None"
  | (inside) p c where "fd < int (length (m_fdContexts s))" and "find_context s fd = Inr (Some (p, c))"
      and "fd_heap s p = Some c" and "fc_fd c = fd" and "m_fdContexts s ! nat fd = Some p"
      and "addEvent_lookup s fd = Inr (Some p)"
proof (cases "int (length (m_fdContexts s)) \<le> fd")
  case True
  with outside show ?thesis by (simp add: find_context_def)
next
  case False
  with assms have "nat fd < length (m_fdContexts s)" by linarith
  with assms(1) obtain p c where "m_fdContexts s ! nat fd = Some p" "fd_heap s p = Some c"
    "fc_fd c = int (nat fd)" unfolding io_inv_def by blast
  with inside [of p c] False assms(2) show ?thesis
    by (simp add: find_context_def addEvent_lookup_def)
qed

lemma addEvent_grow_inv: "io_inv s \<Longrightarrow> addEvent_grow s fd = Inr (p, s') \<Longrightarrow> io_inv s'"
  using contextResize_inv(1) [of s "nat (fd * 3 div 2)"]
  by (auto simp: addEvent_grow_def Let_def split: if_splits option.splits)

lemma slot_ok_new:
  "q \<in> dom sc \<Longrightarrow> (cb = None) \<noteq> (f = None) \<Longrightarrow>
     slot_ok sc True \<lparr>ec_scheduler = Some q, ec_fiber = f, ec_cb = cb\<rparr>"
  by (auto simp: slot_ok_def)

text \<open>A successful registration, written out.\<close>

definition registration :: "callback option \<Rightarrow> ptr option \<Rightarrow> ptr \<Rightarrow> event_context" where
  "registration cb current cur =
     \<lparr>ec_scheduler = current, ec_fiber = (if cb = None then Some cur else None), ec_cb = cb\<rparr>"

lemma addEvent_register_eq:
  assumes c: "fd_heap s p = Some c" and ok: "ctx_ok (scheds s) c" and e: "e = READ \<or> e = WRITE"
    and free: "fc_events c AND e = 0" and st: "cb \<noteq> None \<or> st = EXEC"
    and ctl: "ctl (epoll s) (if fc_events c \<noteq> 0 then CTL_MOD else CTL_ADD) fd (EPOLLET OR fc_events c OR e)
                (CtxPtr p) = (rt, k)"
  shows "addEvent_register ctl s p fd e cb current cur st =
    (if rt \<noteq> 0 then Inr (False, s\<lparr>epoll := k\<rparr>)
     else Inr (True, s\<lparr>epoll := k, m_pendingEventCount := m_pendingEventCount s + 1,
       fd_heap := (fd_heap s)(p \<mapsto> putContext (c\<lparr>fc_events := fc_events c OR e\<rparr>) e
                                (registration cb current cur))\<rparr>))"
proof -
  have "getContext c e = Some empty_event_context"
    using ok e free by (auto simp: ctx_ok_def slot_ok_def getContext_def)
  with assms show ?thesis
    by (auto simp: addEvent_register_def Let_def registration_def empty_event_context_def)
qed

lemma addEvent_register_inv:
  assumes inv: "io_inv s" and p: "fd_heap s p = Some c" and q: "q \<in> dom (scheds s)"
    and res: "addEvent_register ctl s p fd e cb (Some q) cur st = Inr (b, s')"
  shows "io_inv s'"
proof -
  obtain rt k where ctl: "ctl (epoll s) (if fc_events c \<noteq> 0 then CTL_MOD else CTL_ADD) fd
      (EPOLLET OR fc_events c OR e) (CtxPtr p) = (rt, k)" by fastforce
  have free: "fc_events c AND e = 0"
    using res p by (auto simp: addEvent_register_def split: if_splits)
  show ?thesis
  proof (cases "rt = 0")
    case False
    with res p ctl free have "s' = s\<lparr>epoll := k\<rparr>"
      by (auto simp: addEvent_register_def)
    with inv show ?thesis by simp
  next
    case True
    with res p ctl free have e: "e = READ \<or> e = WRITE" and st: "cb \<noteq> None \<or> st = EXEC"
      by (auto simp: addEvent_register_def Let_def getContext_def split: option.splits if_splits)
    note ok = io_inv_ctx [OF inv p]
    let ?c = "putContext (c\<lparr>fc_events := fc_events c OR e\<rparr>) e (registration cb (Some q) cur)"
    have s': "s' = s\<lparr>epoll := k, m_pendingEventCount := m_pendingEventCount s + 1,
        fd_heap := (fd_heap s)(p \<mapsto> ?c)\<rparr>"
      using addEvent_register_eq [where ctl = ctl, OF p ok e free st ctl, of "Some q" cur] res True by simp
    also have "\<dots> = (s\<lparr>epoll := k\<rparr>)\<lparr>fd_heap := (fd_heap (s\<lparr>epoll := k\<rparr>))(p \<mapsto> ?c),
        m_pendingEventCount := m_pendingEventCount s + 1, scheds := scheds s, tickles := tickles s\<rparr>"
      by (rule iomanager.equality) simp_all
    finally have s'_eq: "s' = \<dots>" .
    have "slot_ok (scheds s) True (registration cb (Some q) cur)"
      unfolding registration_def using q by (intro slot_ok_new) auto
    from set_event [OF ok e free this] inv p show ?thesis
      unfolding s'_eq by (intro io_inv_store) auto
  qed
qed

lemma delEvent_inv:
  assumes inv: "io_inv s" and res: "delEvent ctl s fd e = Inr (b, s')"
  shows "io_inv s'"
proof (cases "find_context s fd")
  case (Inl _)
  with res show ?thesis by (simp add: delEvent_def)
next
  case (Inr r)
  show ?thesis
  proof (cases r)
    case None
    with res Inr inv show ?thesis by (simp add: delEvent_def)
  next
    case (Some pc)
    obtain p c where pc: "pc = (p, c)" by fastforce
    with Inr Some have f: "find_context s fd = Inr (Some (p, c))" by simp
    note c = find_context_SomeD [OF f] and ok = io_inv_ctx [OF inv find_context_SomeD [OF f]]
    show ?thesis
    proof (cases "fc_events c AND e = 0")
      case True
      with res f inv show ?thesis by (simp add: delEvent_def)
    next
      case False
      obtain rt k where ctl: "ctl (epoll s) (if fc_events c AND NOT e \<noteq> 0 then CTL_MOD else CTL_DEL) fd
          (EPOLLET OR fc_events c AND NOT e) (CtxPtr p) = (rt, k)" by fastforce
      from False res f have "getContext c e \<noteq> None"
        by (auto simp: delEvent_def Let_def split: prod.splits option.splits)
      with single_event [OF ok False] obtain x where e: "e = READ \<or> e = WRITE" "getContext c e = Some x"
        by blast
      let ?c = "putContext (c\<lparr>fc_events := fc_events c AND NOT e\<rparr>) e empty_event_context"
      have "resetContext x = empty_event_context"
        by (cases x) (simp add: resetContext_def empty_event_context_def)
      with False res f e ctl have "s' = s\<lparr>epoll := k, m_pendingEventCount := m_pendingEventCount s - 1,
          fd_heap := (fd_heap s)(p \<mapsto> ?c)\<rparr>"
        by (simp add: delEvent_def Let_def)
      also have "\<dots> = (s\<lparr>epoll := k\<rparr>)\<lparr>fd_heap := (fd_heap (s\<lparr>epoll := k\<rparr>))(p \<mapsto> ?c),
          m_pendingEventCount := m_pendingEventCount s - 1, scheds := scheds s, tickles := tickles s\<rparr>"
        by (rule iomanager.equality) simp_all
      finally have s'_eq: "s' = \<dots>" .
      from clear_event [OF ok e(1) False, of empty_event_context] inv c show ?thesis
        unfolding s'_eq by (intro io_inv_store) auto
    qed
  qed
qed

lemma cancelEvent_inv:
  assumes inv: "io_inv s" and res: "cancelEvent ctl s fd e = Inr (b, s')"
  shows "io_inv s'"
proof (cases "b")
  case False
  with res inv show ?thesis
    by (auto simp: cancelEvent_def Let_def split: sum.splits option.splits if_splits prod.splits)
next
  case True
  with res obtain p k s1 where t: "triggerEvent (s\<lparr>epoll := k\<rparr>) p e = Inr s1"
    and s': "s' = s1\<lparr>m_pendingEventCount := m_pendingEventCount s1 - 1\<rparr>"
    by (auto simp: cancelEvent_def Let_def split: sum.splits option.splits if_splits prod.splits)
  from t obtain c where c: "fd_heap s p = Some c" "fc_events c AND e \<noteq> 0" "getContext c e \<noteq> None"
    by (auto simp: triggerEvent_def Let_def split: option.splits if_splits)
  with single_event [OF io_inv_ctx [OF inv]] have e: "e = READ \<or> e = WRITE" by blast
  then have "trigger_if e e p (s\<lparr>epoll := k\<rparr>) = Inr s'"
    using t s' by (auto simp: trigger_if_def)
  with trigger_if_inv [OF _ e] inv show ?thesis by (metis io_inv_epoll)
qed

lemma cancelAll_inv:
  assumes inv: "io_inv s" and res: "cancelAll ctl s fd = Inr (b, s')"
  shows "io_inv s'"
proof (cases "b")
  case False
  with res inv show ?thesis
    by (auto simp: cancelAll_def Let_def split: sum.splits option.splits if_splits prod.splits)
next
  case True
  with res obtain p k s1 where t: "trigger_if (events_at (s\<lparr>epoll := k\<rparr>) p) READ p (s\<lparr>epoll := k\<rparr>) = Inr s1"
    "trigger_if (events_at s1 p) WRITE p s1 = Inr s'"
    by (auto simp: cancelAll_def Let_def split: sum.splits option.splits if_splits prod.splits)
  have "io_inv s1" using trigger_if_inv [OF _ _ t(1)] inv by simp
  with trigger_if_inv [OF _ _ t(2)] show ?thesis by simp
qed

lemma idle_event_cases:
  assumes "idle_event ctl s ev = Inr s'"
  obtains "s' = s" | k where "s' = s\<lparr>epoll := k\<rparr>"
    | k r p s1 where "trigger_if r READ p (s\<lparr>epoll := k\<rparr>) = Inr s1" "trigger_if r WRITE p s1 = Inr s'"
proof (cases ev)
  case (Pair d bits)
  show ?thesis
  proof (cases d)
    case TickleFd
    with assms Pair that(1) show ?thesis by (simp add: idle_event_def)
  next
    case (CtxPtr p)
    with assms Pair obtain c where c: "fd_heap s p = Some c"
      by (auto simp: idle_event_def split: option.splits)
    define r where "r = real_events bits (fc_events c)"
    obtain rt k where ctl: "ctl (epoll s) (if fc_events c AND NOT r \<noteq> 0 then CTL_MOD else CTL_DEL) (fc_fd c)
        (EPOLLET OR fc_events c AND NOT r) (CtxPtr p) = (rt, k)" by fastforce
    have "fc_events c AND r = NONE \<and> s' = s \<or> s' = s\<lparr>epoll := k\<rparr> \<or>
        (\<exists>s1. trigger_if r READ p (s\<lparr>epoll := k\<rparr>) = Inr s1 \<and> trigger_if r WRITE p s1 = Inr s')"
      using assms Pair CtxPtr c ctl
      by (auto simp: idle_event_def Let_def simp flip: r_def split: if_splits sum.splits)
    with that show ?thesis by blast
  qed
qed

lemma idle_event_inv:
  assumes inv: "io_inv s" and res: "idle_event ctl s ev = Inr s'"
  shows "io_inv s'"
  using res
proof (cases rule: idle_event_cases)
  case (3 k r p s1)
  have "io_inv s1" using trigger_if_inv [OF _ _ 3(1)] inv by simp
  with trigger_if_inv [OF _ _ 3(2)] show ?thesis by simp
qed (use inv in simp_all)

lemma schedule_expired_eq:
  assumes "io_this s \<in> dom (scheds s)"
  shows "\<exists>sc ts. schedule_expired s cbs = Inr (s\<lparr>scheds := sc, tickles := ts\<rparr>) \<and> dom sc = dom (scheds s)"
proof (cases "cbs = []")
  case True
  then show ?thesis
    by (intro exI [of _ "scheds s"] exI [of _ "tickles s"]) (simp add: schedule_expired_def)
next
  case False
  from assms obtain own where own: "scheds s (io_this s) = Some own" by blast
  obtain need own' cs where r: "schedule_range own (map ByCbPtr cbs) = (need, own', cs)"
    by (metis prod_cases3)
  from False own r have "schedule_expired s cbs = Inr (s\<lparr>scheds := (scheds s)(io_this s \<mapsto> own'),
      tickles := (if need then tickles s @ [io_this s] else tickles s)\<rparr>)"
    by (simp add: schedule_expired_def)
  moreover have "dom ((scheds s)(io_this s \<mapsto> own')) = dom (scheds s)" using assms by auto
  ultimately show ?thesis by blast
qed

lemma io_inv_scheds:
  "io_inv s \<Longrightarrow> dom sc = dom (scheds s) \<Longrightarrow> io_inv (s\<lparr>scheds := sc, tickles := ts\<rparr>)"
  by (simp add: io_inv_def ctx_ok_def slot_ok_def)

lemma io_inv_timers [simp]: "io_inv (s\<lparr>io_timers := ti\<rparr>) = io_inv s"
  by (simp add: io_inv_def)

text \<open>
  The steps of any number of threads on one manager. \<open>addEvent\<close> is two of them, because the table is
  unlocked in between, and each event of an idle round is one. The workers of the schedulers and the
  timers move on their own.
\<close>

inductive io_step :: "'k epoll_ctl \<Rightarrow> 'k iomanager \<Rightarrow> 'k iomanager \<Rightarrow> bool" for ctl where
  grow: "32 \<le> fd \<Longrightarrow> addEvent_grow s fd = Inr (p, s') \<Longrightarrow> io_step ctl s s'"
| register: "fd_heap s p = Some c \<Longrightarrow> q \<in> dom (scheds s) \<Longrightarrow>
    addEvent_register ctl s p (fc_fd c) e cb (Some q) cur st = Inr (b, s') \<Longrightarrow> io_step ctl s s'"
| del: "delEvent ctl s fd e = Inr (b, s') \<Longrightarrow> io_step ctl s s'"
| cancel: "cancelEvent ctl s fd e = Inr (b, s') \<Longrightarrow> io_step ctl s s'"
| cancel_all: "cancelAll ctl s fd = Inr (b, s') \<Longrightarrow> io_step ctl s s'"
| event: "idle_event ctl s ev = Inr s' \<Longrightarrow> io_step ctl s s'"
| schedulers: "dom sc = dom (scheds s) \<Longrightarrow> io_step ctl s (s\<lparr>scheds := sc, tickles := ts\<rparr>)"
| timers: "io_step ctl s (s\<lparr>io_timers := ti\<rparr>)"

lemma io_step_inv: "io_step ctl s s' \<Longrightarrow> io_inv s \<Longrightarrow> io_inv s'"
proof (induction rule: io_step.induct)
  case (register s p c q e cb cur st b s')
  from addEvent_register_inv [OF register.prems register.hyps] show ?case .
next
  case (schedulers sc s ts)
  then show ?case by (intro io_inv_scheds)
qed (auto intro: addEvent_grow_inv delEvent_inv cancelEvent_inv cancelAll_inv idle_event_inv)

lemma IOManager_ctor_inv:
  assumes "IOManager_ctor ctl k this fd0 sc ti n new_tids = Inr s"
  shows "io_inv s \<and> length (m_fdContexts s) = 32"
proof -
  obtain rt k' where ctl: "ctl k CTL_ADD fd0 (EPOLLIN OR EPOLLET) TickleFd = (rt, k')" by fastforce
  define s0 where "s0 = \<lparr>io_this = this, epoll = k', m_tickleFd = fd0, m_pendingEventCount = 0,
      m_fdContexts = [], fd_heap = Map.empty, next_addr = n, scheds = sc, tickles = [], io_timers = ti\<rparr>"
  from assms ctl obtain own own' ns where s: "scheds (contextResize s0 32) this = Some own"
    "s = (contextResize s0 32)\<lparr>scheds := (scheds (contextResize s0 32))(this \<mapsto> own')\<rparr>"
    by (auto simp: IOManager_ctor_def Let_def simp flip: s0_def
        split: if_splits option.splits sum.splits prod.splits)
  have sc: "scheds (contextResize s0 32) = sc" "io_this (contextResize s0 32) = this"
    "tickles (contextResize s0 32) = []"
    by (simp_all add: contextResize_def s0_def Let_def split: prod.splits)
  with s have inv0: "io_inv s0"
    by (auto simp: s0_def io_inv_def registered_sum_def)
  have "io_inv ((contextResize s0 32)\<lparr>scheds := sc(this \<mapsto> own'), tickles := []\<rparr>)"
    using contextResize_inv(1) [OF inv0, of 32] s(1) sc by (intro io_inv_scheds) auto
  moreover have "(contextResize s0 32)\<lparr>scheds := sc(this \<mapsto> own'), tickles := []\<rparr> = s"
    unfolding s(2) sc(1) by (rule iomanager.equality) (simp_all add: sc)
  ultimately show ?thesis
    using contextResize_inv(2) [OF inv0, of 32] s(2) by simp
qed

definition io_started :: "'k epoll_ctl \<Rightarrow> 'k iomanager \<Rightarrow> bool" where
  "io_started ctl s \<longleftrightarrow>
     (\<exists>k this fd0 sc ti n new_tids. IOManager_ctor ctl k this fd0 sc ti n new_tids = Inr s)"

interpretation io: transition_inv "io_started ctl" "io_step ctl" io_inv for ctl :: "'k epoll_ctl"
  by unfold_locales (auto simp: io_started_def dest: IOManager_ctor_inv intro: io_step_inv)

definition has_event :: "'k iomanager \<Rightarrow> ptr \<times> u32 \<Rightarrow> bool" where
  "has_event s pe \<longleftrightarrow> (case pe of (p, e) \<Rightarrow> (e = READ \<or> e = WRITE) \<and> events_at s p AND e \<noteq> 0)"

lemma registered_sum_card:
  assumes "io_inv s"
  shows "registered_sum (fd_heap s) = card (Collect (has_event s))"
proof -
  let ?ev = "\<lambda>p. {e. has_event s (p, e)}"
  have reg: "registered (the (fd_heap s p)) = card (?ev p)" if p: "p \<in> dom (fd_heap s)" for p
  proof -
    from p obtain c where c: "fd_heap s p = Some c" by blast
    have "?ev p = (if fc_events c AND READ \<noteq> 0 then {READ} else {}) \<union>
        (if fc_events c AND WRITE \<noteq> 0 then {WRITE} else {})"
      using c by (auto simp: has_event_def events_at_def)
    then show ?thesis by (simp add: registered_def c)
  qed
  have fin: "finite (?ev p)" for p
    by (rule finite_subset [of _ "{READ, WRITE}"]) (auto simp: has_event_def)
  have "Collect (has_event s) = (SIGMA p:dom (fd_heap s). ?ev p)"
    by (auto simp: has_event_def events_at_def split: option.splits)
  then have "card (Collect (has_event s)) = (\<Sum>p \<in> dom (fd_heap s). card (?ev p))"
    using io_inv_finite [OF assms] fin by (simp add: card_SigmaI)
  also have "\<dots> = registered_sum (fd_heap s)"
    unfolding registered_sum_def using reg by (intro sum.cong) auto
  finally show ?thesis by simp
qed

text \<open>
  C18. From the constructor, over every interleaving of the operations of any threads, of the idle
  loop and of the kernel's answers, \<open>m_pendingEventCount\<close> is exactly the number of registered events
  (modulo 2 to the 64), every entry of the table is a context for its own descriptor, and an event
  is registered exactly if its slot holds a scheduler and either a callback or a fiber, not both.
\<close>

theorem pending_count_exact:
  assumes "io_started ctl s0" and "(io_step ctl)\<^sup>*\<^sup>* s0 s"
  shows "m_pendingEventCount s = of_nat (card (Collect (has_event s))) \<and>
    (\<forall>i < length (m_fdContexts s). \<exists>p c. m_fdContexts s ! i = Some p \<and> fd_heap s p = Some c \<and> fc_fd c = int i) \<and>
    (\<forall>p c. fd_heap s p = Some c \<longrightarrow>
       slot_ok (scheds s) (has_event s (p, READ)) (fc_read c) \<and>
       slot_ok (scheds s) (has_event s (p, WRITE)) (fc_write c))"
proof -
  have inv: "io_inv s" using io.reachable_inv assms by blast
  then have "m_pendingEventCount s = of_nat (card (Collect (has_event s)))"
    unfolding registered_sum_card [OF inv, symmetric] by (simp add: io_inv_def)
  moreover have "slot_ok (scheds s) (has_event s (p, READ)) (fc_read c) \<and>
      slot_ok (scheds s) (has_event s (p, WRITE)) (fc_write c)" if "fd_heap s p = Some c" for p c
    using io_inv_ctx [OF inv that] that by (simp add: ctx_ok_def has_event_def events_at_def)
  ultimately show ?thesis
    using inv unfolding io_inv_def by blast
qed

end
