(* ===== verification/IO_Events.thy ===== *)
theory IO_Events
  imports IO_Props
begin

text \<open>
  What single operations of the I/O manager do to the events, the queues and the kernel: round
  trips, the conditions under which they abort, the dispatch of reported events and the timeout of
  the idle loop.
\<close>

subsection \<open>A concrete manager\<close>

text \<open>A kernel that accepts every request, a pool scheduler at address 1 and an empty table of 32 contexts.\<close>

definition quiet_kernel :: "unit epoll_ctl" where
  "quiet_kernel k op fd bits d = (0, k)"

definition pool :: scheduler where
  "pool = \<lparr>m_threads = [], m_tasks = [], m_rootFiber = None, m_name = ''io'', m_threadIds = [],
           m_threadCount = 1, m_activeThreadCount = 0, m_idleThreadCount = 0, m_stopping = True,
           m_autoStop = False, m_rootThread = -1\<rparr>"

definition fresh_io :: "unit iomanager" where
  "fresh_io = (case IOManager_ctor quiet_kernel () 1 3 [1 \<mapsto> pool] (new_timer_manager 0) 100 (\<lambda>i. 20 + int i) of
     Inr s \<Rightarrow> s
   | Inl _ \<Rightarrow> \<lparr>io_this = 0, epoll = (), m_tickleFd = 0, m_pendingEventCount = 0, m_fdContexts = [],
               fd_heap = Map.empty, next_addr = 0, scheds = Map.empty, tickles = [],
               io_timers = new_timer_manager 0\<rparr>)"

lemma fresh_io_ctor:
  "IOManager_ctor quiet_kernel () 1 3 [1 \<mapsto> pool] (new_timer_manager 0) 100 (\<lambda>i. 20 + int i) = Inr fresh_io"
proof -
  have "scheds (contextResize s 32) = scheds s" for s :: "unit iomanager"
    by (simp add: contextResize_def Let_def split: prod.splits)
  then have "\<exists>s. IOManager_ctor quiet_kernel () 1 3 [1 \<mapsto> pool] (new_timer_manager 0) 100
      (\<lambda>i. 20 + int i) = Inr s"
    by (simp add: IOManager_ctor_def quiet_kernel_def pool_def start_def Let_def)
  then show ?thesis by (auto simp: fresh_io_def)
qed

lemma fresh_io_started: "io_started quiet_kernel fresh_io"
  unfolding io_started_def using fresh_io_ctor by blast

lemmas fresh_io_inv = IOManager_ctor_inv [OF fresh_io_ctor, THEN conjunct1]
lemmas fresh_io_length = IOManager_ctor_inv [OF fresh_io_ctor, THEN conjunct2]

lemma fresh_io_scheds: "\<exists>own. scheds fresh_io 1 = Some own \<and> m_tasks own = []"
proof -
  have "scheds (contextResize s 32) = scheds s" for s :: "unit iomanager"
    by (simp add: contextResize_def Let_def split: prod.splits)
  then have "IOManager_ctor quiet_kernel () 1 3 [1 \<mapsto> pool] (new_timer_manager 0) 100 (\<lambda>i. 20 + int i) = Inr s \<Longrightarrow>
      \<exists>own. scheds s 1 = Some own \<and> m_tasks own = []" for s
    by (auto simp: IOManager_ctor_def quiet_kernel_def pool_def start_def Let_def)
  then show ?thesis using fresh_io_ctor by blast
qed

lemma IOManager_ctor_facts:
  assumes "IOManager_ctor ctl k this fd0 sc ti n new_tids = Inr s"
  shows "(\<forall>p c. fd_heap s p = Some c \<longrightarrow> (\<exists>j. c = new_fd_context j)) \<and> m_tickleFd s = fd0 \<and>
    ctl k CTL_ADD fd0 (EPOLLIN OR EPOLLET) TickleFd = (0, epoll s) \<and> dom (scheds s) = dom sc \<and>
    this \<in> dom sc \<and> io_this s = this"
proof -
  obtain rt k' where ctl: "ctl k CTL_ADD fd0 (EPOLLIN OR EPOLLET) TickleFd = (rt, k')" by fastforce
  obtain cs h n' where f: "fill_contexts 0 (replicate 32 None) Map.empty n = (cs, h, n')"
    by (metis prod_cases3)
  have "entries_ok 0 (replicate 32 None) Map.empty" by (simp add: entries_ok_def)
  from fill_contexts_spec [OF f _ this] have h: "\<forall>p c. h p = Some c \<longrightarrow> (\<exists>j. c = new_fd_context j)"
    by simp
  have "fd_heap s = h \<and> m_tickleFd s = fd0 \<and> rt = 0 \<and> epoll s = k' \<and> this \<in> dom sc \<and> io_this s = this \<and>
      (\<exists>own. scheds s = sc(this \<mapsto> own))"
    using assms ctl f
    by (auto simp: IOManager_ctor_def contextResize_def Let_def split: if_splits option.splits sum.splits)
  moreover have "dom (sc(this \<mapsto> own)) = dom sc" if "this \<in> dom sc" for own
    using that by auto
  ultimately show ?thesis using h ctl by metis
qed

lemmas fresh_io_contexts = IOManager_ctor_facts [OF fresh_io_ctor, THEN conjunct1, rule_format]

lemma fresh_io_this: "io_this fresh_io = 1"
  using IOManager_ctor_facts [OF fresh_io_ctor] by blast

text \<open>A descriptor of the fresh table: its context has no event.\<close>

lemma fresh_io_find:
  obtains p where "find_context fresh_io 5 = Inr (Some (p, new_fd_context 5))"
    and "fd_heap fresh_io p = Some (new_fd_context 5)" and "m_fdContexts fresh_io ! 5 = Some p"
    and "addEvent_lookup fresh_io 5 = Inr (Some p)"
proof -
  have "(0 :: int) \<le> 5" by simp
  from fresh_io_inv this show thesis
  proof (cases rule: find_context_inv)
    case (inside p c)
    with fresh_io_contexts [of p c] that show ?thesis by (auto simp: new_fd_context_def)
  qed (use fresh_io_length in simp_all)
qed

theorem pending_count_exact_witness:
  "\<exists>s p. io_step quiet_kernel fresh_io s \<and> has_event s (p, READ) \<and>
     m_pendingEventCount s = of_nat (card (Collect (has_event s)))"
proof -
  obtain p where p: "fd_heap fresh_io p = Some (new_fd_context 5)"
    by (rule fresh_io_find)
  obtain own where own: "scheds fresh_io 1 = Some own" using fresh_io_scheds by blast
  let ?s = "fresh_io\<lparr>epoll := (), m_pendingEventCount := m_pendingEventCount fresh_io + 1,
       fd_heap := (fd_heap fresh_io)(p \<mapsto> putContext ((new_fd_context 5)\<lparr>fc_events := READ\<rparr>) READ
                                (registration (Some (User 7)) (Some 1) 0))\<rparr>"
  have reg: "addEvent_register quiet_kernel fresh_io p 5 READ (Some (User 7)) (Some 1) 0 EXEC = Inr (True, ?s)"
    using addEvent_register_eq [where ctl = quiet_kernel and e = READ and fd = 5 and rt = 0 and k = "()"
        and cb = "Some (User 7)" and st = EXEC, OF p]
    by (simp add: new_fd_context_def ctx_ok_def events_ok_def slot_ok_def quiet_kernel_def)
  have step: "io_step quiet_kernel fresh_io ?s"
    by (rule io_step.register [OF p, of 1]) (use own reg in \<open>auto simp: new_fd_context_def\<close>)
  moreover have "has_event ?s (p, READ)"
    by (simp add: has_event_def events_at_def)
  ultimately show ?thesis
    using pending_count_exact [OF fresh_io_started, of ?s] by blast
qed

subsection \<open>Registering and cancelling\<close>

lemma addEvent_found:
  "addEvent_lookup s fd = Inr (Some p) \<Longrightarrow>
     addEvent ctl s fd e cb current cur st = addEvent_register ctl s p fd e cb current cur st"
  by (simp add: addEvent_def)

lemma clear_set_word:
  "events_ok v \<Longrightarrow> e = READ \<or> e = WRITE \<Longrightarrow> v AND e = 0 \<Longrightarrow>
     (v OR e) AND NOT e = v \<and> (v OR e) AND e \<noteq> 0 \<and> v OR e \<noteq> 0"
  by (auto simp: events_ok_def)

lemma put_back:
  assumes "getContext c e = Some empty_event_context" and "(v AND NOT e) = fc_events c"
  shows "putContext ((putContext (c\<lparr>fc_events := v\<rparr>) e x)\<lparr>fc_events := v AND NOT e\<rparr>) e empty_event_context = c"
  using assms by (auto simp: putContext_def getContext_def split: if_splits)

lemma getContext_put: "e = READ \<or> e = WRITE \<Longrightarrow> getContext (putContext c e x) e = Some x"
  by (auto simp: getContext_def putContext_def)

lemma cancelEvent_eq:
  assumes "find_context s fd = Inr (Some (p, c))" and "fc_events c \<noteq> 0"
    and "ctl (epoll s) (if fc_events c AND NOT e \<noteq> 0 then CTL_MOD else CTL_DEL) fd
           (EPOLLET OR fc_events c AND NOT e) (CtxPtr p) = (rt, k)"
  shows "cancelEvent ctl s fd e =
    (if rt \<noteq> 0 then Inr (False, s\<lparr>epoll := k\<rparr>)
     else case triggerEvent (s\<lparr>epoll := k\<rparr>) p e of
            Inl x \<Rightarrow> Inl x | Inr t \<Rightarrow> Inr (True, count_down t))"
  using assms by (simp add: cancelEvent_def Let_def count_down_def split: sum.splits)



subsection \<open>When an operation aborts\<close>

definition fd_events :: "'k iomanager \<Rightarrow> int \<Rightarrow> u32" where
  "fd_events s fd =
     (if fd < int (length (m_fdContexts s)) then
        (case m_fdContexts s ! nat fd of None \<Rightarrow> 0 | Some p \<Rightarrow> events_at s p) else 0)"

lemma trigger_if_result:
  assumes "io_inv s" and "fd_heap s p = Some c" and "e = READ \<or> e = WRITE"
  obtains (skip) "bits AND e = 0" and "trigger_if bits e p s = Inr s"
  | (abort) "bits AND e \<noteq> 0" and "fc_events c AND e = 0" and "trigger_if bits e p s = Inl IoAssert"
  | (fire) q sc x where "bits AND e \<noteq> 0" and "fc_events c AND e \<noteq> 0"
      and "trigger_if bits e p s = Inr (count_down (triggered s p c e q sc x))"
      and "getContext c e = Some x" and "slot_ok (scheds s) True x"
      and "ec_scheduler x = Some q" and "scheds s q = Some sc"
proof (cases "bits AND e = 0")
  case True
  with skip show ?thesis by (simp add: trigger_if_def)
next
  case bits: False
  show ?thesis
  proof (cases "fc_events c AND e = 0")
    case True
    with bits abort assms(2) show ?thesis by (simp add: trigger_if_def triggerEvent_def)
  next
    case False
    from triggerEvent_ok [OF assms(1,2,3) False] obtain q sc x
      where t: "triggerEvent s p e = Inr (triggered s p c e q sc x)" "getContext c e = Some x"
        "slot_ok (scheds s) True x" "ec_scheduler x = Some q" "scheds s q = Some sc" .
    then have "trigger_if bits e p s = Inr (count_down (triggered s p c e q sc x))"
      using bits by (simp add: trigger_if_def count_down_def)
    with fire bits False t show ?thesis by blast
  qed
qed

lemma trigger_if_self:
  assumes "io_inv s" and "fd_heap s p = Some c" and "e = READ \<or> e = WRITE"
  shows "\<exists>s' c'. trigger_if (events_at s p) e p s = Inr s' \<and> io_inv s' \<and> fd_heap s' p = Some c' \<and>
    fc_events c' = fc_events c AND NOT e"
  using assms
proof (cases rule: trigger_if_result [where bits = "events_at s p"])
  case skip
  then have "fc_events c AND NOT e = fc_events c"
    using assms(2,3) io_inv_ctx [OF assms(1,2)] by (auto simp: events_at_def ctx_ok_def events_ok_def)
  with skip assms show ?thesis by simp
next
  case abort
  with assms(2) show ?thesis by (simp add: events_at_def)
next
  case (fire q sc x)
  with trigger_count_inv [OF assms fire(2,7)] show ?thesis
    by (simp add: count_down_def triggered_def)
qed

lemma delEvent_no_abort:
  assumes "io_inv s" and "0 \<le> fd" and "e = READ \<or> e = WRITE"
  shows "\<not> isl (delEvent ctl s fd e)"
  using assms(1,2)
proof (cases rule: find_context_inv)
  case (inside p c)
  then show ?thesis
    using assms(3) by (auto simp: delEvent_def Let_def getContext_def split: prod.splits)
qed (simp add: delEvent_def)

lemma cancelAll_no_abort:
  assumes "io_inv s" and "0 \<le> fd"
  shows "\<not> isl (cancelAll ctl s fd)"
  using assms
proof (cases rule: find_context_inv)
  case (inside p c)
  obtain rt k where ctl: "ctl (epoll s) CTL_DEL fd 0 (CtxPtr p) = (rt, k)" by fastforce
  let ?s0 = "s\<lparr>epoll := k\<rparr>"
  have inv0: "io_inv ?s0" "fd_heap ?s0 p = Some c" using assms(1) inside(3) by simp_all
  obtain s1 c1 where s1: "trigger_if (events_at ?s0 p) READ p ?s0 = Inr s1" "io_inv s1"
    "fd_heap s1 p = Some c1" "fc_events c1 = fc_events c AND NOT READ"
    using trigger_if_self [OF inv0, of READ] by blast
  obtain s2 c2 where s2: "trigger_if (events_at s1 p) WRITE p s1 = Inr s2"
    "fd_heap s2 p = Some c2" "fc_events c2 = fc_events c1 AND NOT WRITE"
    using trigger_if_self [OF s1(2,3), of WRITE] by blast
  have "events_ok (fc_events c)"
    using io_inv_ctx [OF assms(1) inside(3)] by (simp add: ctx_ok_def)
  then have "fc_events c2 = 0"
    unfolding s2(3) s1(4) by (auto simp: events_ok_def)
  then have "events_at s2 p = 0" by (simp add: events_at_def s2(2))
  then show ?thesis
    using inside(2) ctl s1(1) s2(1) by (simp add: cancelAll_def Let_def)
qed (simp add: cancelAll_def)

text \<open>When \<open>addEvent\<close> and \<open>cancelEvent\<close> fail their assertions, on a descriptor of the table.\<close>

lemma addEvent_aborts:
  assumes inv: "io_inv s" and p: "fd_heap s p = Some c" and found: "addEvent_lookup s fd = Inr (Some p)"
    and e: "e = READ \<or> e = WRITE"
  shows "isl (addEvent ctl s fd e (Some cb) current cur st) = (fc_events c AND e \<noteq> 0)"
proof (cases "fc_events c AND e = 0")
  case True
  obtain rt k where "ctl (epoll s) (if fc_events c \<noteq> 0 then CTL_MOD else CTL_ADD) fd
      (EPOLLET OR fc_events c OR e) (CtxPtr p) = (rt, k)" by fastforce
  from addEvent_register_eq [where ctl = ctl and cb = "Some cb", OF p io_inv_ctx [OF inv p] e True _ this] True
  show ?thesis by (simp add: addEvent_found [OF found])
next
  case False
  with p show ?thesis by (simp add: addEvent_found [OF found] addEvent_register_def)
qed

lemma cancelEvent_aborts:
  assumes inv: "io_inv s" and found: "find_context s fd = Inr (Some (p, c))" and p: "fd_heap s p = Some c"
    and e: "e = READ \<or> e = WRITE"
  shows "isl (cancelEvent ctl s fd e) = (fc_events c \<noteq> 0 \<and> fc_events c AND e = 0 \<and>
      fst (ctl (epoll s) CTL_MOD fd (EPOLLET OR fc_events c) (CtxPtr p)) = 0)"
proof (cases "fc_events c = 0")
  case True
  with found show ?thesis by (simp add: cancelEvent_def)
next
  case some: False
  obtain rt k where ctl: "ctl (epoll s) (if fc_events c AND NOT e \<noteq> 0 then CTL_MOD else CTL_DEL) fd
      (EPOLLET OR fc_events c AND NOT e) (CtxPtr p) = (rt, k)" by fastforce
  note eq = cancelEvent_eq [where ctl = ctl, OF found some ctl]
  show ?thesis
  proof (cases "fc_events c AND e = 0")
    case True
    then have "fc_events c AND NOT e = fc_events c"
      using io_inv_ctx [OF inv p] e by (auto simp: ctx_ok_def events_ok_def)
    moreover have "triggerEvent (s\<lparr>epoll := k\<rparr>) p e = Inl IoAssert"
      using True p by (simp add: triggerEvent_def)
    ultimately show ?thesis using eq some True ctl by simp
  next
    case False
    have "io_inv (s\<lparr>epoll := k\<rparr>)" "fd_heap (s\<lparr>epoll := k\<rparr>) p = Some c" using inv p by simp_all
    from triggerEvent_ok [OF this e False] obtain t where "triggerEvent (s\<lparr>epoll := k\<rparr>) p e = Inr t" by metis
    with eq False show ?thesis by simp
  qed
qed

text \<open>
  C20. When the operations abort, for a descriptor that is not negative and one of the two events:
  \<open>delEvent\<close> and \<open>cancelAll\<close> never do; \<open>addEvent\<close> with a callback, inside the table, does exactly
  if the event is registered already; but \<open>cancelEvent\<close> does whenever the descriptor has the other
  event registered and not this one and the kernel accepts the change, because it tests for any event
  where \<open>delEvent\<close> tests for the one it removes.
\<close>

theorem abort_conditions:
  assumes inv: "io_inv s" and fd: "0 \<le> fd" and e: "e = READ \<or> e = WRITE"
  shows "\<not> isl (delEvent ctl s fd e) \<and> \<not> isl (cancelAll ctl s fd) \<and>
    (fd < int (length (m_fdContexts s)) \<longrightarrow>
       isl (addEvent ctl s fd e (Some cb) current cur st) = (fd_events s fd AND e \<noteq> 0)) \<and>
    isl (cancelEvent ctl s fd e) =
      (fd_events s fd \<noteq> 0 \<and> fd_events s fd AND e = 0 \<and>
       fst (ctl (epoll s) CTL_MOD fd (EPOLLET OR fd_events s fd) (CtxPtr (the (m_fdContexts s ! nat fd)))) = 0)"
  using inv fd
proof (cases rule: find_context_inv)
  case outside
  then show ?thesis
    using cancelAll_no_abort [OF inv fd] delEvent_no_abort [OF inv fd e]
    by (simp add: cancelEvent_def fd_events_def)
next
  case (inside p c)
  have events: "fd_events s fd = fc_events c"
    using inside by (simp add: fd_events_def events_at_def)
  show ?thesis
    using addEvent_aborts [OF inv inside(3,6) e, of ctl cb current cur st] cancelEvent_aborts [OF inv inside(2,3) e, of ctl]
      cancelAll_no_abort [OF inv fd] delEvent_no_abort [OF inv fd e] inside(5)
    by (simp add: events)
qed

text \<open>A fresh manager on which descriptor 5 has been registered for writing.\<close>

lemma fresh_io_write:
  obtains s p c where "addEvent quiet_kernel fresh_io 5 WRITE (Some (User 9)) (Some 1) 77 EXEC = Inr (True, s)"
    and "io_inv s" and "fd_events s 5 = WRITE" and "length (m_fdContexts s) = 32"
    and "fd_heap s p = Some c" and "fc_events c = WRITE" and "fc_fd c = 5"
    and "ec_scheduler (fc_write c) = Some 1" and "ec_cb (fc_write c) = Some (User 9)"
    and "ec_fiber (fc_write c) = None" and "\<exists>own. scheds s 1 = Some own \<and> m_tasks own = []"
proof -
  obtain p where p: "fd_heap fresh_io p = Some (new_fd_context 5)" "m_fdContexts fresh_io ! 5 = Some p"
    "addEvent_lookup fresh_io 5 = Inr (Some p)"
    by (rule fresh_io_find)
  let ?c = "putContext ((new_fd_context 5)\<lparr>fc_events := WRITE\<rparr>) WRITE (registration (Some (User 9)) (Some 1) 77)"
  let ?s = "fresh_io\<lparr>epoll := (), m_pendingEventCount := m_pendingEventCount fresh_io + 1,
       fd_heap := (fd_heap fresh_io)(p \<mapsto> ?c)\<rparr>"
  have reg: "addEvent_register quiet_kernel fresh_io p 5 WRITE (Some (User 9)) (Some 1) 77 EXEC = Inr (True, ?s)"
    using addEvent_register_eq [where ctl = quiet_kernel and e = WRITE and fd = 5 and rt = 0 and k = "()"
        and cb = "Some (User 9)" and st = EXEC, OF p(1)]
    by (simp add: new_fd_context_def ctx_ok_def events_ok_def slot_ok_def quiet_kernel_def)
  obtain own where own: "scheds fresh_io 1 = Some own" "m_tasks own = []" using fresh_io_scheds by blast
  then have "1 \<in> dom (scheds fresh_io)" by blast
  from addEvent_register_inv [OF fresh_io_inv p(1) this reg] have "io_inv ?s" .
  then show thesis
    using that [of ?s p ?c] reg own p fresh_io_length
    by (simp add: addEvent_found fd_events_def events_at_def putContext_def registration_def new_fd_context_def)
qed

theorem abort_conditions_witness:
  "\<exists>s. addEvent quiet_kernel fresh_io 5 WRITE (Some (User 9)) (Some 1) 77 EXEC = Inr (True, s) \<and>
     isl (cancelEvent quiet_kernel s 5 READ) \<and> \<not> isl (delEvent quiet_kernel s 5 READ)"
proof -
  obtain s where s: "addEvent quiet_kernel fresh_io 5 WRITE (Some (User 9)) (Some 1) 77 EXEC = Inr (True, s)"
    "io_inv s" "fd_events s 5 = WRITE"
    by (rule fresh_io_write)
  from abort_conditions [OF s(2), of 5 READ quiet_kernel] s(1,3) show ?thesis
    by (simp add: quiet_kernel_def)
qed

subsection \<open>Dispatching reported events\<close>

text \<open>The tasks a context puts into the queue of scheduler \<open>q\<close> when the events \<open>real\<close> fire.\<close>

definition fired :: "fd_context \<Rightarrow> u32 \<Rightarrow> ptr \<Rightarrow> task list" where
  "fired c real q =
     (if real AND READ \<noteq> 0 \<and> ec_scheduler (fc_read c) = Some q then [event_task (fc_read c)] else []) @
     (if real AND WRITE \<noteq> 0 \<and> ec_scheduler (fc_write c) = Some q then [event_task (fc_write c)] else [])"

definition queue_of :: "'k iomanager \<Rightarrow> ptr \<Rightarrow> task list" where
  "queue_of s q = (case scheds s q of None \<Rightarrow> [] | Some sc \<Rightarrow> m_tasks sc)"

lemma trigger_if_fired:
  assumes inv: "io_inv s" and c: "fd_heap s p = Some c" and e: "e = READ \<or> e = WRITE"
    and ok: "events_ok bits" and bits: "bits AND e \<noteq> 0 \<longrightarrow> fc_events c AND e \<noteq> 0"
  shows "\<exists>s' c'. trigger_if bits e p s = Inr s' \<and> io_inv s' \<and> fd_heap s' p = Some c' \<and>
    fc_events c' = fc_events c AND NOT (bits AND e) \<and>
    (if e = READ then fc_write c' = fc_write c else fc_read c' = fc_read c) \<and>
    (\<forall>q. queue_of s' q = queue_of s q @ fired c (bits AND e) q) \<and>
    fd_heap s' = (fd_heap s)(p \<mapsto> c') \<and> fc_fd c' = fc_fd c \<and> epoll s' = epoll s \<and>
    m_fdContexts s' = m_fdContexts s \<and> m_tickleFd s' = m_tickleFd s"
  using inv c e
proof (cases rule: trigger_if_result [where bits = bits])
  case skip
  moreover have "(fd_heap s)(p \<mapsto> c) = fd_heap s" using c by auto
  ultimately show ?thesis using inv c by (auto simp: fired_def)
next
  case abort
  with bits show ?thesis by simp
next
  case (fire q sc x)
  from fire(1) e ok have be: "bits AND e = e"
    by (auto simp: events_ok_def)
  let ?s = "count_down (triggered s p c e q sc x)"
  let ?c = "putContext (c\<lparr>fc_events := fc_events c AND NOT e\<rparr>) e empty_event_context"
  have "m_tasks (enqueue (work_of x) sc) = m_tasks sc @ [event_task x]"
    using scheduler_queue.contents_enq [of "work_of x" sc]
    by (simp add: task_of_work [OF fire(5)] slot_task_nonnull [OF fire(5)])
  then have "queue_of ?s r = queue_of s r @ fired c e r" for r
    using e fire(4,6,7)
    by (auto simp: queue_of_def count_down_def triggered_def fired_def getContext_def)
  moreover have "fd_heap ?s = (fd_heap s)(p \<mapsto> ?c)" "epoll ?s = epoll s" "m_fdContexts ?s = m_fdContexts s"
    "m_tickleFd ?s = m_tickleFd s"
    by (simp_all add: count_down_def triggered_def)
  moreover have "if e = READ then fc_write ?c = fc_write c else fc_read ?c = fc_read c"
    by (simp add: putContext_def)
  ultimately show ?thesis
    using fire(3) trigger_count_inv [OF inv c e fire(2,7)] by (auto simp: be)
qed

lemma events_ok_real: "events_ok (real_events bits v)"
  by (simp add: events_ok_def real_events_def Let_def)

text \<open>The two calls of \<open>triggerEvent\<close> of one round, for reported events that are all registered or are not.\<close>

lemma stale_event_aborts:
  assumes inv: "io_inv s" and c: "fd_heap s p = Some c" and evs: "events_ok real" "events_ok (fc_events c)"
    and stale: "fc_events c AND real \<noteq> 0" "real AND NOT (fc_events c) \<noteq> 0"
  shows "(case trigger_if real READ p s of Inl e \<Rightarrow> Inl e | Inr s1 \<Rightarrow> trigger_if real WRITE p s1) = Inl IoAssert"
proof -
  consider "real = 5" "fc_events c = READ" | "real = 5" "fc_events c = WRITE"
    using stale evs by (auto simp: events_ok_def)
  then show ?thesis
  proof cases
    case 1
    from trigger_if_fired [OF inv c, of READ real] 1 evs obtain s1 c1
      where s1: "trigger_if real READ p s = Inr s1" "fd_heap s1 p = Some c1" "fc_events c1 = 0" by auto
    then have "trigger_if real WRITE p s1 = Inl IoAssert" using 1 by (simp add: trigger_if_def triggerEvent_def)
    with s1(1) show ?thesis by simp
  next
    case 2
    then have "trigger_if real READ p s = Inl IoAssert" using c by (simp add: trigger_if_def triggerEvent_def)
    then show ?thesis by simp
  qed
qed

lemma registered_events_fire:
  assumes inv: "io_inv s" and c: "fd_heap s p = Some c" and evs: "events_ok real" "events_ok (fc_events c)"
    and all: "real AND NOT (fc_events c) = 0"
  shows "\<exists>s'. (case trigger_if real READ p s of Inl e \<Rightarrow> Inl e | Inr s1 \<Rightarrow> trigger_if real WRITE p s1) = Inr s' \<and>
    io_inv s' \<and> events_at s' p = fc_events c AND NOT real \<and> (\<forall>q. queue_of s' q = queue_of s q @ fired c real q)"
proof -
  have sub: "real AND READ \<noteq> 0 \<longrightarrow> fc_events c AND READ \<noteq> 0"
    "real AND WRITE \<noteq> 0 \<longrightarrow> (fc_events c AND NOT (real AND READ)) AND WRITE \<noteq> 0"
    using evs all by (auto simp: events_ok_def)
  from trigger_if_fired [OF inv c _ evs(1) sub(1)] obtain s1 c1
    where s1: "trigger_if real READ p s = Inr s1" "io_inv s1" "fd_heap s1 p = Some c1"
      "fc_events c1 = fc_events c AND NOT (real AND READ)" "fc_write c1 = fc_write c"
      "\<forall>q. queue_of s1 q = queue_of s q @ fired c (real AND READ) q" by auto
  have "real AND WRITE \<noteq> 0 \<longrightarrow> fc_events c1 AND WRITE \<noteq> 0" using sub(2) by (simp add: s1(4))
  from trigger_if_fired [OF s1(2,3) _ evs(1) this] obtain s2 c2
    where s2: "trigger_if real WRITE p s1 = Inr s2" "io_inv s2" "fd_heap s2 p = Some c2"
      "fc_events c2 = fc_events c1 AND NOT (real AND WRITE)"
      "\<forall>q. queue_of s2 q = queue_of s1 q @ fired c1 (real AND WRITE) q" by auto
  have "fc_events c2 = fc_events c AND NOT real"
    using evs unfolding s2(4) s1(4) by (auto simp: events_ok_def)
  moreover have "fired c (real AND READ) q @ fired c1 (real AND WRITE) q = fired c real q" for q
    using evs(1) s1(5) by (auto simp: fired_def events_ok_def)
  ultimately show ?thesis using s1 s2 by (simp add: events_at_def)
qed



subsection \<open>The timeout of the idle loop\<close>

text \<open>
  C22. The timeout given to \<open>epoll_wait\<close> never exceeds 3000 ms and is the time to the next timer,
  capped at 3000, whenever that time is below 2 to the 31; but it is negative, which makes
  \<open>epoll_wait\<close> block without a timeout, exactly when bit 31 of the time is set (and there is a
  timer), because the time is narrowed to \<open>int\<close> before it is compared.
\<close>

theorem epoll_timeout_bounds:
  "epoll_timeout t \<le> 3000 \<and>
   (unat t < 2 ^ 31 \<longrightarrow> epoll_timeout t = min 3000 (int (unat t))) \<and>
   (epoll_timeout t < 0 \<longleftrightarrow> t \<noteq> NOT 0 \<and> bit t 31)"
proof -
  have max: "to_int 3000 = 3000" by (simp add: to_int_def)
  have neg: "to_int t < 0 \<longleftrightarrow> bit t 31"
    using bit_last_iff [of "ucast t :: u32"] by (simp add: to_int_def bit_simps)
  have small: "to_int t = int (unat t)" if "unat t < 2 ^ 31"
  proof -
    have "int (unat t) < 2 ^ 31" using that by (metis of_nat_less_iff of_nat_numeral of_nat_power)
    moreover have "take_bit 32 x = x \<and> signed_take_bit 31 x = x" if "0 \<le> x" "x < 2 ^ 31" for x :: int
      using that by (simp add: take_bit_int_eq_self_iff signed_take_bit_int_eq_self_iff)
    ultimately have "take_bit 32 (int (unat t)) = int (unat t) \<and> signed_take_bit 31 (int (unat t)) = int (unat t)"
      by (metis of_nat_0_le_iff)
    then show ?thesis
      by (simp add: to_int_def sint_uint unsigned_ucast_eq)
  qed
  have "t \<noteq> NOT 0" if "unat t < 2 ^ 31"
    using that by (auto simp: unsigned_minus_1_eq_mask mask_eq_exp_minus_1)
  with max neg small show ?thesis
    by (auto simp: epoll_timeout_def Let_def)
qed

theorem epoll_timeout_bounds_witness: "epoll_timeout 2500 = 2500 \<and> epoll_timeout (2 ^ 31) < 0"
  using epoll_timeout_bounds [of 2500] epoll_timeout_bounds [of "2 ^ 31"] by (simp add: bit_simps)

end
