(* ===== verification/IO_Kernel.thy ===== *)
theory IO_Kernel
  imports IO_Events
begin

text \<open>
  The table of contexts against the world outside: the interest list of the kernel follows the
  registered events, two threads that grow the table at once can lose a context, and an idle round
  hands the callbacks of expired timers to the scheduler.
\<close>

subsection \<open>The interest list of the kernel\<close>

text \<open>
  What \<open>epoll_ctl\<close> is documented to do, for a kernel state whose interest list is \<open>interest\<close>: an
  accepted request sets or removes the entry of the descriptor, a refused one changes nothing.
\<close>

definition epoll_spec :: "'k epoll_ctl \<Rightarrow> ('k \<Rightarrow> int \<rightharpoonup> u32 \<times> epoll_data) \<Rightarrow> bool" where
  "epoll_spec ctl interest \<longleftrightarrow> (\<forall>k op fd bits d.
     interest (snd (ctl k op fd bits d)) =
       (if fst (ctl k op fd bits d) \<noteq> 0 then interest k
        else if op = CTL_DEL then (interest k)(fd := None)
        else (interest k)(fd \<mapsto> (bits, d))))"

definition entry :: "ptr \<Rightarrow> u32 \<Rightarrow> (u32 \<times> epoll_data) option" where
  "entry p events = (if events = 0 then None else Some (EPOLLET OR events, CtxPtr p))"

definition agrees :: "('k \<Rightarrow> int \<rightharpoonup> u32 \<times> epoll_data) \<Rightarrow> 'k iomanager \<Rightarrow> bool" where
  "agrees interest s \<longleftrightarrow>
     (\<forall>i p. i < length (m_fdContexts s) \<and> m_fdContexts s ! i = Some p \<and> int i \<noteq> m_tickleFd s \<longrightarrow>
        interest (epoll s) (int i) = entry p (events_at s p))"

lemma agrees_update:
  assumes inv: "io_inv s" and ag: "agrees interest s" and c: "fd_heap s p = Some c"
    and heap: "fd_heap s' = (fd_heap s)(p \<mapsto> c')" and table: "m_fdContexts s' = m_fdContexts s"
    and tickle: "m_tickleFd s' = m_tickleFd s"
    and here: "fc_fd c = int j" "j < length (m_fdContexts s)" "m_fdContexts s ! j = Some p"
    and kernel: "interest (epoll s') = (interest (epoll s))(int j := entry p (fc_events c'))"
  shows "agrees interest s'"
  unfolding agrees_def
proof (intro allI impI)
  fix i q
  assume i: "i < length (m_fdContexts s') \<and> m_fdContexts s' ! i = Some q \<and> int i \<noteq> m_tickleFd s'"
  show "interest (epoll s') (int i) = entry q (events_at s' q)"
  proof (cases "i = j")
    case True
    then have "q = p" using i here(3) table by simp
    with True show ?thesis by (simp add: events_at_def heap kernel)
  next
    case False
    have "q \<noteq> p"
    proof
      assume "q = p"
      with i table have p: "i < length (m_fdContexts s)" "m_fdContexts s ! i = Some p" by simp_all
      from inv p(1) obtain r d where "m_fdContexts s ! i = Some r" "fd_heap s r = Some d" "fc_fd d = int i"
        unfolding io_inv_def by blast
      with p(2) c here(1) False show False by simp
    qed
    moreover have "interest (epoll s) (int i) = entry q (events_at s q)"
      using ag i table tickle by (simp add: agrees_def)
    ultimately show ?thesis
      using False by (simp add: events_at_def heap kernel)
  qed
qed

lemma agrees_epoll:
  "agrees interest s \<Longrightarrow> interest k = interest (epoll s) \<Longrightarrow> agrees interest (s\<lparr>epoll := k\<rparr>)"
  by (simp add: agrees_def events_at_def)

lemma spec_refused:
  "epoll_spec ctl interest \<Longrightarrow> ctl k op fd bits d = (rt, k') \<Longrightarrow> rt \<noteq> 0 \<Longrightarrow> interest k' = interest k"
  unfolding epoll_spec_def by (metis fst_conv snd_conv)

lemma spec_set:
  "epoll_spec ctl interest \<Longrightarrow> ctl k op fd bits d = (0, k') \<Longrightarrow> op \<noteq> CTL_DEL \<Longrightarrow>
     interest k' = (interest k)(fd \<mapsto> (bits, d))"
  unfolding epoll_spec_def by (metis fst_conv snd_conv)

lemma spec_del:
  "epoll_spec ctl interest \<Longrightarrow> ctl k CTL_DEL fd bits d = (0, k') \<Longrightarrow> interest k' = (interest k)(fd := None)"
  unfolding epoll_spec_def by (metis fst_conv snd_conv)

lemma spec_mod_or_del:
  assumes "epoll_spec ctl interest"
    and "ctl k (if v \<noteq> 0 then CTL_MOD else CTL_DEL) fd (EPOLLET OR v) (CtxPtr p) = (0, k')"
  shows "interest k' = (interest k)(fd := entry p v)"
  using spec_set [OF assms(1), of k CTL_MOD] spec_del [OF assms(1)] assms(2)
  by (auto simp: entry_def split: if_splits)

lemma or_nonzero: "events_ok v \<Longrightarrow> e = READ \<or> e = WRITE \<Longrightarrow> v OR e \<noteq> 0 \<and> events_ok (v OR e)"
  by (auto simp: events_ok_def)

lemma agrees_add:
  assumes inv: "io_inv s" and ag: "agrees interest s" and spec: "epoll_spec ctl interest"
    and fd: "0 \<le> fd" "fd < int (length (m_fdContexts s))" and q: "q \<in> dom (scheds s)"
    and e: "e = READ \<or> e = WRITE" and res: "addEvent ctl s fd e (Some cb) (Some q) cur st = Inr (b, s')"
  shows "agrees interest s'"
  using inv fd(1)
proof (cases rule: find_context_inv)
  case (inside p c)
  note ok = io_inv_ctx [OF inv inside(3)]
  obtain rt k where ctl: "ctl (epoll s) (if fc_events c \<noteq> 0 then CTL_MOD else CTL_ADD) fd
      (EPOLLET OR fc_events c OR e) (CtxPtr p) = (rt, k)" by fastforce
  have reg: "addEvent_register ctl s p fd e (Some cb) (Some q) cur st = Inr (b, s')"
    using res by (simp add: addEvent_found [OF inside(6)])
  then have free: "fc_events c AND e = 0"
    using inside(3) by (auto simp: addEvent_register_def split: if_splits)
  note eq = addEvent_register_eq [where ctl = ctl and cb = "Some cb", OF inside(3) ok e free _ ctl, of st "Some q" cur]
  show ?thesis
  proof (cases "rt = 0")
    case False
    with eq reg have "s' = s\<lparr>epoll := k\<rparr>" by simp
    with ag spec_refused [OF spec ctl False] show ?thesis by (simp add: agrees_epoll)
  next
    case True
    let ?c = "putContext (c\<lparr>fc_events := fc_events c OR e\<rparr>) e (registration (Some cb) (Some q) cur)"
    have s': "s' = s\<lparr>epoll := k, m_pendingEventCount := m_pendingEventCount s + 1,
        fd_heap := (fd_heap s)(p \<mapsto> ?c)\<rparr>"
      using eq reg True by simp
    have "fc_events c OR e \<noteq> 0" using or_nonzero [OF _ e] ok by (simp add: ctx_ok_def)
    moreover have "interest k = (interest (epoll s))(fd \<mapsto> (EPOLLET OR fc_events c OR e, CtxPtr p))"
      using spec_set [OF spec] ctl True by (auto split: if_splits)
    ultimately have "interest (epoll s') = (interest (epoll s))(int (nat fd) := entry p (fc_events ?c))"
      using fd by (simp add: s' entry_def or.assoc)
    from agrees_update [OF inv ag inside(3) _ _ _ _ _ inside(5) this] show ?thesis
      using inside(1,4) fd by (simp add: s')
  qed
qed (use fd in simp)

lemma trigger_if_InrD:
  assumes "io_inv s" and "fd_heap s p = Some c" and "e = READ \<or> e = WRITE" and "events_ok bits"
    and "trigger_if bits e p s = Inr s'"
  obtains c' where "fd_heap s' = (fd_heap s)(p \<mapsto> c')" and "fc_events c' = fc_events c AND NOT (bits AND e)"
    and "fc_fd c' = fc_fd c" and "epoll s' = epoll s" and "m_fdContexts s' = m_fdContexts s"
    and "m_tickleFd s' = m_tickleFd s" and "io_inv s'"
proof -
  have "bits AND e \<noteq> 0 \<longrightarrow> fc_events c AND e \<noteq> 0"
    using assms(2,5) by (auto simp: trigger_if_def triggerEvent_def split: if_splits sum.splits)
  from trigger_if_fired [OF assms(1-4) this] assms(5) that show thesis by auto
qed

lemma agrees_triggered:
  assumes inv: "io_inv s" and ag: "agrees interest s" and c: "fd_heap s p = Some c"
    and here: "fc_fd c = int j" "j < length (m_fdContexts s)" "m_fdContexts s ! j = Some p"
    and one: "trigger_if b1 READ p (s\<lparr>epoll := k\<rparr>) = Inr s1" and two: "trigger_if b2 WRITE p s1 = Inr s'"
    and ok: "events_ok b1" "events_ok b2"
    and left: "v = (fc_events c AND NOT (b1 AND READ)) AND NOT (b2 AND WRITE)"
    and kernel: "interest k = (interest (epoll s))(int j := entry p v)"
  shows "agrees interest s'"
proof -
  have inv0: "io_inv (s\<lparr>epoll := k\<rparr>)" and c0: "fd_heap (s\<lparr>epoll := k\<rparr>) p = Some c"
    using inv c by simp_all
  obtain c1 where c1: "fd_heap s1 = (fd_heap s)(p \<mapsto> c1)" "fc_events c1 = fc_events c AND NOT (b1 AND READ)"
    "epoll s1 = k" "m_fdContexts s1 = m_fdContexts s" "m_tickleFd s1 = m_tickleFd s" "io_inv s1"
    by (rule trigger_if_InrD [OF inv0 c0 _ ok(1) one]) simp_all
  then have "fd_heap s1 p = Some c1" by simp
  then obtain c2 where c2: "fd_heap s' = (fd_heap s1)(p \<mapsto> c2)" "fc_events c2 = fc_events c1 AND NOT (b2 AND WRITE)"
    "epoll s' = epoll s1" "m_fdContexts s' = m_fdContexts s1" "m_tickleFd s' = m_tickleFd s1"
    by (rule trigger_if_InrD [OF c1(6) _ _ ok(2) two]) simp_all
  have "fd_heap s' = (fd_heap s)(p \<mapsto> c2)" using c1(1) c2(1) by simp
  moreover have "interest (epoll s') = (interest (epoll s))(int j := entry p (fc_events c2))"
    using c1 c2 kernel left by simp
  ultimately show ?thesis
    using agrees_update [OF inv ag c _ _ _ here] c1(4,5) c2(4,5) by simp
qed

lemma agrees_cancelAll:
  assumes inv: "io_inv s" and ag: "agrees interest s" and spec: "epoll_spec ctl interest"
    and fd: "0 \<le> fd" and res: "cancelAll ctl s fd = Inr (b, s')"
  shows "agrees interest s'"
  using inv fd
proof (cases rule: find_context_inv)
  case outside
  with res ag show ?thesis by (simp add: cancelAll_def)
next
  case (inside p c)
  obtain rt k where ctl: "ctl (epoll s) CTL_DEL fd 0 (CtxPtr p) = (rt, k)" by fastforce
  consider "fc_events c = 0" | "fc_events c \<noteq> 0" "rt \<noteq> 0" | "fc_events c \<noteq> 0" "rt = 0" by blast
  then show ?thesis
  proof cases
    case 1
    with res ag inside(2) show ?thesis by (simp add: cancelAll_def)
  next
    case 2
    with res inside(2) ctl have "s' = s\<lparr>epoll := k\<rparr>" by (simp add: cancelAll_def)
    with ag spec_refused [OF spec ctl 2(2)] show ?thesis by (simp add: agrees_epoll)
  next
    case 3
    let ?s0 = "s\<lparr>epoll := k\<rparr>"
    from res inside(2) ctl 3 obtain s1 where t: "trigger_if (events_at ?s0 p) READ p ?s0 = Inr s1"
      "trigger_if (events_at s1 p) WRITE p s1 = Inr s'"
      by (auto simp: cancelAll_def Let_def split: sum.splits if_splits)
    have ok: "events_ok (fc_events c)"
      using io_inv_ctx [OF inv inside(3)] by (simp add: ctx_ok_def)
    have at0: "events_at ?s0 p = fc_events c" using inside(3) by (simp add: events_at_def)
    have inv0: "io_inv ?s0" "fd_heap ?s0 p = Some c" using inv inside(3) by simp_all
    from trigger_if_self [OF inv0, of READ] t(1) obtain c1
      where "fd_heap s1 p = Some c1" "fc_events c1 = fc_events c AND NOT READ" by auto
    then have at1: "events_at s1 p = fc_events c AND NOT READ" by (simp add: events_at_def)
    have "interest k = (interest (epoll s))(int (nat fd) := entry p 0)"
      using spec_del [OF spec] ctl 3(2) fd by (simp add: entry_def)
    with ok inside fd t show ?thesis
      by (intro agrees_triggered [OF inv ag inside(3) _ _ inside(5) t, of 0])
         (auto simp: at0 at1 events_ok_def)
  qed
qed

lemma agrees_cancel:
  assumes inv: "io_inv s" and ag: "agrees interest s" and spec: "epoll_spec ctl interest"
    and fd: "0 \<le> fd" and e: "e = READ \<or> e = WRITE" and res: "cancelEvent ctl s fd e = Inr (b, s')"
  shows "agrees interest s'"
  using inv fd
proof (cases rule: find_context_inv)
  case outside
  with res ag show ?thesis by (simp add: cancelEvent_def)
next
  case (inside p c)
  show ?thesis
  proof (cases "fc_events c = 0")
    case True
    with res ag inside(2) show ?thesis by (simp add: cancelEvent_def)
  next
    case some: False
    obtain rt k where ctl: "ctl (epoll s) (if fc_events c AND NOT e \<noteq> 0 then CTL_MOD else CTL_DEL) fd
        (EPOLLET OR fc_events c AND NOT e) (CtxPtr p) = (rt, k)" by fastforce
    note eq = cancelEvent_eq [where ctl = ctl, OF inside(2) some ctl]
    show ?thesis
    proof (cases "rt = 0")
      case False
      with eq res have "s' = s\<lparr>epoll := k\<rparr>" by simp
      with ag spec_refused [OF spec ctl False] show ?thesis by (simp add: agrees_epoll)
    next
      case True
      with eq res obtain t where "triggerEvent (s\<lparr>epoll := k\<rparr>) p e = Inr t" "s' = count_down t"
        by (auto split: sum.splits)
      then have trig: "trigger_if e e p (s\<lparr>epoll := k\<rparr>) = Inr s'"
        using e by (auto simp: trigger_if_def count_down_def)
      have none: "trigger_if 0 e' p s1 = Inr s1" for e' and s1 :: "'a iomanager"
        by (simp add: trigger_if_def)
      have kernel: "interest k = (interest (epoll s))(int (nat fd) := entry p (fc_events c AND NOT e))"
        using spec_mod_or_del [OF spec] ctl True fd by simp
      have ok: "events_ok e" "events_ok (0 :: u32)" "events_ok (fc_events c)"
        using e io_inv_ctx [OF inv inside(3)] by (auto simp: events_ok_def ctx_ok_def)
      from e show ?thesis
      proof
        assume "e = READ"
        with ok inside fd trig kernel show ?thesis
          by (intro agrees_triggered [where v = "fc_events c AND NOT e" and k = k and ?b1.0 = READ and ?b2.0 = 0,
                OF inv ag inside(3) _ _ inside(5) _ none]) (auto simp: events_ok_def)
      next
        assume "e = WRITE"
        with ok inside fd trig kernel show ?thesis
          by (intro agrees_triggered [where v = "fc_events c AND NOT e" and k = k and ?b1.0 = 0 and ?b2.0 = WRITE,
                OF inv ag inside(3) _ _ inside(5) none]) (auto simp: events_ok_def)
      qed
    qed
  qed
qed

lemma agrees_del:
  assumes inv: "io_inv s" and ag: "agrees interest s" and spec: "epoll_spec ctl interest"
    and fd: "0 \<le> fd" and e: "e = READ \<or> e = WRITE" and res: "delEvent ctl s fd e = Inr (b, s')"
    and accepted: "\<forall>op bits d. fst (ctl (epoll s) op fd bits d) = 0"
  shows "agrees interest s'"
  using inv fd
proof (cases rule: find_context_inv)
  case outside
  with res ag show ?thesis by (simp add: delEvent_def)
next
  case (inside p c)
  show ?thesis
  proof (cases "fc_events c AND e = 0")
    case True
    with res ag inside(2) show ?thesis by (simp add: delEvent_def)
  next
    case False
    let ?v = "fc_events c AND NOT e"
    obtain rt k where ctl: "ctl (epoll s) (if ?v \<noteq> 0 then CTL_MOD else CTL_DEL) fd
        (EPOLLET OR ?v) (CtxPtr p) = (rt, k)" by fastforce
    then have rt: "rt = 0" using accepted by (metis fst_conv)
    obtain x where x: "getContext c e = Some x" using e by (auto simp: getContext_def)
    let ?c = "putContext (c\<lparr>fc_events := ?v\<rparr>) e (resetContext x)"
    have s': "s' = s\<lparr>epoll := k, m_pendingEventCount := m_pendingEventCount s - 1,
        fd_heap := (fd_heap s)(p \<mapsto> ?c)\<rparr>"
      using res inside(2) False ctl x by (simp add: delEvent_def Let_def)
    have "interest (epoll s') = (interest (epoll s))(int (nat fd) := entry p (fc_events ?c))"
      using spec_mod_or_del [OF spec] ctl rt fd by (simp add: s')
    from agrees_update [OF inv ag inside(3) _ _ _ _ _ inside(5) this] inside(1,4) fd show ?thesis
      by (simp add: s')
  qed
qed

lemma agrees_event:
  assumes inv: "io_inv s" and ag: "agrees interest s" and spec: "epoll_spec ctl interest"
    and here: "j < length (m_fdContexts s)" "m_fdContexts s ! j = Some p"
    and res: "idle_event ctl s (CtxPtr p, bits) = Inr s'"
  shows "agrees interest s'"
proof -
  from inv here(1) obtain r c where "m_fdContexts s ! j = Some r" "fd_heap s r = Some c" "fc_fd c = int j"
    unfolding io_inv_def by blast
  with here(2) have c: "fd_heap s p = Some c" "fc_fd c = int j" by simp_all
  define real where "real = real_events bits (fc_events c)"
  have evs: "events_ok real" "events_ok (fc_events c)"
    using io_inv_ctx [OF inv c(1)] by (simp_all add: real_def events_ok_real ctx_ok_def)
  obtain rt k where ctl: "ctl (epoll s) (if fc_events c AND NOT real \<noteq> 0 then CTL_MOD else CTL_DEL) (fc_fd c)
      (EPOLLET OR fc_events c AND NOT real) (CtxPtr p) = (rt, k)" by fastforce
  have run: "idle_event ctl s (CtxPtr p, bits) =
      (if fc_events c AND real = 0 then Inr s
       else if rt \<noteq> 0 then Inr (s\<lparr>epoll := k\<rparr>)
       else case trigger_if real READ p (s\<lparr>epoll := k\<rparr>) of
              Inl e \<Rightarrow> Inl e | Inr s1 \<Rightarrow> trigger_if real WRITE p s1)"
    using c(1) ctl unfolding real_def by (simp add: idle_event_def Let_def)
  consider "s' = s" | "rt \<noteq> 0" "s' = s\<lparr>epoll := k\<rparr>"
    | s1 where "rt = 0" "trigger_if real READ p (s\<lparr>epoll := k\<rparr>) = Inr s1" "trigger_if real WRITE p s1 = Inr s'"
    using run res by (auto split: if_splits sum.splits)
  then show ?thesis
  proof cases
    case 1
    with ag show ?thesis by simp
  next
    case 2
    with ag spec_refused [OF spec ctl 2(1)] show ?thesis by (simp add: agrees_epoll)
  next
    case (3 s1)
    have "interest k = (interest (epoll s))(int j := entry p (fc_events c AND NOT real))"
      using spec_mod_or_del [OF spec] ctl 3(1) c(2) by simp
    with evs 3 c here show ?thesis
      by (intro agrees_triggered [OF inv ag c(1) _ here 3(2,3) evs(1,1)]) (auto simp: events_ok_def)
  qed
qed

text \<open>
  The requests on descriptors of the table, and the events reported for them. A removal by
  \<open>delEvent\<close> counts only if the kernel accepts it, because the code goes on when it does not.
\<close>

inductive served :: "'k epoll_ctl \<Rightarrow> 'k iomanager \<Rightarrow> 'k iomanager \<Rightarrow> bool" for ctl where
  add: "0 \<le> fd \<Longrightarrow> fd < int (length (m_fdContexts s)) \<Longrightarrow> q \<in> dom (scheds s) \<Longrightarrow> e \<in> {READ, WRITE} \<Longrightarrow>
    addEvent ctl s fd e (Some cb) (Some q) cur st = Inr (b, s') \<Longrightarrow> served ctl s s'"
| del: "0 \<le> fd \<Longrightarrow> e \<in> {READ, WRITE} \<Longrightarrow> (\<forall>op bits d. fst (ctl (epoll s) op fd bits d) = 0) \<Longrightarrow>
    delEvent ctl s fd e = Inr (b, s') \<Longrightarrow> served ctl s s'"
| cancel: "0 \<le> fd \<Longrightarrow> e \<in> {READ, WRITE} \<Longrightarrow> cancelEvent ctl s fd e = Inr (b, s') \<Longrightarrow> served ctl s s'"
| cancel_all: "0 \<le> fd \<Longrightarrow> cancelAll ctl s fd = Inr (b, s') \<Longrightarrow> served ctl s s'"
| event: "j < length (m_fdContexts s) \<Longrightarrow> m_fdContexts s ! j = Some p \<Longrightarrow>
    idle_event ctl s (CtxPtr p, bits) = Inr s' \<Longrightarrow> served ctl s s'"

lemma served_agrees:
  "served ctl s s' \<Longrightarrow> epoll_spec ctl interest \<Longrightarrow> io_inv s \<Longrightarrow> agrees interest s \<Longrightarrow> agrees interest s'"
proof (induction rule: served.induct)
  case (add fd s q e cb cur st b s')
  from agrees_add [OF add.prems(2,3,1) add.hyps(1,2,3) _ add.hyps(5)] add.hyps(4) show ?case by simp
next
  case (del fd e s b s')
  from agrees_del [OF del.prems(2,3,1) del.hyps(1) _ del.hyps(4,3)] del.hyps(2) show ?case by simp
next
  case (cancel fd e s b s')
  from agrees_cancel [OF cancel.prems(2,3,1) cancel.hyps(1) _ cancel.hyps(3)] cancel.hyps(2) show ?case by simp
next
  case (cancel_all fd s b s')
  from agrees_cancelAll [OF cancel_all.prems(2,3,1) cancel_all.hyps] show ?case .
next
  case (event j s p bits s')
  from agrees_event [OF event.prems(2,3,1) event.hyps] show ?case .
qed

lemma served_inv:
  assumes "served ctl s s'" and "io_inv s"
  shows "io_inv s'"
  using assms
proof (induction rule: served.induct)
  case (add fd s q e cb cur st b s')
  from add.prems add.hyps(1) show ?case
  proof (cases rule: find_context_inv)
    case (inside p c)
    with add.hyps(5) addEvent_register_inv [OF add.prems inside(3) add.hyps(3)] show ?thesis
      by (simp add: addEvent_found)
  qed (use add.hyps(2) in simp)
qed (auto intro: delEvent_inv cancelEvent_inv cancelAll_inv idle_event_inv)

interpretation served: transition_inv "\<lambda>s. io_inv s \<and> epoll_spec ctl interest \<and> agrees interest s" "served ctl"
    "\<lambda>s. io_inv s \<and> epoll_spec ctl interest \<and> agrees interest s"
  for ctl :: "'k epoll_ctl" and interest
  by unfold_locales (auto intro: served_inv served_agrees)


definition map_kernel :: "(int \<rightharpoonup> u32 \<times> epoll_data) epoll_ctl" where
  "map_kernel k op fd bits d =
     (if (op = CTL_ADD) = (k fd \<noteq> None) then (-1, k)
      else (0, if op = CTL_DEL then k(fd := None) else k(fd \<mapsto> (bits, d))))"

lemma map_kernel_spec: "epoll_spec map_kernel (\<lambda>k. k)"
  by (auto simp: epoll_spec_def map_kernel_def)


subsection \<open>Growing the table from two threads\<close>

lemma fill_contexts_new:
  assumes "fill_contexts i cs h n = (cs', h', n')" and "dom h \<subseteq> {..<n}" and "entries_ok i cs h"
    and "j < length cs" and "cs ! j = None"
  shows "\<exists>q. cs' ! j = Some q \<and> h' q = Some (new_fd_context (int (i + j)))"
  using assms
proof (induction i cs h n arbitrary: cs' h' n' j rule: fill_contexts.induct)
  case (1 i h n)
  then show ?case by simp
next
  case (2 i p cs h n)
  then obtain ds where r: "fill_contexts (Suc i) cs h n = (ds, h', n')" "cs' = Some p # ds"
    by (auto split: prod.splits)
  from 2(5,6) obtain j' where j: "j = Suc j'" "j' < length cs" "cs ! j' = None"
    by (cases j) auto
  from 2(1) [OF r(1) 2(3) _ j(2,3)] 2(4) r(2) j(1) show ?case by (simp add: entries_ok_Cons)
next
  case (3 i cs h n)
  let ?h = "h(n \<mapsto> new_fd_context (int i))"
  from 3(2) obtain ds where r: "fill_contexts (Suc i) cs ?h (Suc n) = (ds, h', n')" "cs' = Some n # ds"
    by (auto split: prod.splits)
  have "h \<subseteq>\<^sub>m ?h" using 3(3) by (auto simp: map_le_def)
  then have ent: "entries_ok (Suc i) cs ?h"
    using 3(4) entries_ok_mono by (simp add: entries_ok_Cons)
  have dom: "dom ?h \<subseteq> {..<Suc n}" using 3(3) by auto
  show ?case
  proof (cases j)
    case 0
    from fill_contexts_spec [OF r(1) dom ent] have "?h \<subseteq>\<^sub>m h'" by blast
    from map_leD [OF this, of n] 0 r(2) show ?thesis by simp
  next
    case (Suc j')
    with 3(5,6) have "j' < length cs" "cs ! j' = None" by auto
    from 3(1) [OF r(1) dom ent this] r(2) Suc show ?thesis by simp
  qed
qed

lemma contextResize_facts:
  assumes "io_inv s"
  shows "fd_heap s \<subseteq>\<^sub>m fd_heap (contextResize s n) \<and> scheds (contextResize s n) = scheds s \<and>
    (\<forall>j. length (m_fdContexts s) \<le> j \<and> j < n \<longrightarrow>
       (\<exists>q. m_fdContexts (contextResize s n) ! j = Some q \<and>
            fd_heap (contextResize s n) q = Some (new_fd_context (int j))))"
proof -
  let ?cs = "take n (m_fdContexts s) @ replicate (n - length (m_fdContexts s)) None"
  obtain cs' h' n' where f: "fill_contexts 0 ?cs (fd_heap s) (next_addr s) = (cs', h', n')"
    by (metis prod_cases3)
  have ent: "entries_ok 0 ?cs (fd_heap s)"
    using assms unfolding io_inv_entries entries_ok_def by (auto simp: nth_append split: if_splits)
  have dom: "dom (fd_heap s) \<subseteq> {..<next_addr s}" using assms by (simp add: io_inv_def)
  have "\<exists>q. cs' ! j = Some q \<and> h' q = Some (new_fd_context (int j))"
    if "length (m_fdContexts s) \<le> j \<and> j < n" for j
  proof -
    from that have "j < length ?cs" "?cs ! j = None"
      by (auto simp: nth_append)
    from fill_contexts_new [OF f dom ent this] show ?thesis by simp
  qed
  moreover have "contextResize s n = s\<lparr>m_fdContexts := cs', fd_heap := h', next_addr := n'\<rparr>"
    by (simp only: contextResize_def Let_def f prod.case)
  ultimately show ?thesis
    using fill_contexts_spec [OF f dom ent] by simp
qed

lemma addEvent_grow_eq:
  assumes inv: "io_inv s" and fd: "int (length (m_fdContexts s)) \<le> fd" "2 \<le> fd"
  obtains p where "addEvent_grow s fd = Inr (p, contextResize s (nat (fd * 3 div 2)))"
    and "fd_heap (contextResize s (nat (fd * 3 div 2))) p = Some (new_fd_context fd)"
    and "m_fdContexts (contextResize s (nat (fd * 3 div 2))) ! nat fd = Some p"
proof -
  have lt: "nat fd < nat (fd * 3 div 2)" using fd(2) by linarith
  have "length (m_fdContexts s) \<le> nat fd" using fd by linarith
  with lt contextResize_facts [OF inv, of "nat (fd * 3 div 2)"] obtain p
    where "m_fdContexts (contextResize s (nat (fd * 3 div 2))) ! nat fd = Some p"
      "fd_heap (contextResize s (nat (fd * 3 div 2))) p = Some (new_fd_context (int (nat fd)))"
    by blast
  with that lt fd contextResize_inv(2) [OF inv, of "nat (fd * 3 div 2)"] show thesis
    by (simp add: addEvent_grow_def Let_def)
qed



subsection \<open>An idle round\<close>

definition cb_task :: "callback option \<Rightarrow> task" where
  "cb_task cb = \<lparr>task_fiber = None, task_cb = cb, task_thread = -1\<rparr>"

lemma expired_tasks:
  "filter task_nonnull (map task_of (map ByCbPtr cbs)) = map cb_task (filter (\<lambda>c. c \<noteq> None) cbs)"
  by (induction cbs) (auto simp: task_of_def task_nonnull_def cb_task_def)

lemma schedule_expired_queue:
  assumes own: "scheds s (io_this s) = Some own"
  obtains s' where "schedule_expired s cbs = Inr s'" and "io_timers s' = io_timers s" and "epoll s' = epoll s"
    and "queue_of s' (io_this s) = m_tasks own @ map cb_task (filter (\<lambda>c. c \<noteq> None) cbs)"
    and "tickles s' = (if cbs \<noteq> [] \<and> m_tasks own = [] then tickles s @ [io_this s] else tickles s)"
proof (cases "cbs = []")
  case True
  with own that [of s] show ?thesis by (simp add: schedule_expired_def queue_of_def)
next
  case False
  let ?own = "fold enqueue (map ByCbPtr cbs) own"
  let ?s = "s\<lparr>scheds := (scheds s)(io_this s \<mapsto> ?own),
      tickles := (if m_tasks own = [] then tickles s @ [io_this s] else tickles s)\<rparr>"
  have "schedule_expired s cbs = Inr ?s"
    using False own by (simp add: schedule_expired_def schedule_range_def schedule_loop_eq)
  moreover have "queue_of ?s (io_this s) = m_tasks own @ map cb_task (filter (\<lambda>c. c \<noteq> None) cbs)"
    unfolding expired_tasks [symmetric] scheduler_queue.contents_enq_all [symmetric]
    by (simp add: queue_of_def)
  ultimately show ?thesis using that [of ?s] False by simp
qed

text \<open>
  A round of the idle loop on a manager that is not ready to stop: when no event is reported,
  it appends exactly the callbacks of the timers that have expired by the time \<open>epoll_wait\<close> returns
  (empty ones are dropped) to the queue of its own scheduler, in the order of \<open>listExpiredCb\<close>, wakes a
  worker if that queue was empty, and goes on; \<open>epoll_wait\<close> was given at most 3000 ms.
\<close>

lemma idle_round_runs_timers:
  assumes own: "scheds s (io_this s) = Some own"
    and busy: "\<not> (fst (getNextTimer (io_timers s) now) = NOT 0 \<and> stopping own \<and> m_pendingEventCount s = 0)"
    and quiet: "\<And>t. t \<le> 3000 \<Longrightarrow> wait t = []"
    and expired: "listExpiredCb (snd (getNextTimer (io_timers s) now)) now2 p [] = (cbs, ti)"
  shows "\<exists>s'. idle_round ctl s now wait now2 p = Inr (Some s') \<and> io_timers s' = ti \<and>
    queue_of s' (io_this s) = m_tasks own @ map cb_task (filter (\<lambda>c. c \<noteq> None) cbs) \<and>
    tickles s' = (if cbs \<noteq> [] \<and> m_tasks own = [] then tickles s @ [io_this s] else tickles s)"
proof -
  obtain t ti0 where next_t: "getNextTimer (io_timers s) now = (t, ti0)" by fastforce
  have "epoll_timeout t \<le> 3000"
    by (auto simp: epoll_timeout_def Let_def to_int_def)
  then have wait: "wait (epoll_timeout t) = []" by (rule quiet)
  have stop: "io_stopping s now = Some (False, t, s\<lparr>io_timers := ti0\<rparr>)"
    using own busy next_t by (simp add: io_stopping_def)
  let ?s = "s\<lparr>io_timers := ti\<rparr>"
  have "scheds ?s (io_this ?s) = Some own" using own by simp
  then obtain s' where s': "schedule_expired ?s cbs = Inr s'" "io_timers s' = ti"
    "queue_of s' (io_this s) = m_tasks own @ map cb_task (filter (\<lambda>c. c \<noteq> None) cbs)"
    "tickles s' = (if cbs \<noteq> [] \<and> m_tasks own = [] then tickles s @ [io_this s] else tickles s)"
    by (rule schedule_expired_queue [where cbs = cbs]) simp_all
  have "idle_round ctl s now wait now2 p = Inr (Some s')"
    using expired next_t s'(1) by (simp add: idle_round_def stop wait Let_def)
  with s' show ?thesis by blast
qed

end
