(* ===== verification/IO_Work.thy ===== *)
theory IO_Work
  imports IO_Kernel
begin

text \<open>
  The work an I/O manager holds: the tasks in the queue of its scheduler and the callbacks and fibers
  registered for events. Every operation moves work from one place to the other or says what it adds
  or removes.
\<close>

subsection \<open>Work that is registered\<close>

definition slot_tasks :: "fd_context \<Rightarrow> task multiset" where
  "slot_tasks c =
     (if fc_events c AND READ \<noteq> 0 then {#event_task (fc_read c)#} else {#}) +
     (if fc_events c AND WRITE \<noteq> 0 then {#event_task (fc_write c)#} else {#})"

definition registered_work :: "(ptr \<rightharpoonup> fd_context) \<Rightarrow> task multiset" where
  "registered_work h = (\<Sum>p \<in> dom h. slot_tasks (the (h p)))"

text \<open>The events of a context were registered by threads of scheduler \<open>q\<close>.\<close>

definition own_ctx :: "ptr \<Rightarrow> fd_context \<Rightarrow> bool" where
  "own_ctx q c \<longleftrightarrow>
     (fc_events c AND READ \<noteq> 0 \<longrightarrow> ec_scheduler (fc_read c) = Some q) \<and>
     (fc_events c AND WRITE \<noteq> 0 \<longrightarrow> ec_scheduler (fc_write c) = Some q)"

definition own_inv :: "'k iomanager \<Rightarrow> bool" where
  "own_inv s \<longleftrightarrow> io_inv s \<and> (\<forall>p c. fd_heap s p = Some c \<longrightarrow> own_ctx (io_this s) c)"

definition io_work :: "'k iomanager \<Rightarrow> task multiset" where
  "io_work s = mset (queue_of s (io_this s)) + registered_work (fd_heap s)"

lemma own_invD: "own_inv s \<Longrightarrow> io_inv s" "own_inv s \<Longrightarrow> fd_heap s p = Some c \<Longrightarrow> own_ctx (io_this s) c"
  by (simp_all add: own_inv_def)

lemma slot_tasks_new [simp]: "slot_tasks (new_fd_context j) = {#}" "own_ctx q (new_fd_context j)"
  by (simp_all add: slot_tasks_def own_ctx_def new_fd_context_def)

lemma registered_work_update:
  assumes "finite (dom h)" and "h p = Some c"
  shows "registered_work (h(p \<mapsto> c')) + slot_tasks c = registered_work h + slot_tasks c'"
proof -
  have d: "dom (h(p \<mapsto> c')) = dom h" using assms(2) by auto
  have "registered_work (h(p \<mapsto> c')) = slot_tasks c' + (\<Sum>q \<in> dom h - {p}. slot_tasks (the (h q)))"
    unfolding registered_work_def d using assms by (subst sum.remove [of _ p]) (auto intro: sum.cong)
  moreover have "registered_work h = slot_tasks c + (\<Sum>q \<in> dom h - {p}. slot_tasks (the (h q)))"
    unfolding registered_work_def using assms by (subst sum.remove [of _ p]) auto
  ultimately show ?thesis by (simp add: ac_simps)
qed

lemma registered_work_new:
  assumes "finite (dom h')" and "h \<subseteq>\<^sub>m h'"
    and "\<And>p c. h' p = Some c \<Longrightarrow> h p = Some c \<or> (\<exists>j. c = new_fd_context j)"
  shows "registered_work h' = registered_work h"
proof -
  have sub: "dom h \<subseteq> dom h'" using map_le_implies_dom_le [OF assms(2)] .
  have "registered_work h' = (\<Sum>p \<in> dom h. slot_tasks (the (h' p)))"
    unfolding registered_work_def
  proof (rule sum.mono_neutral_right [OF assms(1) sub], intro ballI)
    fix p assume "p \<in> dom h' - dom h"
    then obtain c where "h' p = Some c" "h p = None" by blast
    with assms(3) [of p c] show "slot_tasks (the (h' p)) = {#}" by auto
  qed
  also have "\<dots> = registered_work h"
    unfolding registered_work_def
    using map_leD [OF assms(2)] by (intro sum.cong) auto
  finally show ?thesis .
qed

lemma registered_work_empty:
  "(\<And>p c. h p = Some c \<Longrightarrow> \<exists>j. c = new_fd_context j) \<Longrightarrow> registered_work h = {#}"
  unfolding registered_work_def by (intro sum.neutral) (force simp: dom_def)

text \<open>Clearing and setting one event of a context.\<close>

lemma slot_tasks_clear:
  assumes "ctx_ok sc c" and "e = READ \<or> e = WRITE" and "fc_events c AND e \<noteq> 0" and "getContext c e = Some x"
  shows "slot_tasks c = slot_tasks (putContext (c\<lparr>fc_events := fc_events c AND NOT e\<rparr>) e y) + {#event_task x#}"
    and "own_ctx q c \<Longrightarrow> own_ctx q (putContext (c\<lparr>fc_events := fc_events c AND NOT e\<rparr>) e y)"
  using assms
  by (auto simp: slot_tasks_def own_ctx_def ctx_ok_def events_ok_def putContext_def getContext_def)

lemma slot_tasks_set:
  assumes "ctx_ok sc c" and "e = READ \<or> e = WRITE" and "fc_events c AND e = 0"
  shows "slot_tasks (putContext (c\<lparr>fc_events := fc_events c OR e\<rparr>) e x) = slot_tasks c + {#event_task x#}"
    and "own_ctx q c \<Longrightarrow> ec_scheduler x = Some q \<Longrightarrow>
      own_ctx q (putContext (c\<lparr>fc_events := fc_events c OR e\<rparr>) e x)"
  using assms
  by (auto simp: slot_tasks_def own_ctx_def ctx_ok_def events_ok_def putContext_def)

lemma slot_owner:
  "own_ctx q c \<Longrightarrow> e = READ \<or> e = WRITE \<Longrightarrow> fc_events c AND e \<noteq> 0 \<Longrightarrow> getContext c e = Some x \<Longrightarrow>
     ec_scheduler x = Some q"
  by (auto simp: own_ctx_def getContext_def)

lemma own_inv_store:
  assumes "own_inv s" and "io_inv s'" and "io_this s' = io_this s" and "fd_heap s' = (fd_heap s)(p \<mapsto> c)"
    and "own_ctx (io_this s) c"
  shows "own_inv s'"
  using assms by (auto simp: own_inv_def)

lemma own_inv_epoll [simp]: "own_inv (s\<lparr>epoll := k\<rparr>) = own_inv s" "io_work (s\<lparr>epoll := k\<rparr>) = io_work s"
  by (simp_all add: own_inv_def io_work_def queue_of_def)

text \<open>
  The scheduler of the manager only gets new tasks at the end of its queue, none of them empty.
\<close>

definition fed :: "'k iomanager \<Rightarrow> 'k iomanager \<Rightarrow> bool" where
  "fed s s' \<longleftrightarrow> io_this s' = io_this s \<and> io_timers s' = io_timers s \<and>
     (\<exists>own tks. scheds s (io_this s) = Some own \<and> (\<forall>tk \<in> set tks. task_nonnull tk) \<and>
        scheds s' (io_this s) = Some (own\<lparr>m_tasks := m_tasks own @ tks\<rparr>))"

lemma fed_this: "fed s s' \<Longrightarrow> io_this s' = io_this s \<and> io_timers s' = io_timers s"
  by (simp add: fed_def)

lemma fed_same:
  assumes "own_inv s" and "scheds s' = scheds s" and "io_this s' = io_this s" and "io_timers s' = io_timers s"
  shows "fed s s'"
proof -
  from assms(1) obtain own where "scheds s (io_this s) = Some own"
    by (auto simp: own_inv_def io_inv_def)
  with assms(2-4) show ?thesis
    unfolding fed_def by (intro conjI exI [of _ own] exI [of _ "[]"]) simp_all
qed

lemma fed_refl: "own_inv s \<Longrightarrow> fed s s"
  by (rule fed_same) simp_all

lemma fed_trans:
  assumes "fed s t" and "fed t u"
  shows "fed s u"
proof -
  from assms(1) obtain own tks where t: "scheds s (io_this s) = Some own" "\<forall>tk \<in> set tks. task_nonnull tk"
    "scheds t (io_this s) = Some (own\<lparr>m_tasks := m_tasks own @ tks\<rparr>)" "io_this t = io_this s"
    "io_timers t = io_timers s" by (auto simp: fed_def)
  with assms(2) obtain tks' where "\<forall>tk \<in> set tks'. task_nonnull tk" "io_this u = io_this s" "io_timers u = io_timers s"
    "scheds u (io_this s) = Some (own\<lparr>m_tasks := m_tasks own @ tks @ tks'\<rparr>)"
    by (auto simp: fed_def)
  with t show ?thesis
    unfolding fed_def by (intro conjI exI [of _ own] exI [of _ "tks @ tks'"]) auto
qed

lemma fed_epoll [simp]: "fed (s\<lparr>epoll := k\<rparr>) t = fed s t" "fed s (t\<lparr>epoll := k\<rparr>) = fed s t"
  by (simp_all add: fed_def)

lemma enqueue_nonnull:
  "task_nonnull (task_of fc) \<Longrightarrow> enqueue fc sc = sc\<lparr>m_tasks := m_tasks sc @ [task_of fc]\<rparr>"
  using fold_enqueue [of "[fc]" sc] by simp

subsection \<open>Operations that move work\<close>

lemma trigger_if_work:
  assumes own: "own_inv s" and e: "e = READ \<or> e = WRITE" and res: "trigger_if bits e p s = Inr s'"
  shows "io_work s' = io_work s \<and> own_inv s' \<and> fed s s'"
proof (cases "bits AND e = 0")
  case True
  with own res show ?thesis by (simp add: trigger_if_def fed_refl)
next
  case False
  note inv = own_invD(1) [OF own]
  from False res obtain c where c: "fd_heap s p = Some c" "fc_events c AND e \<noteq> 0"
    by (auto simp: trigger_if_def triggerEvent_def split: option.splits if_splits sum.splits)
  from inv c(1) e show ?thesis
  proof (cases rule: trigger_if_result [where bits = bits])
    case (fire q sc x)
    note ok = io_inv_ctx [OF inv c(1)] and oc = own_invD(2) [OF own c(1)]
    let ?c = "putContext (c\<lparr>fc_events := fc_events c AND NOT e\<rparr>) e empty_event_context"
    let ?s = "count_down (triggered s p c e q sc x)"
    have q: "q = io_this s" using slot_owner [OF oc e c(2) fire(4)] fire(6) by simp
    have s': "s' = ?s" using res fire(3) by simp
    have sel: "fd_heap ?s = (fd_heap s)(p \<mapsto> ?c)" "io_this ?s = io_this s"
      "scheds ?s = (scheds s)(q \<mapsto> enqueue (work_of x) sc)" "io_timers ?s = io_timers s"
      by (simp_all add: count_down_def triggered_def)
    have enq: "enqueue (work_of x) sc = sc\<lparr>m_tasks := m_tasks sc @ [event_task x]\<rparr>"
      using enqueue_nonnull [of "work_of x" sc]
      by (simp add: task_of_work [OF fire(5)] slot_task_nonnull [OF fire(5)])
    have "fed s ?s"
      unfolding fed_def sel enq using fire(7) slot_task_nonnull [OF fire(5)]
      by (intro conjI exI [of _ sc] exI [of _ "[event_task x]"]) (simp_all add: q)
    moreover from enq have queue: "mset (queue_of ?s (io_this s)) = mset (queue_of s (io_this s)) + {#event_task x#}"
      using fire(7) unfolding queue_of_def sel by (simp add: q)
    moreover have "registered_work (fd_heap ?s) + slot_tasks c = registered_work (fd_heap s) + slot_tasks ?c"
      unfolding sel(1) by (rule registered_work_update [OF io_inv_finite [OF inv] c(1)])
    then have "registered_work (fd_heap s) = registered_work (fd_heap ?s) + {#event_task x#}"
      using slot_tasks_clear(1) [OF ok e c(2) fire(4), of empty_event_context] by (simp add: ac_simps)
    moreover have "own_inv ?s"
      by (rule own_inv_store [OF own trigger_count_inv [OF inv c(1) e c(2) fire(7)] sel(2,1)])
        (rule slot_tasks_clear(2) [OF ok e c(2) fire(4) oc])
    ultimately show ?thesis
      by (simp add: s' io_work_def queue sel(2) ac_simps)
  qed (use False res c in simp_all)
qed

lemma cancelEvent_work:
  assumes own: "own_inv s" and res: "cancelEvent ctl s fd e = Inr (b, s')"
  shows "io_work s' = io_work s \<and> own_inv s' \<and> fed s s'"
proof (cases b)
  case False
  with res own show ?thesis
    by (auto simp: cancelEvent_def Let_def fed_refl split: sum.splits option.splits if_splits prod.splits)
next
  case True
  with res obtain p k s1 where t: "triggerEvent (s\<lparr>epoll := k\<rparr>) p e = Inr s1"
    and s': "s' = s1\<lparr>m_pendingEventCount := m_pendingEventCount s1 - 1\<rparr>"
    by (auto simp: cancelEvent_def Let_def split: sum.splits option.splits if_splits prod.splits)
  from t obtain c where c: "fd_heap s p = Some c" "fc_events c AND e \<noteq> 0" "getContext c e \<noteq> None"
    by (auto simp: triggerEvent_def Let_def split: option.splits if_splits)
  with single_event [OF io_inv_ctx [OF own_invD(1) [OF own]]] have e: "e = READ \<or> e = WRITE" by blast
  then have "trigger_if e e p (s\<lparr>epoll := k\<rparr>) = Inr s'"
    using t s' by (auto simp: trigger_if_def)
  from trigger_if_work [OF _ e this] own show ?thesis by simp
qed

lemma trigger_both_work:
  assumes "own_inv s" and "trigger_if b1 READ p (s\<lparr>epoll := k\<rparr>) = Inr s1" and "trigger_if b2 WRITE p s1 = Inr s'"
  shows "io_work s' = io_work s \<and> own_inv s' \<and> fed s s'"
  using trigger_if_work [OF _ _ assms(2)] trigger_if_work [OF _ _ assms(3)] assms(1)
  by (auto intro: fed_trans)

lemma cancelAll_work:
  assumes own: "own_inv s" and res: "cancelAll ctl s fd = Inr (b, s')"
  shows "io_work s' = io_work s \<and> own_inv s' \<and> fed s s'"
proof (cases b)
  case False
  with res own show ?thesis
    by (auto simp: cancelAll_def Let_def fed_refl split: sum.splits option.splits if_splits prod.splits)
next
  case True
  with res obtain p k s1 where "trigger_if (events_at (s\<lparr>epoll := k\<rparr>) p) READ p (s\<lparr>epoll := k\<rparr>) = Inr s1"
    "trigger_if (events_at s1 p) WRITE p s1 = Inr s'"
    by (auto simp: cancelAll_def Let_def split: sum.splits option.splits if_splits prod.splits)
  with trigger_both_work [OF own] show ?thesis by blast
qed

lemma idle_event_work:
  assumes own: "own_inv s" and res: "idle_event ctl s ev = Inr s'"
  shows "io_work s' = io_work s \<and> own_inv s' \<and> fed s s'"
  using res
proof (cases rule: idle_event_cases)
  case (3 k r p s1)
  with trigger_both_work [OF own] show ?thesis by blast
qed (use own in \<open>simp_all add: fed_refl\<close>)

subsection \<open>Operations that add or remove work\<close>

lemma register_work:
  assumes own: "own_inv s" and c: "fd_heap s p = Some c"
    and res: "addEvent_register ctl s p fd e cb (Some (io_this s)) cur st = Inr (b, s')"
  shows "io_work s' = io_work s + (if b
      then {#\<lparr>task_fiber = (if cb = None then Some cur else None), task_cb = cb, task_thread = -1\<rparr>#} else {#}) \<and>
    own_inv s' \<and> fed s s'"
proof -
  note inv = own_invD(1) [OF own] and ok = io_inv_ctx [OF own_invD(1) [OF own] c]
  have q: "io_this s \<in> dom (scheds s)" using inv by (simp add: io_inv_def)
  note inv' = addEvent_register_inv [OF inv c q res]
  obtain rt k where ctl: "ctl (epoll s) (if fc_events c \<noteq> 0 then CTL_MOD else CTL_ADD) fd
      (EPOLLET OR fc_events c OR e) (CtxPtr p) = (rt, k)" by fastforce
  have free: "fc_events c AND e = 0"
    using res c by (auto simp: addEvent_register_def split: if_splits)
  show ?thesis
  proof (cases "rt = 0")
    case False
    with res c ctl free have "s' = s\<lparr>epoll := k\<rparr> \<and> \<not> b"
      by (auto simp: addEvent_register_def)
    with own show ?thesis by (simp add: fed_refl)
  next
    case True
    with res c ctl free have e: "e = READ \<or> e = WRITE" and st: "cb \<noteq> None \<or> st = EXEC"
      by (auto simp: addEvent_register_def Let_def getContext_def split: option.splits if_splits)
    let ?x = "registration cb (Some (io_this s)) cur"
    let ?c = "putContext (c\<lparr>fc_events := fc_events c OR e\<rparr>) e ?x"
    have s': "b" "fd_heap s' = (fd_heap s)(p \<mapsto> ?c)" "scheds s' = scheds s" "io_this s' = io_this s"
      "io_timers s' = io_timers s"
      using addEvent_register_eq [where ctl = ctl, OF c ok e free st ctl, of "Some (io_this s)" cur] res True
      by auto
    have "registered_work (fd_heap s') + slot_tasks c = registered_work (fd_heap s) + slot_tasks ?c"
      unfolding s'(2) by (rule registered_work_update [OF io_inv_finite [OF inv] c])
    then have "registered_work (fd_heap s') = registered_work (fd_heap s) + {#event_task ?x#}"
      using slot_tasks_set(1) [OF ok e free, of ?x] by (simp add: ac_simps)
    moreover have "own_inv s'"
      by (rule own_inv_store [OF own inv' s'(4,2)])
        (rule slot_tasks_set(2) [OF ok e free own_invD(2) [OF own c]], simp add: registration_def)
    ultimately show ?thesis
      using s' fed_same [OF own s'(3-5)]
      by (simp add: io_work_def queue_of_def event_task_def registration_def ac_simps)
  qed
qed

lemma delEvent_work:
  assumes own: "own_inv s" and f: "find_context s fd = Inr (Some (p, c))" and x: "getContext c e = Some x"
    and res: "delEvent ctl s fd e = Inr (True, s')"
  shows "io_work s' + {#event_task x#} = io_work s \<and> own_inv s' \<and> fed s s'"
proof -
  note inv = own_invD(1) [OF own] and c = find_context_SomeD [OF f]
  note ok = io_inv_ctx [OF inv c]
  have on: "fc_events c AND e \<noteq> 0"
    using res f by (auto simp: delEvent_def)
  have e: "e = READ \<or> e = WRITE" using single_event [OF ok on] x by simp
  obtain rt k where ctl: "ctl (epoll s) (if fc_events c AND NOT e \<noteq> 0 then CTL_MOD else CTL_DEL) fd
      (EPOLLET OR fc_events c AND NOT e) (CtxPtr p) = (rt, k)" by fastforce
  let ?c = "putContext (c\<lparr>fc_events := fc_events c AND NOT e\<rparr>) e (resetContext x)"
  have s': "fd_heap s' = (fd_heap s)(p \<mapsto> ?c)" "scheds s' = scheds s" "io_this s' = io_this s"
      "io_timers s' = io_timers s"
    using res f on x ctl by (auto simp: delEvent_def Let_def)
  have "registered_work (fd_heap s') + slot_tasks c = registered_work (fd_heap s) + slot_tasks ?c"
    unfolding s'(1) by (rule registered_work_update [OF io_inv_finite [OF inv] c])
  then have "registered_work (fd_heap s') + {#event_task x#} = registered_work (fd_heap s)"
    using slot_tasks_clear(1) [OF ok e on x, of "resetContext x"] by (simp add: ac_simps)
  moreover have "own_inv s'"
    by (rule own_inv_store [OF own delEvent_inv [OF inv res] s'(3,1)])
      (rule slot_tasks_clear(2) [OF ok e on x own_invD(2) [OF own c]])
  ultimately show ?thesis
    using s' fed_same [OF own s'(2-4)] by (simp add: io_work_def queue_of_def ac_simps)
qed

lemma delEvent_none: "delEvent ctl s fd e = Inr (False, s') \<Longrightarrow> s' = s"
  by (auto simp: delEvent_def Let_def split: sum.splits option.splits if_splits prod.splits)

lemma resize_work:
  assumes own: "own_inv s"
  shows "io_work (contextResize s n) = io_work s \<and> own_inv (contextResize s n) \<and>
    fed s (contextResize s n)"
proof -
  note inv = own_invD(1) [OF own]
  let ?cs = "take n (m_fdContexts s) @ replicate (n - length (m_fdContexts s)) None"
  obtain cs h n' where f: "fill_contexts 0 ?cs (fd_heap s) (next_addr s) = (cs, h, n')"
    by (metis prod_cases3)
  have eq: "contextResize s n = s\<lparr>m_fdContexts := cs, fd_heap := h, next_addr := n'\<rparr>"
    by (simp only: contextResize_def Let_def f prod.case)
  have "entries_ok 0 ?cs (fd_heap s)"
    using inv unfolding io_inv_entries entries_ok_def by (auto simp: nth_append split: if_splits)
  from fill_contexts_spec [OF f _ this] inv have h: "fd_heap s \<subseteq>\<^sub>m h"
    "\<And>p c. h p = Some c \<Longrightarrow> fd_heap s p = Some c \<or> (\<exists>j. c = new_fd_context j)"
    by (auto simp: io_inv_def)
  note inv' = contextResize_inv(1) [OF inv, of n]
  have "registered_work h = registered_work (fd_heap s)"
    using io_inv_finite [OF inv'] by (intro registered_work_new [OF _ h]) (simp add: eq)
  moreover have "own_ctx (io_this s) c" if "h p = Some c" for p c
    using h(2) [OF that] own_invD(2) [OF own] by auto
  ultimately show ?thesis
    using inv' fed_same [OF own, of "contextResize s n"] by (simp add: eq io_work_def queue_of_def own_inv_def)
qed

lemma grow_work:
  "own_inv s \<Longrightarrow> addEvent_grow s fd = Inr (p, s') \<Longrightarrow>
     io_work s' = io_work s \<and> own_inv s' \<and> fed s s'"
  using resize_work [of s "nat (fd * 3 div 2)"]
  by (auto simp: addEvent_grow_def Let_def split: if_splits option.splits)

lemma cb_task_nonnull: "tk \<in> set (map cb_task (filter (\<lambda>c. c \<noteq> None) cbs)) \<Longrightarrow> task_nonnull tk"
  by (auto simp: cb_task_def task_nonnull_def)

lemma schedule_expired_work:
  assumes own: "own_inv s" and res: "schedule_expired s cbs = Inr s'"
  shows "io_work s' = io_work s + mset (map cb_task (filter (\<lambda>c. c \<noteq> None) cbs)) \<and> own_inv s' \<and>
    fed s s'"
proof (cases "cbs = []")
  case True
  with own res show ?thesis by (simp add: schedule_expired_def fed_refl)
next
  case False
  note inv = own_invD(1) [OF own]
  from inv obtain sc where sc: "scheds s (io_this s) = Some sc" by (auto simp: io_inv_def)
  let ?tks = "map cb_task (filter (\<lambda>c. c \<noteq> None) cbs)"
  let ?scs = "(scheds s)(io_this s \<mapsto> sc\<lparr>m_tasks := m_tasks sc @ ?tks\<rparr>)"
  let ?ts = "if m_tasks sc = [] then tickles s @ [io_this s] else tickles s"
  have s': "s' = s\<lparr>scheds := ?scs, tickles := ?ts\<rparr>"
    unfolding expired_tasks [symmetric] using res False sc
    by (simp add: schedule_expired_def schedule_range_def schedule_loop_eq fold_enqueue)
  have "dom ?scs = dom (scheds s)" using sc by auto
  then have "io_inv s'" unfolding s' by (rule io_inv_scheds [OF inv])
  moreover have "fed s s'"
    unfolding fed_def s' using sc cb_task_nonnull
    by (intro conjI exI [of _ sc] exI [of _ ?tks]) simp_all
  ultimately show ?thesis
    using own sc unfolding s' by (simp add: own_inv_def io_work_def queue_of_def ac_simps)
qed

end
