(* ===== verification/IO_System.thy ===== *)
theory IO_System
  imports IO_Work Scheduler_Runs Timer_Props
begin

text \<open>
  The whole I/O manager at work: the worker threads of \<open>Scheduler::run\<close>, each with the idle loop
  \<open>IOManager::idle\<close> in place of \<open>Scheduler::idle\<close>, over one shared manager, together with the threads
  that register, remove and cancel events, set timers and submit work.

  The state joins the manager (\<open>IOManagers\<close>) and the pool of workers (\<open>Scheduler_Run\<close>): the scheduler
  of the pool is the entry of the manager's own address. A worker in the idle loop has a second
  program counter, its place in \<open>idle\<close>. A call of the virtual \<open>tickle()\<close> is first noted (\<open>tickles\<close>)
  and executed by a step of its own, since other threads can run between the unlocking of the queue and
  the test of \<open>m_idleThreadCount\<close>; \<open>y_pipe\<close> counts the bytes in the wake-up pipe. Events are registered by
  threads of this pool (\<open>Scheduler::GetThis()\<close> is the manager).
\<close>

subsection \<open>State\<close>

text \<open>
  The places in one round of \<open>idle\<close>: before the test of \<open>stopping\<close>; in \<open>epoll_wait\<close> with a timeout;
  after it, with the events it has filled in; after \<open>listExpiredCb\<close>; and in the loop over the events.
\<close>

datatype idle_pc =
    LoopTop
  | Waiting int
  | Reported "(epoll_data \<times> u32) list"
  | Expired "callback option list" "(epoll_data \<times> u32) list"
  | Dispatching "(epoll_data \<times> u32) list"

record 'k iosys =
  mgr :: "'k iomanager"
  y_fstates :: "ptr \<rightharpoonup> fstate"
  y_workers :: "worker list"
  y_idles :: "idle_pc list"
  y_pipe :: nat
  y_aborted :: bool

datatype io_label =
    Worker label
  | Registered task
  | Deleted task
  | TimersFired "callback option list"
  | Silent

definition own_sched :: "'k iosys \<Rightarrow> scheduler" where
  "own_sched S = the (scheds (mgr S) (io_this (mgr S)))"

definition view :: "'k iosys \<Rightarrow> sys" where
  "view S = \<lparr>sch = own_sched S, fstates = y_fstates S, workers = y_workers S, aborted = y_aborted S\<rparr>"

definition note_tickle :: "bool \<Rightarrow> 'k iomanager \<Rightarrow> 'k iomanager" where
  "note_tickle b m = (if b then m\<lparr>tickles := tickles m @ [io_this m]\<rparr> else m)"

definition put_view :: "'k iosys \<Rightarrow> sys \<Rightarrow> bool \<Rightarrow> 'k iosys" where
  "put_view S v tick = S\<lparr>
     mgr := note_tickle tick ((mgr S)\<lparr>scheds := (scheds (mgr S))(io_this (mgr S) \<mapsto> sch v)\<rparr>),
     y_fstates := fstates v, y_workers := workers v, y_aborted := aborted v\<rparr>"

text \<open>The workers in the idle loop move by the rules below and not by that of \<open>Scheduler::idle\<close>.\<close>

definition idle_pinned :: "sys \<Rightarrow> sys \<Rightarrow> bool" where
  "idle_pinned v v' \<longleftrightarrow>
     (\<forall>i < length (workers v). w_pc (workers v ! i) = InIdle \<longrightarrow> workers v' ! i = workers v ! i)"

text \<open>
  The steps of a worker or a submitting thread that call \<open>tickle()\<close>: submitting to an empty queue, and
  counting a task that was taken.
\<close>

definition calls_tickle :: "sys \<Rightarrow> label \<Rightarrow> sys \<Rightarrow> bool" where
  "calls_tickle v l v' =
     (case l of
        Submit _ \<Rightarrow> m_tasks (sch v) = []
      | _ \<Rightarrow> m_activeThreadCount (sch v') = m_activeThreadCount (sch v) + 1)"

definition idler :: "'k iosys \<Rightarrow> nat \<Rightarrow> worker \<Rightarrow> idle_pc \<Rightarrow> bool" where
  "idler S i w p \<longleftrightarrow>
     i < length (y_workers S) \<and> y_workers S ! i = w \<and> w_pc w = InIdle \<and>
     i < length (y_idles S) \<and> y_idles S ! i = p \<and> \<not> y_aborted S"

text \<open>
  \<open>epoll_wait\<close> only reports the wake-up pipe when it has a byte, and otherwise the pointers it was given.
\<close>

definition reportable :: "'k iosys \<Rightarrow> epoll_data \<Rightarrow> bool" where
  "reportable S d = (case d of TickleFd \<Rightarrow> y_pipe S > 0 | CtxPtr p \<Rightarrow> p \<in> dom (fd_heap (mgr S)))"

abbreviation idle_at :: "'k iosys \<Rightarrow> nat \<Rightarrow> idle_pc \<Rightarrow> 'k iosys" where
  "idle_at S i p \<equiv> S\<lparr>y_idles := (y_idles S)[i := p]\<rparr>"

abbreviation worker_at :: "'k iosys \<Rightarrow> nat \<Rightarrow> worker \<Rightarrow> 'k iosys" where
  "worker_at S i w \<equiv> S\<lparr>y_workers := (y_workers S)[i := w]\<rparr>"

subsection \<open>Steps\<close>

inductive iosys_step :: "'k epoll_ctl \<Rightarrow> 'k iosys \<Rightarrow> io_label \<Rightarrow> 'k iosys \<Rightarrow> bool" for ctl where
  pool: "sched_step (view S) l v \<Longrightarrow> idle_pinned (view S) v \<Longrightarrow>
    iosys_step ctl S (Worker l) (put_view S v (calls_tickle (view S) l v))"
| tickle: "\<not> y_aborted S \<Longrightarrow> tickles (mgr S) = q # qs \<Longrightarrow>
    iosys_step ctl S Silent (S\<lparr>mgr := (mgr S)\<lparr>tickles := qs\<rparr>,
      y_pipe := y_pipe S + (if io_tickle (own_sched S) then 1 else 0)\<rparr>)"
| call_tickle: "\<not> y_aborted S \<Longrightarrow> iosys_step ctl S Silent (S\<lparr>mgr := note_tickle True (mgr S)\<rparr>)"
| idle_stop: "idler S i w LoopTop \<Longrightarrow> io_stopping (mgr S) now = Some (True, t, m) \<Longrightarrow>
    iosys_step ctl S Silent ((worker_at S i (w\<lparr>w_pc := IdleBack, w_idle := FTERM\<rparr>))\<lparr>mgr := m\<rparr>)"
| idle_wait: "idler S i w LoopTop \<Longrightarrow> io_stopping (mgr S) now = Some (False, t, m) \<Longrightarrow>
    iosys_step ctl S Silent ((idle_at S i (Waiting (epoll_timeout t)))\<lparr>mgr := m\<rparr>)"
| idle_report: "idler S i w (Waiting n) \<Longrightarrow> \<forall>ev \<in> set evs. reportable S (fst ev) \<Longrightarrow>
    iosys_step ctl S Silent (idle_at S i (Reported evs))"
| idle_expire: "idler S i w (Reported evs) \<Longrightarrow> p \<notin> dom (heap (io_timers (mgr S))) \<Longrightarrow>
    listExpiredCb (io_timers (mgr S)) now p [] = (cbs, ti) \<Longrightarrow>
    iosys_step ctl S (TimersFired cbs)
      ((idle_at S i (Expired cbs evs))\<lparr>mgr := (mgr S)\<lparr>io_timers := ti\<rparr>\<rparr>)"
| idle_submit: "idler S i w (Expired cbs evs) \<Longrightarrow> schedule_expired (mgr S) cbs = Inr m \<Longrightarrow>
    iosys_step ctl S Silent ((idle_at S i (Dispatching evs))\<lparr>mgr := m\<rparr>)"
| idle_dispatch: "idler S i w (Dispatching (ev # evs)) \<Longrightarrow> idle_event ctl (mgr S) ev = Inr m \<Longrightarrow>
    iosys_step ctl S Silent ((idle_at S i (Dispatching evs))\<lparr>mgr := m,
      y_pipe := (if fst ev = TickleFd then 0 else y_pipe S)\<rparr>)"
| idle_abort: "idler S i w (Dispatching (ev # evs)) \<Longrightarrow> idle_event ctl (mgr S) ev = Inl e \<Longrightarrow>
    iosys_step ctl S Silent (S\<lparr>y_aborted := True\<rparr>)"
| idle_yield: "idler S i w (Dispatching []) \<Longrightarrow>
    iosys_step ctl S Silent ((worker_at S i (w\<lparr>w_pc := IdleBack\<rparr>))\<lparr>y_idles := (y_idles S)[i := LoopTop]\<rparr>)"
| register: "\<not> y_aborted S \<Longrightarrow> fd_heap (mgr S) p = Some c \<Longrightarrow>
    addEvent_register ctl (mgr S) p (fc_fd c) e cb (Some (io_this (mgr S))) cur st = Inr (True, m) \<Longrightarrow>
    iosys_step ctl S
      (Registered \<lparr>task_fiber = (if cb = None then Some cur else None), task_cb = cb, task_thread = -1\<rparr>)
      (S\<lparr>mgr := m\<rparr>)"
| refused: "\<not> y_aborted S \<Longrightarrow> fd_heap (mgr S) p = Some c \<Longrightarrow>
    addEvent_register ctl (mgr S) p (fc_fd c) e cb (Some (io_this (mgr S))) cur st = Inr (False, m) \<Longrightarrow>
    iosys_step ctl S Silent (S\<lparr>mgr := m\<rparr>)"
| register_abort: "\<not> y_aborted S \<Longrightarrow> fd_heap (mgr S) p = Some c \<Longrightarrow>
    addEvent_register ctl (mgr S) p (fc_fd c) e cb (Some (io_this (mgr S))) cur st = Inl x \<Longrightarrow>
    iosys_step ctl S Silent (S\<lparr>y_aborted := True\<rparr>)"
| grow: "\<not> y_aborted S \<Longrightarrow> 32 \<le> fd \<Longrightarrow> addEvent_grow (mgr S) fd = Inr (p, m) \<Longrightarrow>
    iosys_step ctl S Silent (S\<lparr>mgr := m\<rparr>)"
| delete: "\<not> y_aborted S \<Longrightarrow> find_context (mgr S) fd = Inr (Some (p, c)) \<Longrightarrow> getContext c e = Some x \<Longrightarrow>
    delEvent ctl (mgr S) fd e = Inr (True, m) \<Longrightarrow> iosys_step ctl S (Deleted (event_task x)) (S\<lparr>mgr := m\<rparr>)"
| delete_none: "\<not> y_aborted S \<Longrightarrow> delEvent ctl (mgr S) fd e = Inr (False, m) \<Longrightarrow>
    iosys_step ctl S Silent (S\<lparr>mgr := m\<rparr>)"
| cancel: "\<not> y_aborted S \<Longrightarrow> cancelEvent ctl (mgr S) fd e = Inr (b, m) \<Longrightarrow>
    iosys_step ctl S Silent (S\<lparr>mgr := m\<rparr>)"
| cancel_abort: "\<not> y_aborted S \<Longrightarrow> cancelEvent ctl (mgr S) fd e = Inl x \<Longrightarrow>
    iosys_step ctl S Silent (S\<lparr>y_aborted := True\<rparr>)"
| cancel_all: "\<not> y_aborted S \<Longrightarrow> cancelAll ctl (mgr S) fd = Inr (b, m) \<Longrightarrow>
    iosys_step ctl S Silent (S\<lparr>mgr := m\<rparr>)"
| timer: "\<not> y_aborted S \<Longrightarrow> tm_step (io_timers (mgr S)) ti \<Longrightarrow>
    iosys_step ctl S Silent (S\<lparr>mgr := (mgr S)\<lparr>io_timers := ti\<rparr>\<rparr>)"

inductive iosys_steps :: "'k epoll_ctl \<Rightarrow> 'k iosys \<Rightarrow> io_label list \<Rightarrow> 'k iosys \<Rightarrow> bool" for ctl where
  none: "iosys_steps ctl S [] S"
| more: "iosys_steps ctl S ls T \<Longrightarrow> iosys_step ctl T l U \<Longrightarrow> iosys_steps ctl S (ls @ [l]) U"

text \<open>The manager as its constructor leaves it, with every worker before its first round of \<open>run\<close>.\<close>

definition iosys_start :: "'k epoll_ctl \<Rightarrow> 'k iosys \<Rightarrow> bool" where
  "iosys_start ctl S \<longleftrightarrow>
     io_started ctl (mgr S) \<and> (\<exists>now. io_timers (mgr S) = new_timer_manager now) \<and>
     initial_sys (view S) \<and> y_idles S = replicate (length (y_workers S)) LoopTop \<and> y_pipe S = 0"

lemma view_sel [simp]:
  "sch (view S) = own_sched S" "fstates (view S) = y_fstates S" "workers (view S) = y_workers S"
  "aborted (view S) = y_aborted S"
  by (simp_all add: view_def)

lemma note_tickle_sel [simp]:
  "io_this (note_tickle b m) = io_this m" "epoll (note_tickle b m) = epoll m"
  "fd_heap (note_tickle b m) = fd_heap m" "m_fdContexts (note_tickle b m) = m_fdContexts m"
  "scheds (note_tickle b m) = scheds m" "io_timers (note_tickle b m) = io_timers m"
  "m_pendingEventCount (note_tickle b m) = m_pendingEventCount m" "m_tickleFd (note_tickle b m) = m_tickleFd m"
  "next_addr (note_tickle b m) = next_addr m"
  by (simp_all add: note_tickle_def)

lemma put_view_sel [simp]:
  "io_this (mgr (put_view S v b)) = io_this (mgr S)" "fd_heap (mgr (put_view S v b)) = fd_heap (mgr S)"
  "io_timers (mgr (put_view S v b)) = io_timers (mgr S)" "y_idles (put_view S v b) = y_idles S"
  "y_workers (put_view S v b) = workers v" "view (put_view S v b) = v"
  by (simp_all add: put_view_def view_def own_sched_def)

end
