(* ===== verification/IO_System_Props.thy ===== *)
theory IO_System_Props
  imports IO_System
begin

text \<open>
  The invariant of the whole I/O manager at work and the conservation of work: what is handed in, by
  submitting a task, registering an event or the expiry of a timer, is run exactly once or explicitly
  deleted, over every interleaving of workers, idle loops and user threads.
\<close>

subsection \<open>Accounting\<close>

fun taken_in :: "io_label \<Rightarrow> task multiset" where
  "taken_in (Worker l) = submitted l"
| "taken_in (Registered tk) = {#tk#}"
| "taken_in (TimersFired cbs) = mset (map cb_task (filter (\<lambda>c. c \<noteq> None) cbs))"
| "taken_in _ = {#}"

fun given_out :: "io_label \<Rightarrow> task multiset" where
  "given_out (Worker l) = finished l"
| "given_out (Deleted tk) = {#tk#}"
| "given_out _ = {#}"

text \<open>The callbacks of expired timers an idle loop has taken and not yet submitted.\<close>

fun expiring :: "idle_pc \<Rightarrow> task multiset" where
  "expiring (Expired cbs evs) = mset (map cb_task (filter (\<lambda>c. c \<noteq> None) cbs))"
| "expiring _ = {#}"

definition sys_work :: "'k iosys \<Rightarrow> task multiset" where
  "sys_work S = io_work (mgr S) + held (y_workers S) + sum_list (map expiring (y_idles S))"

definition iosys_inv :: "'k iosys \<Rightarrow> bool" where
  "iosys_inv S \<longleftrightarrow> own_inv (mgr S) \<and> sched_inv (view S) \<and> tm_inv (io_timers (mgr S)) \<and>
     length (y_idles S) = length (y_workers S) \<and>
     (\<forall>i < length (y_workers S). y_idles S ! i \<noteq> LoopTop \<longrightarrow> w_pc (y_workers S ! i) = InIdle)"

lemma iosys_invD:
  assumes "iosys_inv S"
  shows "own_inv (mgr S)" "sched_inv (view S)" "tm_inv (io_timers (mgr S))"
    "length (y_idles S) = length (y_workers S)"
    "i < length (y_workers S) \<Longrightarrow> y_idles S ! i \<noteq> LoopTop \<Longrightarrow> w_pc (y_workers S ! i) = InIdle"
  using assms by (simp_all add: iosys_inv_def)

lemma own_sched_Some: "own_inv (mgr S) \<Longrightarrow> scheds (mgr S) (io_this (mgr S)) = Some (own_sched S)"
  by (auto simp: own_inv_def io_inv_def own_sched_def)

lemma queue_own: "own_inv (mgr S) \<Longrightarrow> queue_of (mgr S) (io_this (mgr S)) = m_tasks (own_sched S)"
  by (simp add: queue_of_def own_sched_Some)

lemma io_work_view: "own_inv (mgr S) \<Longrightarrow>
    sys_work S = Scheduler_Runs.pending (view S) + registered_work (fd_heap (mgr S)) + sum_list (map expiring (y_idles S))"
  by (simp add: sys_work_def io_work_def queue_own Scheduler_Runs.pending_def ac_simps)

subsection \<open>Changes of the manager\<close>

lemma view_mgr:
  "view (S\<lparr>mgr := m\<rparr>) = (view S)\<lparr>sch := own_sched (S\<lparr>mgr := m\<rparr>)\<rparr>"
  by (simp add: view_def)

text \<open>An operation of the manager that at most feeds its queue keeps the invariant of the system.\<close>

lemma fed_sched_inv:
  assumes inv: "sched_inv (view S)" and fed: "fed (mgr S) m"
  shows "sched_inv (view (S\<lparr>mgr := m\<rparr>))"
proof -
  from fed obtain tks where "\<forall>tk \<in> set tks. task_nonnull tk"
    "own_sched (S\<lparr>mgr := m\<rparr>) = (own_sched S)\<lparr>m_tasks := m_tasks (own_sched S) @ tks\<rparr>"
    by (auto simp: fed_def own_sched_def)
  with inv show ?thesis
    unfolding view_mgr by (intro sched_inv_sch) auto
qed

lemma mgr_inv:
  assumes "iosys_inv S" and "own_inv m" and "fed (mgr S) m"
  shows "iosys_inv (S\<lparr>mgr := m\<rparr>)"
  using assms fed_sched_inv [OF iosys_invD(2) [OF assms(1)] assms(3)] fed_this [OF assms(3)]
  by (simp add: iosys_inv_def)

lemma mgr_work:
  "sys_work (S\<lparr>mgr := m\<rparr>) + io_work (mgr S) = sys_work S + io_work m"
  by (simp add: sys_work_def ac_simps)

lemma own_inv_ignores [simp]:
  "own_inv (m\<lparr>tickles := ts\<rparr>) = own_inv m" "own_inv (m\<lparr>io_timers := ti\<rparr>) = own_inv m"
  "io_work (m\<lparr>tickles := ts\<rparr>) = io_work m" "io_work (m\<lparr>io_timers := ti\<rparr>) = io_work m"
  by (simp_all add: own_inv_def io_work_def queue_of_def io_inv_def)

lemma note_tickle_ignores [simp]:
  "own_inv (note_tickle b m) = own_inv m" "io_work (note_tickle b m) = io_work m"
  by (simp_all add: note_tickle_def)

lemma view_ignores [simp]:
  "view (S\<lparr>y_idles := p\<rparr>) = view S" "view (S\<lparr>y_pipe := n\<rparr>) = view S"
  "view (S\<lparr>mgr := (mgr S)\<lparr>tickles := ts\<rparr>\<rparr>) = view S"
  "view (S\<lparr>mgr := (mgr S)\<lparr>io_timers := ti\<rparr>\<rparr>) = view S"
  "view (S\<lparr>mgr := note_tickle b (mgr S)\<rparr>) = view S"
  by (simp_all add: view_def own_sched_def note_tickle_def)

subsection \<open>A step of the pool\<close>

lemma put_view_inv:
  assumes inv: "iosys_inv S" and step: "sched_step (view S) l v" and pin: "idle_pinned (view S) v"
  shows "iosys_inv (put_view S v b)"
proof -
  let ?m = "(mgr S)\<lparr>scheds := (scheds (mgr S))(io_this (mgr S) \<mapsto> sch v)\<rparr>"
  note own = iosys_invD(1) [OF inv]
  have "dom (scheds ?m) = dom (scheds (mgr S))"
    using own_sched_Some [OF own] by auto
  then have "io_inv ((mgr S)\<lparr>scheds := scheds ?m, tickles := tickles (mgr S)\<rparr>)"
    by (intro io_inv_scheds own_invD(1) [OF own]) simp
  then have "own_inv ?m" using own by (simp add: own_inv_def)
  moreover have "sched_inv v" by (rule sched_step_inv [OF step iosys_invD(2) [OF inv]])
  moreover have len: "length (workers v) = length (y_workers S)"
    using sched_steps_workers [OF sched_steps.step [OF sched_steps.refl step]] by simp
  moreover have "w_pc (workers v ! i) = InIdle"
    if "i < length (workers v)" "y_idles S ! i \<noteq> LoopTop" for i
    using iosys_invD(5) [OF inv, of i] that len pin by (simp add: idle_pinned_def)
  moreover have "own_inv (mgr (put_view S v b)) = own_inv ?m"
    by (simp add: put_view_def)
  ultimately show ?thesis
    using iosys_invD(3,4) [OF inv] unfolding iosys_inv_def by simp
qed

lemma put_view_work:
  assumes inv: "iosys_inv S" and step: "sched_step (view S) l v" and pin: "idle_pinned (view S) v"
  shows "sys_work (put_view S v b) + finished l = sys_work S + submitted l"
proof -
  note own' = iosys_invD(1) [OF put_view_inv [OF assms, of b]] and own = iosys_invD(1) [OF inv]
  from sched_step_pending [OF step] show ?thesis
    unfolding io_work_view [OF own] io_work_view [OF own'] by (simp add: ac_simps)
qed

subsection \<open>A step of an idle loop\<close>

lemma idle_at_work:
  assumes "idler S i w p"
  shows "sys_work (idle_at S i p') + expiring p = sys_work S + expiring p'"
  using assms sum_list_map_update [of i "y_idles S" expiring p']
  by (simp add: sys_work_def idler_def ac_simps)

lemma idle_at_inv:
  assumes "iosys_inv S" and "idler S i w p"
  shows "iosys_inv (idle_at S i p')"
  using assms by (auto simp: iosys_inv_def idler_def nth_list_update)

text \<open>The worker leaves the idle loop.\<close>

lemma leave_inv:
  assumes inv: "iosys_inv S" and i: "idler S i w p"
    and stop: "st = FTERM \<Longrightarrow> w_idle w = FTERM \<or> m_autoStop (own_sched S) \<and> m_stopping (own_sched S)"
  shows "iosys_inv ((worker_at S i (w\<lparr>w_pc := IdleBack, w_idle := st\<rparr>))\<lparr>y_idles := (y_idles S)[i := LoopTop]\<rparr>)"
    (is "iosys_inv ?T")
proof -
  have live: "live_worker (view S) i w" and pc: "w_pc w = InIdle"
    using i by (auto simp: idler_def live_worker_def)
  have "view ?T = upd (view S) i (w\<lparr>w_pc := IdleBack, w_idle := st\<rparr>)"
    by (simp add: view_def upd_def own_sched_def)
  moreover have "sched_inv (upd (view S) i (w\<lparr>w_pc := IdleBack, w_idle := st\<rparr>))"
    using stop pc by (intro sched_inv_pc [OF iosys_invD(2) [OF inv] live]) auto
  moreover have "w_pc ((y_workers S)[i := w\<lparr>w_pc := IdleBack, w_idle := st\<rparr>] ! j) = InIdle"
    if "j < length (y_workers S)" "(y_idles S)[i := LoopTop] ! j \<noteq> LoopTop" for j
    using iosys_invD(5) [OF inv, of j] that i by (cases "j = i") (auto simp: idler_def)
  ultimately show ?thesis
    using iosys_invD(1,3,4) [OF inv] by (simp add: iosys_inv_def)
qed

lemma leave_work:
  assumes "iosys_inv S" and "idler S i w p" and "expiring p = {#}"
  shows "sys_work ((worker_at S i (w\<lparr>w_pc := IdleBack, w_idle := st\<rparr>))\<lparr>y_idles := (y_idles S)[i := LoopTop]\<rparr>)
    = sys_work S"
proof -
  have "held ((y_workers S)[i := w\<lparr>w_pc := IdleBack, w_idle := st\<rparr>]) + {#} =
      held (y_workers S) + mset (in_hand IdleBack)"
    using assms(2) held_update [of i "y_workers S" "{#}" "w\<lparr>w_pc := IdleBack, w_idle := st\<rparr>"]
    by (simp add: idler_def)
  moreover have "sum_list (map expiring ((y_idles S)[i := LoopTop])) = sum_list (map expiring (y_idles S))"
    using assms(2,3) sum_list_map_update [of i "y_idles S" expiring LoopTop] by (simp add: idler_def)
  ultimately show ?thesis by (simp add: sys_work_def)
qed

lemma idle_top_same: "idler S i w p \<Longrightarrow> (y_idles S)[i := p] = y_idles S"
  by (auto simp: idler_def)

lemma io_stopping_SomeD:
  assumes "io_stopping m now = Some (b, t, m')"
  shows "\<exists>own. scheds m (io_this m) = Some own \<and> (b \<longrightarrow> stopping own) \<and>
    m' = m\<lparr>io_timers := snd (getNextTimer (io_timers m) now)\<rparr>"
  using assms by (auto simp: io_stopping_def split: option.splits prod.splits)

lemma iosys_step_inv_work:
  assumes "iosys_step ctl S l T" and "iosys_inv S"
  shows "iosys_inv T \<and> sys_work T + given_out l = sys_work S + taken_in l"
  using assms
proof (induction rule: iosys_step.induct)
  case (pool S l v)
  from put_view_inv [OF pool(3,1,2)] put_view_work [OF pool(3,1,2)] show ?case by simp
next
  case (tickle S q qs)
  have "sys_work (S\<lparr>mgr := (mgr S)\<lparr>tickles := qs\<rparr>, y_pipe := n\<rparr>) = sys_work S" for n
    by (simp add: sys_work_def)
  with tickle show ?case by (simp add: iosys_inv_def)
next
  case (call_tickle S)
  then show ?case by (simp add: iosys_inv_def sys_work_def)
next
  case (idle_stop S i w now t m)
  note m = io_stopping_SomeD [OF idle_stop(2)] and own = iosys_invD(1) [OF idle_stop(3)]
  have m': "m = (mgr S)\<lparr>io_timers := snd (getNextTimer (io_timers (mgr S)) now)\<rparr>"
    and stop: "m_autoStop (own_sched S) \<and> m_stopping (own_sched S)"
    using m own_sched_Some [OF own] by (auto simp: stopping_def)
  let ?w = "w\<lparr>w_pc := IdleBack, w_idle := FTERM\<rparr>"
  have eq: "worker_at S i ?w = (worker_at S i ?w)\<lparr>y_idles := (y_idles S)[i := LoopTop]\<rparr>"
    using idle_top_same [OF idle_stop(1)] by simp
  have "iosys_inv (worker_at S i ?w)"
    by (subst eq) (use leave_inv [OF idle_stop(3,1), of FTERM] stop in simp)
  moreover have "sys_work (worker_at S i ?w) = sys_work S"
    by (subst eq) (use leave_work [OF idle_stop(3,1), of FTERM] in simp)
  ultimately show ?case
    using getNextTimer_inv [OF iosys_invD(3) [OF idle_stop(3)], of now]
    unfolding m' by (simp add: iosys_inv_def sys_work_def view_def own_sched_def)
next
  case (idle_wait S i w now t m)
  have m': "m = (mgr S)\<lparr>io_timers := snd (getNextTimer (io_timers (mgr S)) now)\<rparr>"
    using io_stopping_SomeD [OF idle_wait(2)] by blast
  let ?S = "idle_at S i (Waiting (epoll_timeout t))"
  have "iosys_inv ?S" "sys_work ?S = sys_work S"
    using idle_at_inv [OF idle_wait(3,1)] idle_at_work [OF idle_wait(1), of "Waiting (epoll_timeout t)"] by simp_all
  then show ?case
    using getNextTimer_inv [OF iosys_invD(3) [OF idle_wait(3)], of now]
    unfolding m' by (simp add: iosys_inv_def sys_work_def view_def own_sched_def)
next
  case (idle_report S i w n evs)
  from idle_at_inv [OF idle_report(3,1)] idle_at_work [OF idle_report(1), of "Reported evs"] show ?case by simp
next
  case (idle_expire S i w evs p now cbs ti)
  let ?S = "idle_at S i (Expired cbs evs)"
  have "iosys_inv ?S" "sys_work ?S = sys_work S + taken_in (TimersFired cbs)"
    using idle_at_inv [OF idle_expire(4,1)] idle_at_work [OF idle_expire(1), of "Expired cbs evs"] by simp_all
  moreover have "tm_inv ti"
    using tm_step_inv [OF tm_step.expire [OF idle_expire(2), of now "[]"] iosys_invD(3) [OF idle_expire(4)]]
    by (simp add: idle_expire(3))
  ultimately show ?case
    by (simp add: iosys_inv_def sys_work_def view_def own_sched_def)
next
  case (idle_submit S i w cbs evs m)
  note own = iosys_invD(1) [OF idle_submit(3)]
  let ?S = "idle_at S i (Dispatching evs)"
  from schedule_expired_work [OF own idle_submit(2)]
  have m: "io_work m = io_work (mgr S) + expiring (Expired cbs evs)" "own_inv m" "fed (mgr ?S) m" by simp_all
  have "iosys_inv ?S" by (rule idle_at_inv [OF idle_submit(3,1)])
  from mgr_inv [OF this m(2,3)] idle_at_work [OF idle_submit(1), of "Dispatching evs"] m(1)
  show ?case by (simp add: sys_work_def ac_simps)
next
  case (idle_dispatch S i w ev evs m)
  note own = iosys_invD(1) [OF idle_dispatch(3)]
  let ?S = "idle_at S i (Dispatching evs)"
  from idle_event_work [OF own idle_dispatch(2)]
  have m: "io_work m = io_work (mgr S)" "own_inv m" "fed (mgr ?S) m" by simp_all
  have "iosys_inv ?S" by (rule idle_at_inv [OF idle_dispatch(3,1)])
  from mgr_inv [OF this m(2,3)] idle_at_work [OF idle_dispatch(1), of "Dispatching evs"] m(1)
  show ?case by (simp add: sys_work_def iosys_inv_def view_def own_sched_def)
next
  case (idle_yield S i w)
  from leave_inv [OF idle_yield(2,1), of "w_idle w"] leave_work [OF idle_yield(2,1), of "w_idle w"]
  show ?case by simp
next
  case (register S p c e cb cur st m)
  from register_work [OF iosys_invD(1) [OF register(4)] register(2,3)] mgr_inv [OF register(4), of m]
  show ?case by (simp add: sys_work_def ac_simps)
next
  case (refused S p c e cb cur st m)
  from register_work [OF iosys_invD(1) [OF refused(4)] refused(2,3)] mgr_inv [OF refused(4), of m]
  show ?case by (simp add: sys_work_def)
next
  case (grow S fd p m)
  from grow_work [OF iosys_invD(1) [OF grow(4)] grow(3)] mgr_inv [OF grow(4), of m]
  show ?case by (simp add: sys_work_def)
next
  case (delete S fd p c e x m)
  from delEvent_work [OF iosys_invD(1) [OF delete(5)] delete(2,3,4)] mgr_inv [OF delete(5), of m]
  show ?case by (simp add: sys_work_def ac_simps)
next
  case (delete_none S fd e m)
  from delEvent_none [OF delete_none(2)] delete_none(3) show ?case by simp
next
  case (cancel S fd e b m)
  from cancelEvent_work [OF iosys_invD(1) [OF cancel(3)] cancel(2)] mgr_inv [OF cancel(3), of m]
  show ?case by (simp add: sys_work_def)
next
  case (cancel_all S fd b m)
  from cancelAll_work [OF iosys_invD(1) [OF cancel_all(3)] cancel_all(2)] mgr_inv [OF cancel_all(3), of m]
  show ?case by (simp add: sys_work_def)
next
  case (timer S ti)
  from tm_step_inv [OF timer(2) iosys_invD(3) [OF timer(3)]] timer(3)
  show ?case by (simp add: iosys_inv_def sys_work_def)
qed (simp_all add: iosys_inv_def sys_work_def view_def own_sched_def sched_inv_def)

subsection \<open>Conservation of work\<close>

lemma iosys_steps_inv_work:
  assumes "iosys_steps ctl S ls T" and "iosys_inv S"
  shows "iosys_inv T \<and>
    sys_work T + sum_list (map given_out ls) = sys_work S + sum_list (map taken_in ls)"
  using assms
proof (induction rule: iosys_steps.induct)
  case (more S ls T l U)
  then have ih: "iosys_inv T" "sys_work T + sum_list (map given_out ls) = sys_work S + sum_list (map taken_in ls)"
    by simp_all
  from iosys_step_inv_work [OF more.hyps(2) ih(1)]
  have u: "iosys_inv U" "sys_work U + given_out l = sys_work T + taken_in l" by simp_all
  have "sys_work U + sum_list (map given_out (ls @ [l])) = sys_work S + sum_list (map taken_in (ls @ [l]))"
  proof (rule multiset_eqI)
    fix x
    from arg_cong [OF ih(2), of "\<lambda>m. count m x"] arg_cong [OF u(2), of "\<lambda>m. count m x"]
    show "count (sys_work U + sum_list (map given_out (ls @ [l]))) x =
        count (sys_work S + sum_list (map taken_in (ls @ [l]))) x" by simp
  qed
  with u(1) show ?case by blast
qed simp

lemma iosys_start_inv:
  assumes "iosys_start ctl S"
  shows "iosys_inv S \<and> sys_work S = {#}"
proof -
  note start = assms [unfolded iosys_start_def]
  from start obtain k this fd0 sc ti n new_tids
    where ctor: "IOManager_ctor ctl k this fd0 sc ti n new_tids = Inr (mgr S)"
    by (auto simp: io_started_def)
  note new = IOManager_ctor_facts [OF ctor, THEN conjunct1, rule_format]
  have "own_ctx (io_this (mgr S)) c" if "fd_heap (mgr S) p = Some c" for p c
    using new [OF that] by auto
  then have own: "own_inv (mgr S)"
    using IOManager_ctor_inv [OF ctor] by (simp add: own_inv_def)
  moreover have "tm_inv (io_timers (mgr S))"
    using start new_timer_manager_inv by auto
  ultimately have "iosys_inv S"
    using start initial_sys_inv [of "view S"] by (simp add: iosys_inv_def)
  moreover have "Scheduler_Runs.pending (view S) = {#}" using start by (intro initial_pending) simp
  moreover have "registered_work (fd_heap (mgr S)) = {#}"
    using new by (intro registered_work_empty) blast
  moreover have "sum_list (replicate n {#}) = ({#} :: task multiset)" for n
    by (induction n) simp_all
  ultimately show ?thesis
    using start by (simp add: io_work_view [OF own])
qed

text \<open>
  C8. No work is lost or run twice in the whole system. From the constructor, over every interleaving
  of the workers, their idle loops, the kernel's reports, the timers and the threads that submit work,
  register, delete and cancel events: what was handed in (tasks submitted, callbacks or fibers
  registered for an event, callbacks of expired timers) is exactly, each as often as it was handed in,
  what is in the queue, in the hands of a worker, still registered or just collected by an idle loop,
  together with what was dispatched by a worker or deleted by \<open>delEvent\<close>. At the same time the counters of
  the scheduler are the numbers of its workers in the counted and the idle stretches, the count of
  pending events is the number of registered ones, and a worker has left only after \<open>stop\<close>.
\<close>

theorem io_work_conserved:
  assumes "iosys_start ctl S0" and "iosys_steps ctl S0 ls S"
  shows "sum_list (map taken_in ls) =
      mset (queue_of (mgr S) (io_this (mgr S))) + held (y_workers S) + registered_work (fd_heap (mgr S)) +
      sum_list (map expiring (y_idles S)) + sum_list (map given_out ls) \<and>
    m_activeThreadCount (own_sched S) = of_nat (length (filter (\<lambda>w. counted (w_pc w)) (y_workers S))) \<and>
    m_idleThreadCount (own_sched S) = of_nat (length (filter (\<lambda>w. idling (w_pc w)) (y_workers S))) \<and>
    m_pendingEventCount (mgr S) = of_nat (card (Collect (has_event (mgr S)))) \<and>
    (\<forall>w \<in> set (y_workers S). w_pc w = Exited \<longrightarrow> m_autoStop (own_sched S) \<and> m_stopping (own_sched S))"
proof -
  from iosys_start_inv [OF assms(1)] iosys_steps_inv_work [OF assms(2)]
  have inv: "iosys_inv S" and work: "sys_work S + sum_list (map given_out ls) = sum_list (map taken_in ls)"
    by simp_all
  note io = own_invD(1) [OF iosys_invD(1) [OF inv]]
  have "m_pendingEventCount (mgr S) = of_nat (card (Collect (has_event (mgr S))))"
    unfolding registered_sum_card [OF io, symmetric] using io by (simp add: io_inv_def)
  with work iosys_invD(2) [OF inv, unfolded sched_inv_def] show ?thesis
    by (simp add: sys_work_def io_work_def tally_eq ac_simps)
qed

end
