(* ===== verification/IO_System_Runs.thy ===== *)
theory IO_System_Runs
  imports IO_System_Props
begin

text \<open>
  Runs of the whole I/O manager: how a reported event becomes a running callback, and how a wake-up
  can be lost.
\<close>

subsection \<open>Moves of one worker outside the idle loop\<close>

lemma exec_worker_frame:
  assumes "exec_worker s i w st p pc = Some (l, v)" and "i < length (workers s)"
  shows "\<exists>w'. workers v = (workers s)[i := w']"
proof -
  have same: "\<exists>w'. workers s = (workers s)[i := w']"
    by (rule exI [of _ "workers s ! i"]) simp
  with assms show ?thesis
    by (cases pc)
       (auto simp: exec_dispatch_def exec_cb_def uncount_def upd_def split: sum.splits option.splits if_splits)
qed

lemma work_step:
  assumes "exec (view S) (Work i st p) = Some (l, v)" and "w_pc (y_workers S ! i) \<noteq> InIdle"
  shows "\<exists>T. iosys_step ctl S (Worker l) T \<and> view T = v \<and> y_idles T = y_idles S \<and>
    T = put_view S v (calls_tickle (view S) l v)"
proof -
  from assms(1) have i: "i < length (workers (view S))"
    and x: "exec_worker (view S) i (y_workers S ! i) st p (w_pc (y_workers S ! i)) = Some (l, v)"
    by (auto split: if_splits)
  obtain w' where w': "workers v = (y_workers S)[i := w']"
    using exec_worker_frame [OF x i] by auto
  have "idle_pinned (view S) v"
    unfolding idle_pinned_def w' using assms(2) by (metis nth_list_update_neq view_sel(3))
  from iosys_step.pool [OF exec_step [OF assms(1)] this] show ?thesis by simp
qed

lemma iosys_steps_Cons:
  "iosys_steps ctl T ls U \<Longrightarrow> iosys_step ctl S l T \<Longrightarrow> iosys_steps ctl S (l # ls) U"
proof (induction rule: iosys_steps.induct)
  case (none T)
  from iosys_steps.more [OF iosys_steps.none none] show ?case by simp
next
  case (more T ls V l' U)
  from iosys_steps.more [OF more.IH [OF more.prems] more.hyps(2)] show ?case by simp
qed

lemma iosys_steps_append:
  "iosys_steps ctl T ls' U \<Longrightarrow> iosys_steps ctl S ls T \<Longrightarrow> iosys_steps ctl S (ls @ ls') U"
proof (induction rule: iosys_steps.induct)
  case (more T ls' V l U)
  from iosys_steps.more [OF more.IH [OF more.prems] more.hyps(2)] show ?case by simp
qed simp

lemma work_steps:
  assumes "exec_all (view S) (replicate n (Work i st p)) = Some (ls, v)" and "busy (view S) i st p n"
  shows "\<exists>T. iosys_steps ctl S (map Worker ls) T \<and> view T = v \<and> y_idles T = y_idles S \<and>
    fd_heap (mgr T) = fd_heap (mgr S) \<and> io_timers (mgr T) = io_timers (mgr S)"
  using assms
proof (induction n arbitrary: S ls)
  case 0
  then show ?case by (auto intro: iosys_steps.none)
next
  case (Suc n)
  from Suc.prems(1) obtain l u ls' where one: "exec (view S) (Work i st p) = Some (l, u)"
    and rest: "exec_all u (replicate n (Work i st p)) = Some (ls', v)" and ls: "ls = l # ls'"
    by (auto simp del: exec.simps split: option.splits)
  from Suc.prems(2) one have pc: "w_pc (y_workers S ! i) \<noteq> InIdle" and b: "busy u i st p n"
    by (auto simp del: exec.simps)
  from work_step [OF one pc, of ctl] obtain U
    where U: "iosys_step ctl S (Worker l) U" "view U = u" "y_idles U = y_idles S"
      "fd_heap (mgr U) = fd_heap (mgr S)" "io_timers (mgr U) = io_timers (mgr S)" by (metis put_view_sel(2,3))
  from Suc.IH [of U ls'] rest b U(2) obtain T
    where "iosys_steps ctl U (map Worker ls') T" "view T = v" "y_idles T = y_idles U"
      "fd_heap (mgr T) = fd_heap (mgr U)" "io_timers (mgr T) = io_timers (mgr U)" by auto
  with U(1,3,4,5) show ?case by (auto simp: ls intro: iosys_steps_Cons)
qed

subsection \<open>From a reported event to its callback\<close>

lemma real_events_one:
  "e = READ \<or> e = WRITE \<Longrightarrow> real_events e v = e"
  by (auto simp: real_events_def)

lemma idle_event_fires:
  assumes own: "own_inv m" and c: "fd_heap m p = Some c" and e: "e = READ \<or> e = WRITE"
    and on: "fc_events c AND e \<noteq> 0" and x: "getContext c e = Some x"
    and kernel: "\<forall>k op fd bits d. fst (ctl k op fd bits d) = 0"
  shows "\<exists>m'. idle_event ctl m (CtxPtr p, e) = Inr m' \<and> events_at m' p = fc_events c AND NOT e \<and>
    queue_of m' (io_this m) = queue_of m (io_this m) @ [event_task x] \<and> fed m m'"
proof -
  note inv = own_invD(1) [OF own]
  let ?v = "fc_events c AND NOT e"
  obtain rt k where ctl: "ctl (epoll m) (if ?v \<noteq> 0 then CTL_MOD else CTL_DEL) (fc_fd c) (EPOLLET OR ?v) (CtxPtr p) = (rt, k)"
    by fastforce
  then have rt: "rt = 0" using kernel by (metis fst_conv)
  let ?m = "m\<lparr>epoll := k\<rparr>"
  have inv0: "io_inv ?m" "fd_heap ?m p = Some c" using inv c by simp_all
  have owner: "ec_scheduler x = Some (io_this m)" by (rule slot_owner [OF own_invD(2) [OF own c] e on x])
  have ok: "events_ok e" using e by (auto simp: events_ok_def)
  from trigger_if_fired [OF inv0 e ok] on obtain m' c' where t: "trigger_if e e p ?m = Inr m'"
    "fd_heap m' p = Some c'" "fc_events c' = ?v" "\<forall>q. queue_of m' q = queue_of ?m q @ fired c e q" by auto
  have one: "trigger_if e READ p ?m = (if e = READ then Inr m' else Inr ?m)"
    "e = READ \<Longrightarrow> trigger_if e WRITE p m' = Inr m'" "e = WRITE \<Longrightarrow> trigger_if e WRITE p ?m = Inr m'"
    using t(1) e by (auto simp: trigger_if_def)
  have run: "idle_event ctl m (CtxPtr p, e) = Inr m'"
    using c on ctl rt e one by (auto simp: idle_event_def Let_def real_events_one)
  moreover have "fired c e (io_this m) = [event_task x]"
    using e x owner by (auto simp: fired_def getContext_def)
  ultimately show ?thesis
    using t idle_event_work [OF own run] by (auto simp: events_at_def queue_of_def)
qed

text \<open>The worker can run the task at once: its callback fiber is free, or the fiber of the task is suspended.\<close>

definition dispatchable :: "'k iosys \<Rightarrow> worker \<Rightarrow> ptr \<Rightarrow> event_context \<Rightarrow> bool" where
  "dispatchable S w g x \<longleftrightarrow>
     (case ec_cb x of
        Some _ \<Rightarrow> (case w_cbFiber w of
                     None \<Rightarrow> y_fstates S g = None
                   | Some h \<Rightarrow> h = g \<and> y_fstates S g \<in> {Some FTERM, Some EXCEPT, Some INIT})
      | None \<Rightarrow> ec_fiber x = Some g \<and> y_fstates S g \<in> {Some HOLD, Some READY, Some INIT})"

lemma run_event_task:
  assumes i: "i < length (workers s)" "workers s ! i = w" "\<not> aborted s" "w_pc w = IdleBack"
    and q: "m_tasks (sch s) = [event_task x]" and slot: "(ec_cb x = None) \<noteq> (ec_fiber x = None)"
    and d: "case ec_cb x of
        Some _ \<Rightarrow> (case w_cbFiber w of
                     None \<Rightarrow> fstates s g = None
                   | Some h \<Rightarrow> h = g \<and> fstates s g \<in> {Some FTERM, Some EXCEPT, Some INIT})
      | None \<Rightarrow> ec_fiber x = Some g \<and> fstates s g \<in> {Some HOLD, Some READY, Some INIT}"
  shows "\<exists>v. exec_all s (replicate 4 (Work i HOLD g)) = Some ([Tau, Tau, Tau, Started (event_task x)], v) \<and>
    busy s i HOLD g 4 \<and> w_pc (workers v ! i) = (if ec_cb x = None then InFiber g else InCb g)"
proof (cases "ec_cb x")
  case None
  with i q d show ?thesis
    by (auto simp: numeral_eq_Suc event_task_def Let_def upd_def exec_dispatch_def swappable_def)
next
  case (Some f)
  with slot have "ec_fiber x = None" by simp
  with Some i q d show ?thesis
    by (cases "w_cbFiber w")
       (auto simp: numeral_eq_Suc event_task_def Let_def upd_def exec_dispatch_def exec_cb_def)
qed

lemma schedule_expired_nothing [simp]: "schedule_expired m [] = Inr m"
  by (simp add: schedule_expired_def)

text \<open>The loop over the reported events, and the idle loop from the return of \<open>epoll_wait\<close> to the swap back.\<close>

lemma idle_dispatches:
  "idler S i w (Dispatching evs) \<Longrightarrow> idle_events ctl (mgr S) evs = Inr m \<Longrightarrow>
     iosys_steps ctl S (replicate (length evs) Silent)
       ((idle_at S i (Dispatching []))\<lparr>mgr := m, y_pipe := (if TickleFd \<in> fst ` set evs then 0 else y_pipe S)\<rparr>)"
proof (induction evs arbitrary: S)
  case Nil
  then have "(idle_at S i (Dispatching []))\<lparr>mgr := m, y_pipe := y_pipe S\<rparr> = S"
    using list_update_id [of "y_idles S" i] by (intro iosys.equality) (auto simp: idler_def)
  then show ?case by (simp add: iosys_steps.none)
next
  case (Cons ev evs)
  then obtain m1 where m1: "idle_event ctl (mgr S) ev = Inr m1" "idle_events ctl m1 evs = Inr m"
    by (auto split: sum.splits)
  let ?S = "(idle_at S i (Dispatching evs))\<lparr>mgr := m1, y_pipe := (if fst ev = TickleFd then 0 else y_pipe S)\<rparr>"
  have step: "iosys_step ctl S Silent ?S" by (rule iosys_step.idle_dispatch [OF Cons.prems(1) m1(1)])
  have at: "idler ?S i w (Dispatching evs)" using Cons.prems(1) by (simp add: idler_def)
  have rest: "iosys_steps ctl ?S (replicate (length evs) Silent) ((idle_at ?S i (Dispatching []))\<lparr>mgr := m,
      y_pipe := (if TickleFd \<in> fst ` set evs then 0 else y_pipe ?S)\<rparr>)"
    by (rule Cons.IH [OF at]) (simp add: m1(2))
  have eq: "(idle_at ?S i (Dispatching []))\<lparr>mgr := m, y_pipe := (if TickleFd \<in> fst ` set evs then 0 else y_pipe ?S)\<rparr> =
      (idle_at S i (Dispatching []))\<lparr>mgr := m,
        y_pipe := (if TickleFd \<in> fst ` set (ev # evs) then 0 else y_pipe S)\<rparr>"
    by (intro iosys.equality) auto
  from iosys_steps_Cons [OF rest step] show ?case
    unfolding eq length_Cons replicate_Suc .
qed

lemma idle_stretch:
  assumes i: "idler S i w (Waiting n)" and rep: "\<forall>ev \<in> set evs. reportable S (fst ev)"
    and fresh: "r \<notin> dom (heap (io_timers (mgr S)))"
    and timers: "listExpiredCb (io_timers (mgr S)) now r [] = (cbs, ti)"
    and due: "schedule_expired ((mgr S)\<lparr>io_timers := ti\<rparr>) cbs = Inr m1" and events: "idle_events ctl m1 evs = Inr m"
  shows "iosys_steps ctl S ([Silent, TimersFired cbs, Silent] @ replicate (length evs) Silent @ [Silent])
    (S\<lparr>mgr := m, y_pipe := (if TickleFd \<in> fst ` set evs then 0 else y_pipe S),
       y_idles := (y_idles S)[i := LoopTop], y_workers := (y_workers S)[i := w\<lparr>w_pc := IdleBack\<rparr>]\<rparr>)"
proof -
  define S1 where "S1 = idle_at S i (Reported evs)"
  define S2 where "S2 = (idle_at S1 i (Expired cbs evs))\<lparr>mgr := (mgr S1)\<lparr>io_timers := ti\<rparr>\<rparr>"
  define S3 where "S3 = (idle_at S2 i (Dispatching evs))\<lparr>mgr := m1\<rparr>"
  define S4 where "S4 = (idle_at S3 i (Dispatching []))\<lparr>mgr := m,
      y_pipe := (if TickleFd \<in> fst ` set evs then 0 else y_pipe S3)\<rparr>"
  define S5 where "S5 = (worker_at S4 i (w\<lparr>w_pc := IdleBack\<rparr>))\<lparr>y_idles := (y_idles S4)[i := LoopTop]\<rparr>"
  note defs = S1_def S2_def S3_def S4_def S5_def
  have at: "idler S1 i w (Reported evs)" "idler S2 i w (Expired cbs evs)" "idler S3 i w (Dispatching evs)"
    "idler S4 i w (Dispatching [])"
    using i by (simp_all add: idler_def defs)
  have s1: "iosys_step ctl S Silent S1"
    unfolding S1_def by (rule iosys_step.idle_report [OF i rep])
  have s2: "iosys_step ctl S1 (TimersFired cbs) S2"
    unfolding S2_def using fresh timers
    by (intro iosys_step.idle_expire [OF at(1), of r now]) (simp_all add: S1_def)
  have s3: "iosys_step ctl S2 Silent S3"
    unfolding S3_def by (rule iosys_step.idle_submit [OF at(2)]) (simp add: S2_def S1_def due)
  have s4: "iosys_steps ctl S3 (replicate (length evs) Silent) S4"
    unfolding S4_def by (rule idle_dispatches [OF at(3)]) (simp add: S3_def events)
  have s5: "iosys_step ctl S4 Silent S5"
    unfolding S5_def by (rule iosys_step.idle_yield [OF at(4)])
  have "iosys_steps ctl S3 (replicate (length evs) Silent @ [Silent]) S5" by (rule iosys_steps.more [OF s4 s5])
  from iosys_steps_Cons [OF iosys_steps_Cons [OF iosys_steps_Cons [OF this s3] s2] s1]
  have "iosys_steps ctl S ([Silent, TimersFired cbs, Silent] @ replicate (length evs) Silent @ [Silent]) S5" by simp
  moreover have "S5 = S\<lparr>mgr := m, y_pipe := (if TickleFd \<in> fst ` set evs then 0 else y_pipe S),
      y_idles := (y_idles S)[i := LoopTop], y_workers := (y_workers S)[i := w\<lparr>w_pc := IdleBack\<rparr>]\<rparr>"
    by (simp add: defs)
  ultimately show ?thesis by simp
qed


subsection \<open>A concrete system\<close>

text \<open>The manager of \<open>fresh_io\<close> with its one worker thread, number 20.\<close>

definition started_pool :: scheduler where
  "started_pool = pool\<lparr>m_threads := [0], m_threadIds := [20], m_stopping := False\<rparr>"

definition io_example :: "unit iosys" where
  "io_example = \<lparr>mgr = fresh_io, y_fstates = Map.empty,
     y_workers = [\<lparr>w_tid = 20, w_pc = Top, w_cbFiber = None, w_idle = INIT\<rparr>], y_idles = [LoopTop],
     y_pipe = 0, y_aborted = False\<rparr>"

lemma fresh_io_facts [simp]:
  "scheds fresh_io (Suc 0) = Some started_pool" "tickles fresh_io = []" "io_timers fresh_io = new_timer_manager 0"
  "io_this fresh_io = Suc 0" "m_pendingEventCount fresh_io = 0"
proof -
  have r: "scheds (contextResize s 32) = scheds s" "tickles (contextResize s 32) = tickles s"
    "io_timers (contextResize s 32) = io_timers s" "m_pendingEventCount (contextResize s 32) = m_pendingEventCount s"
    for s :: "unit iomanager"
    by (simp_all add: contextResize_def Let_def split: prod.splits)
  have "IOManager_ctor quiet_kernel () 1 3 [1 \<mapsto> pool] (new_timer_manager 0) 100 (\<lambda>i. 20 + int i) = Inr s \<Longrightarrow>
      scheds s 1 = Some started_pool \<and> tickles s = [] \<and> io_timers s = new_timer_manager 0 \<and>
      m_pendingEventCount s = 0" for s
    by (auto simp: IOManager_ctor_def quiet_kernel_def pool_def started_pool_def start_def Let_def r)
  from this [OF fresh_io_ctor] show "scheds fresh_io (Suc 0) = Some started_pool" "tickles fresh_io = []"
    "io_timers fresh_io = new_timer_manager 0" "io_this fresh_io = Suc 0" "m_pendingEventCount fresh_io = 0"
    using fresh_io_this by simp_all
qed

lemma io_example_start: "iosys_start quiet_kernel io_example"
  using fresh_io_started
  by (auto simp: iosys_start_def io_example_def initial_sys_def view_def own_sched_def started_pool_def pool_def)

lemma submit_step:
  assumes "\<not> y_aborted S" and "fst (new_task fc thr) = tk" and "task_nonnull tk"
    and "\<And>f. task_fiber tk = Some f \<Longrightarrow> f \<in> dom (y_fstates S)"
  shows "iosys_step ctl S (Worker (Submit tk))
    (put_view S ((view S)\<lparr>sch := fst (snd (schedule (own_sched S) fc thr))\<rparr>) (m_tasks (own_sched S) = []))"
  using iosys_step.pool [OF sched_step.env_submit [of "view S" fc thr tk], of ctl] assms
  by (simp add: idle_pinned_def calls_tickle_def)

subsection \<open>A lost wake-up\<close>

text \<open>
  Asleep with work in the queue: the only worker is in \<open>epoll_wait\<close>, the pipe is empty and no call of
  \<open>tickle()\<close> is outstanding.
\<close>

definition asleep :: "int \<Rightarrow> 'k iosys \<Rightarrow> bool" where
  "asleep n S \<longleftrightarrow> y_idles S = [Waiting n] \<and> map w_pc (y_workers S) = [InIdle] \<and> y_pipe S = 0 \<and>
     tickles (mgr S) = [] \<and> m_tasks (own_sched S) \<noteq> [] \<and> \<not> y_aborted S"

lemma asleep_submit:
  assumes "iosys_step ctl S (Worker (Submit tk)) T" and "asleep n S"
  shows "asleep n T \<and> m_tasks (own_sched T) = m_tasks (own_sched S) @ [tk]"
  using assms(1)
proof (cases rule: iosys_step.cases)
  case (pool v)
  from assms(2) obtain w where w: "y_workers S = [w]" "w_pc w = InIdle"
    by (auto simp: asleep_def)
  have idle: "\<not> (live_worker (view S) j u \<and> w_pc u \<noteq> InIdle)" for j u
    using w by (auto simp: live_worker_def)
  from pool(2) idle obtain fc thr where v: "v = (view S)\<lparr>sch := fst (snd (schedule (own_sched S) fc thr))\<rparr>"
    "fst (new_task fc thr) = tk" "task_nonnull tk"
    by (cases rule: sched_step.cases) auto
  have quiet: "\<not> calls_tickle (view S) (Submit tk) v"
    using assms(2) by (simp add: calls_tickle_def asleep_def)
  have T: "own_sched T = sch v" "mgr T = (mgr S)\<lparr>scheds := (scheds (mgr S))(io_this (mgr S) \<mapsto> sch v)\<rparr>"
    "y_idles T = y_idles S" "y_workers T = y_workers S" "y_pipe T = y_pipe S" "y_aborted T = y_aborted S"
    using quiet by (simp_all add: pool(1) put_view_def own_sched_def note_tickle_def v(1))
  from v have "m_tasks (sch v) = m_tasks (own_sched S) @ [tk]" by (simp add: schedule_sel)
  with assms(2) show ?thesis by (simp add: asleep_def T)
qed

lemma asleep_submits:
  assumes "iosys_steps ctl S ls T" and "\<forall>l \<in> set ls. \<exists>tk. l = Worker (Submit tk)" and "asleep n S"
  shows "asleep n T \<and> length (m_tasks (own_sched T)) = length (m_tasks (own_sched S)) + length ls"
  using assms
proof (induction rule: iosys_steps.induct)
  case (more S ls T l U)
  then obtain tk where "l = Worker (Submit tk)" by auto
  with more asleep_submit [of ctl T tk U n] show ?case by simp
qed simp

text \<open>The run: the worker finds nothing, a task is submitted, \<open>tickle()\<close> sees no idle worker, the worker goes to sleep.\<close>

lemma lost_wakeup_run:
  "\<exists>S. iosys_steps quiet_kernel io_example
      [Worker Tau, Worker (Submit (cb_task (Some (User 1)))), Silent, Worker Tau, Silent] S \<and>
    asleep 3000 S \<and> m_tasks (own_sched S) = [cb_task (Some (User 1))]"
proof -
  let ?w = "\<lparr>w_tid = 20, w_pc = Top, w_cbFiber = None, w_idle = INIT\<rparr>"
  let ?tk = "cb_task (Some (User 1))"
  note run = own_sched_def put_view_def note_tickle_def started_pool_def pool_def
  let ?S1 = "io_example\<lparr>mgr := fresh_io\<lparr>scheds := (scheds fresh_io)(1 \<mapsto> started_pool)\<rparr>,
      y_workers := [?w\<lparr>w_pc := NothingFound\<rparr>]\<rparr>"
  let ?S2 = "?S1\<lparr>mgr := fresh_io\<lparr>scheds := (scheds fresh_io)(1 \<mapsto> started_pool\<lparr>m_tasks := [?tk]\<rparr>), tickles := [1]\<rparr>\<rparr>"
  let ?S3 = "?S2\<lparr>mgr := (mgr ?S2)\<lparr>tickles := []\<rparr>\<rparr>"
  let ?sc = "started_pool\<lparr>m_tasks := [?tk], m_idleThreadCount := 1\<rparr>"
  let ?S4 = "?S3\<lparr>mgr := (mgr ?S3)\<lparr>scheds := (scheds fresh_io)(1 \<mapsto> ?sc)\<rparr>,
      y_workers := [?w\<lparr>w_pc := InIdle, w_idle := EXEC\<rparr>]\<rparr>"
  let ?S5 = "(idle_at ?S4 0 (Waiting 3000))\<lparr>mgr := (mgr ?S4)\<lparr>io_timers := snd (getNextTimer (new_timer_manager 0) 0)\<rparr>\<rparr>"
  have v1: "exec (view io_example) (Work 0 HOLD 5) =
      Some (Tau, (view io_example)\<lparr>workers := [?w\<lparr>w_pc := NothingFound\<rparr>]\<rparr>)"
    by (simp add: io_example_def view_def upd_def run)
  from work_step [OF v1, of quiet_kernel] have s1: "iosys_step quiet_kernel io_example (Worker Tau) ?S1"
    by (simp add: io_example_def view_def run calls_tickle_def)
  have s2: "iosys_step quiet_kernel ?S1 (Worker (Submit ?tk)) ?S2"
    using submit_step [of ?S1 "ByCb (Some (User 1))" "-1" ?tk quiet_kernel]
    by (simp add: io_example_def view_def run cb_task_def task_nonnull_def schedule_def scheduleNoLock_def)
  have s3: "iosys_step quiet_kernel ?S2 Silent ?S3"
    using iosys_step.tickle [of ?S2 1 "[]" quiet_kernel]
    by (simp add: io_example_def run io_tickle_def hasIdleThreads_def)
  have v4: "exec (view ?S3) (Work 0 HOLD 5) = Some (Tau, (view ?S3)\<lparr>workers := [?w\<lparr>w_pc := InIdle, w_idle := EXEC\<rparr>], sch := ?sc\<rparr>)"
    by (simp add: io_example_def view_def upd_def run)
  from work_step [OF v4, of quiet_kernel] have s4: "iosys_step quiet_kernel ?S3 (Worker Tau) ?S4"
    by (simp add: io_example_def view_def run calls_tickle_def)
  have s5: "iosys_step quiet_kernel ?S4 Silent ?S5"
    using iosys_step.idle_wait [of ?S4 0 "?w\<lparr>w_pc := InIdle, w_idle := EXEC\<rparr>" 0 "NOT 0"
        "(mgr ?S4)\<lparr>io_timers := snd (getNextTimer (new_timer_manager 0) 0)\<rparr>" quiet_kernel]
    by (simp add: io_example_def idler_def io_stopping_def run stopping_def getNextTimer_def
        new_timer_manager_def epoll_timeout_def to_int_def)
  from iosys_steps_Cons [OF iosys_steps_Cons [OF iosys_steps_Cons [OF iosys_steps_Cons
        [OF iosys_steps_Cons [OF iosys_steps.none s5] s4] s3] s2] s1]
  show ?thesis
    by (intro exI conjI, assumption) (simp_all add: asleep_def io_example_def run)
qed

text \<open>
  Once the worker is counted as idle, a submission to the empty queue writes to the pipe, and the worker
  comes back and runs the task.
\<close>

definition callback_slot :: "callback \<Rightarrow> event_context" where
  "callback_slot f = \<lparr>ec_scheduler = None, ec_fiber = None, ec_cb = Some f\<rparr>"

lemma callback_slot_task: "event_task (callback_slot f) = cb_task (Some f)"
  by (simp add: event_task_def callback_slot_def cb_task_def)

lemma idle_counted:
  assumes inv: "iosys_inv S" and i: "idler S i w p" and small: "length (y_workers S) < 2 ^ 64"
  shows "hasIdleThreads (own_sched S)"
proof -
  let ?n = "length (filter (\<lambda>w. idling (w_pc w)) (y_workers S))"
  have "w \<in> set (filter (\<lambda>w. idling (w_pc w)) (y_workers S))"
    using i by (auto simp: idler_def)
  then have "0 < ?n" by (metis length_pos_if_in_set)
  moreover have "?n < 2 ^ 64" using small length_filter_le [of "\<lambda>w. idling (w_pc w)" "y_workers S"] by linarith
  ultimately have "unat (of_nat ?n :: u64) \<noteq> 0" by (simp add: unat_of_nat)
  then have "(of_nat ?n :: u64) \<noteq> 0" by (metis unat_0)
  moreover have "m_idleThreadCount (own_sched S) = of_nat ?n"
    using sched_inv_tally [OF iosys_invD(2) [OF inv]] by (simp add: tally_eq)
  ultimately show ?thesis by (simp add: hasIdleThreads_def word_neq_0_conv)
qed

lemma submit_wakes:
  assumes inv: "iosys_inv S" and i: "idler S i w (Waiting n)" and small: "length (y_workers S) < 2 ^ 64"
    and empty: "m_tasks (own_sched S) = []" and calm: "tickles (mgr S) = []"
    and d: "dispatchable S w g (callback_slot f)"
    and timers: "r \<notin> dom (heap (io_timers (mgr S)))" "listExpiredCb (io_timers (mgr S)) now r [] = ([], ti)"
  shows "\<exists>T. iosys_steps ctl S ([Worker (Submit (cb_task (Some f))), Silent, Silent, TimersFired [], Silent, Silent, Silent] @
      map Worker [Tau, Tau, Tau, Started (cb_task (Some f))]) T \<and> w_pc (y_workers T ! i) = InCb g"
proof -
  let ?tk = "cb_task (Some f)" and ?sc = "fst (snd (schedule (own_sched S) (ByCb (Some f)) (-1)))"
  obtain S1 where S1: "S1 = put_view S ((view S)\<lparr>sch := ?sc\<rparr>) True" by blast
  have s1: "iosys_step ctl S (Worker (Submit ?tk)) S1"
    using submit_step [of S "ByCb (Some f)" "-1" ?tk ctl] i empty
    by (simp add: S1 idler_def cb_task_def task_nonnull_def)
  have v1: "own_sched S1 = ?sc" "tickles (mgr S1) = [io_this (mgr S)]" "io_timers (mgr S1) = io_timers (mgr S)"
    using calm by (simp_all add: S1 put_view_def own_sched_def note_tickle_def)
  have i1: "idler S1 i w (Waiting n)" using i by (simp add: S1 put_view_def idler_def)
  obtain S2 where S2: "S2 = S1\<lparr>mgr := (mgr S1)\<lparr>tickles := []\<rparr>,
      y_pipe := y_pipe S1 + (if io_tickle (own_sched S1) then 1 else 0)\<rparr>" by blast
  have s2: "iosys_step ctl S1 Silent S2"
    unfolding S2 using v1(2) i1 by (intro iosys_step.tickle) (simp_all add: idler_def)
  have i2: "idler S2 i w (Waiting n)" using i1 by (simp add: S2 idler_def)
  have "io_tickle (own_sched S1)"
    using idle_counted [OF inv i small] by (simp add: v1(1) io_tickle_def hasIdleThreads_def schedule_sel)
  then have rep: "\<forall>ev \<in> set [(TickleFd, 0)]. reportable S2 (fst ev)" by (simp add: S2 reportable_def)
  have timers2: "r \<notin> dom (heap (io_timers (mgr S2)))" "listExpiredCb (io_timers (mgr S2)) now r [] = ([], ti)"
    using timers v1(3) by (simp_all add: S2)
  let ?m = "(mgr S2)\<lparr>io_timers := ti\<rparr>"
  let ?S3 = "S2\<lparr>mgr := ?m, y_pipe := 0, y_idles := (y_idles S2)[i := LoopTop],
      y_workers := (y_workers S2)[i := w\<lparr>w_pc := IdleBack\<rparr>]\<rparr>"
  have s3: "iosys_steps ctl S2 [Silent, TimersFired [], Silent, Silent, Silent] ?S3"
    using idle_stretch [OF i2 rep timers2 schedule_expired_nothing, where ctl = ctl and m = ?m]
    by (simp add: idle_event_def)
  have q: "m_tasks (sch (view ?S3)) = [event_task (callback_slot f)]"
    using v1(1) empty by (simp add: S2 own_sched_def callback_slot_task schedule_sel cb_task_def task_nonnull_def)
  have live: "i < length (workers (view ?S3))" "workers (view ?S3) ! i = w\<lparr>w_pc := IdleBack\<rparr>"
    "\<not> aborted (view ?S3)" "w_pc (w\<lparr>w_pc := IdleBack\<rparr>) = IdleBack"
    using i2 by (simp_all add: idler_def)
  have fs: "y_fstates S2 = y_fstates S" by (simp add: S2 S1 put_view_def)
  have "\<exists>v. exec_all (view ?S3) (replicate 4 (Work i HOLD g)) =
        Some ([Tau, Tau, Tau, Started (event_task (callback_slot f))], v) \<and> busy (view ?S3) i HOLD g 4 \<and>
      w_pc (workers v ! i) = (if ec_cb (callback_slot f) = None then InFiber g else InCb g)"
    by (rule run_event_task [OF live q])
      (use d in \<open>simp_all add: callback_slot_def dispatchable_def fs split: option.splits\<close>)
  then obtain v where v: "exec_all (view ?S3) (replicate 4 (Work i HOLD g)) =
      Some ([Tau, Tau, Tau, Started (event_task (callback_slot f))], v)" "busy (view ?S3) i HOLD g 4"
    "w_pc (workers v ! i) = InCb g" by (auto simp: callback_slot_def)
  from work_steps [OF v(1,2), of ctl] obtain T where
    T: "iosys_steps ctl ?S3 (map Worker [Tau, Tau, Tau, Started (event_task (callback_slot f))]) T" "view T = v" by blast
  have "w_pc (y_workers T ! i) = InCb g" using v(3) T(2) by (metis view_sel(3))
  with iosys_steps_Cons [OF iosys_steps_Cons [OF iosys_steps_append [OF T(1) s3] s2] s1] show ?thesis
    by (auto simp: callback_slot_task)
qed

subsection \<open>The concrete system waiting for an event\<close>

lemma waiting_run:
  "\<exists>S p c x tk. iosys_steps quiet_kernel io_example [Worker Tau, Worker Tau, Silent, Registered tk] S \<and>
    (\<exists>w. idler S 0 w (Waiting 3000) \<and> w_cbFiber w = None \<and> y_workers S = [w] \<and> w_idle w = EXEC) \<and> m_tasks (own_sched S) = [] \<and>
    fd_heap (mgr S) p = Some c \<and> fc_events c = WRITE \<and> getContext c WRITE = Some x \<and>
    ec_cb x = Some (User 9) \<and> ec_fiber x = None \<and> y_fstates S = Map.empty \<and>
    heap (io_timers (mgr S)) = Map.empty \<and> m_timers (io_timers (mgr S)) = [] \<and> tickles (mgr S) = []"
proof -
  let ?w = "\<lparr>w_tid = 20, w_pc = Top, w_cbFiber = None, w_idle = INIT\<rparr>"
  note run = own_sched_def put_view_def note_tickle_def started_pool_def pool_def
  let ?S1 = "io_example\<lparr>mgr := fresh_io\<lparr>scheds := (scheds fresh_io)(1 \<mapsto> started_pool)\<rparr>,
      y_workers := [?w\<lparr>w_pc := NothingFound\<rparr>]\<rparr>"
  let ?sc = "started_pool\<lparr>m_idleThreadCount := 1\<rparr>"
  let ?S2 = "?S1\<lparr>mgr := (mgr ?S1)\<lparr>scheds := (scheds fresh_io)(1 \<mapsto> ?sc)\<rparr>,
      y_workers := [?w\<lparr>w_pc := InIdle, w_idle := EXEC\<rparr>]\<rparr>"
  let ?S3 = "(idle_at ?S2 0 (Waiting 3000))\<lparr>mgr := (mgr ?S2)\<lparr>io_timers := snd (getNextTimer (new_timer_manager 0) 0)\<rparr>\<rparr>"
  have v1: "exec (view io_example) (Work 0 HOLD 5) =
      Some (Tau, (view io_example)\<lparr>workers := [?w\<lparr>w_pc := NothingFound\<rparr>]\<rparr>)"
    by (simp add: io_example_def view_def upd_def run)
  from work_step [OF v1, of quiet_kernel] have s1: "iosys_step quiet_kernel io_example (Worker Tau) ?S1"
    by (simp add: io_example_def view_def run calls_tickle_def)
  have v2: "exec (view ?S1) (Work 0 HOLD 5) = Some (Tau, (view ?S1)\<lparr>workers := [?w\<lparr>w_pc := InIdle, w_idle := EXEC\<rparr>], sch := ?sc\<rparr>)"
    by (simp add: io_example_def view_def upd_def run)
  from work_step [OF v2, of quiet_kernel] have s2: "iosys_step quiet_kernel ?S1 (Worker Tau) ?S2"
    by (simp add: io_example_def view_def run calls_tickle_def)
  have s3: "iosys_step quiet_kernel ?S2 Silent ?S3"
    using iosys_step.idle_wait [of ?S2 0 "?w\<lparr>w_pc := InIdle, w_idle := EXEC\<rparr>" 0 "NOT 0"
        "(mgr ?S2)\<lparr>io_timers := snd (getNextTimer (new_timer_manager 0) 0)\<rparr>" quiet_kernel]
    by (simp add: io_example_def idler_def io_stopping_def run stopping_def getNextTimer_def
        new_timer_manager_def epoll_timeout_def to_int_def)
  obtain p where p: "fd_heap fresh_io p = Some (new_fd_context 5)" by (rule fresh_io_find)
  then have p3: "fd_heap (mgr ?S3) p = Some (new_fd_context 5)" by simp
  let ?x = "registration (Some (User 9)) (Some 1) 0"
  let ?c = "putContext ((new_fd_context 5)\<lparr>fc_events := WRITE\<rparr>) WRITE ?x"
  let ?m = "(mgr ?S3)\<lparr>epoll := (), m_pendingEventCount := 1, fd_heap := (fd_heap fresh_io)(p \<mapsto> ?c)\<rparr>"
  let ?tk = "\<lparr>task_fiber = None, task_cb = Some (User 9), task_thread = -1\<rparr>"
  have reg: "addEvent_register quiet_kernel (mgr ?S3) p (fc_fd (new_fd_context 5)) WRITE (Some (User 9))
      (Some (io_this (mgr ?S3))) 0 EXEC = Inr (True, ?m)"
    using addEvent_register_eq [where ctl = quiet_kernel and e = WRITE and fd = 5 and rt = 0 and k = "()"
        and cb = "Some (User 9)" and st = EXEC, OF p3]
    by (simp add: new_fd_context_def ctx_ok_def events_ok_def slot_ok_def quiet_kernel_def)
  have s4: "iosys_step quiet_kernel ?S3 (Registered ?tk) (?S3\<lparr>mgr := ?m\<rparr>)"
    using iosys_step.register [OF _ p3 reg] by (simp add: io_example_def)
  from iosys_steps_Cons [OF iosys_steps_Cons [OF iosys_steps_Cons [OF iosys_steps_Cons
        [OF iosys_steps.none s4] s3] s2] s1]
  have steps: "iosys_steps quiet_kernel io_example [Worker Tau, Worker Tau, Silent, Registered ?tk] (?S3\<lparr>mgr := ?m\<rparr>)" .
  show ?thesis
    by (rule exI [of _ "?S3\<lparr>mgr := ?m\<rparr>"], rule exI [of _ p], rule exI [of _ ?c], rule exI [of _ ?x],
        rule exI [of _ ?tk], intro conjI, rule steps)
       (simp_all add: io_example_def idler_def run getContext_def putContext_def registration_def
          getNextTimer_def new_timer_manager_def)
qed

subsection \<open>A submission and the sleeping worker\<close>

text \<open>
  C27. A wake-up can be lost. \<open>run\<close> looks for a task first and adds itself to
  \<open>m_idleThreadCount\<close> afterwards, and \<open>tickle()\<close> writes nothing while that count is zero: a task submitted in
  between leaves the pipe empty, and the only worker sleeps in \<open>epoll_wait\<close> with 3000 ms to go although a task it
  may run is queued. Submitting more does not help, since only a submission to an empty queue calls
  \<open>tickle()\<close>: however many tasks follow, they all stay in the queue, nothing is written and the worker
  sleeps on. Once the worker is counted and asleep the submission does wake it: in every reachable state with
  the queue empty, no tickle pending and no timer expired, a callback submitted while a worker sleeps is written
  to the pipe, \<open>epoll_wait\<close> returns, and that worker takes the callback off the queue and enters it.
\<close>

theorem wakeup_lost:
  "(\<exists>S tk. iosys_start quiet_kernel io_example \<and>
     iosys_steps quiet_kernel io_example [Worker Tau, Worker (Submit tk), Silent, Worker Tau, Silent] S \<and>
     m_tasks (own_sched S) = [tk] \<and> (\<forall>st tid. runnable st tid tk) \<and> asleep 3000 S \<and>
     (\<forall>ls T. iosys_steps quiet_kernel S ls T \<and> (\<forall>l \<in> set ls. \<exists>tk. l = Worker (Submit tk)) \<longrightarrow>
        asleep 3000 T \<and> length (m_tasks (own_sched T)) = Suc (length ls))) \<and>
   (\<forall>S0 ls S i w n g f r now ti. iosys_start ctl S0 \<and> iosys_steps ctl S0 ls S \<and> idler S i w (Waiting n) \<and>
     length (y_workers S) < 2 ^ 64 \<and> m_tasks (own_sched S) = [] \<and> tickles (mgr S) = [] \<and>
     dispatchable S w g (callback_slot f) \<and> r \<notin> dom (heap (io_timers (mgr S))) \<and>
     listExpiredCb (io_timers (mgr S)) now r [] = ([], ti) \<longrightarrow>
     (\<exists>T. iosys_steps ctl S ([Worker (Submit (cb_task (Some f))), Silent, Silent, TimersFired [], Silent, Silent, Silent] @
        map Worker [Tau, Tau, Tau, Started (cb_task (Some f))]) T \<and> w_pc (y_workers T ! i) = InCb g))"
  (is "?lost \<and> ?woken")
proof
  obtain S where S: "iosys_steps quiet_kernel io_example
      [Worker Tau, Worker (Submit (cb_task (Some (User 1)))), Silent, Worker Tau, Silent] S"
    "asleep 3000 S" "m_tasks (own_sched S) = [cb_task (Some (User 1))]"
    using lost_wakeup_run by blast
  have "asleep 3000 T \<and> length (m_tasks (own_sched T)) = Suc (length ls)"
    if "iosys_steps quiet_kernel S ls T \<and> (\<forall>l \<in> set ls. \<exists>tk. l = Worker (Submit tk))" for ls T
    using asleep_submits [of quiet_kernel S ls T 3000] that S(2,3) by simp
  with S io_example_start show ?lost
    by (intro exI [of _ S] exI [of _ "cb_task (Some (User 1))"] conjI) (auto simp: runnable_def cb_task_def)
  have reach: "iosys_inv S" if "iosys_start ctl S0" "iosys_steps ctl S0 ls S" for S0 ls S
    using iosys_steps_inv_work [OF that(2)] iosys_start_inv [OF that(1)] by simp
  show ?woken
    by (intro allI impI, elim conjE) (rule submit_wakes [OF reach], assumption+)
qed

theorem wakeup_lost_witness:
  "(\<exists>(S :: unit iosys) tk T. asleep 3000 S \<and> iosys_step quiet_kernel S (Worker (Submit tk)) T \<and>
     asleep 3000 T \<and> length (m_tasks (own_sched T)) = 2) \<and>
   (\<exists>(S :: unit iosys) T. m_tasks (own_sched S) = [] \<and> iosys_steps quiet_kernel S
     ([Worker (Submit (cb_task (Some (User 3)))), Silent, Silent, TimersFired [], Silent, Silent, Silent] @
      map Worker [Tau, Tau, Tau, Started (cb_task (Some (User 3)))]) T \<and> w_pc (y_workers T ! 0) = InCb 7)"
  (is "?asleep \<and> ?awake")
proof
  let ?tk = "cb_task (Some (User 2))"
  obtain S :: "unit iosys" where S: "asleep 3000 S"
    and all: "\<forall>ls T. iosys_steps quiet_kernel S ls T \<and> (\<forall>l \<in> set ls. \<exists>tk. l = Worker (Submit tk)) \<longrightarrow>
        asleep 3000 T \<and> length (m_tasks (own_sched T)) = Suc (length ls)"
    using wakeup_lost [THEN conjunct1] by (elim exE conjE)
  from S obtain T where T: "iosys_step quiet_kernel S (Worker (Submit ?tk)) T"
    using submit_step [of S "ByCb (Some (User 2))" "-1" ?tk quiet_kernel]
    by (auto simp: asleep_def cb_task_def task_nonnull_def)
  from iosys_steps.more [OF iosys_steps.none T] have "iosys_steps quiet_kernel S [Worker (Submit ?tk)] T" by simp
  with all have "asleep 3000 T \<and> length (m_tasks (own_sched T)) = Suc 1" by fastforce
  with S T show ?asleep by (intro exI [of _ S] exI [of _ ?tk] exI [of _ T]) simp
  obtain S tk w where S: "iosys_steps quiet_kernel io_example [Worker Tau, Worker Tau, Silent, Registered tk] S"
    "idler S 0 w (Waiting 3000)" "w_cbFiber w = None" "y_workers S = [w]" "m_tasks (own_sched S) = []"
    "y_fstates S = Map.empty" "heap (io_timers (mgr S)) = Map.empty" "m_timers (io_timers (mgr S)) = []"
    "tickles (mgr S) = []"
    using waiting_run by blast
  have d: "dispatchable S w 7 (callback_slot (User 3))" using S by (simp add: dispatchable_def callback_slot_def)
  have t: "listExpiredCb (io_timers (mgr S)) 0 8 [] = ([], io_timers (mgr S))"
    using S(8) by (simp add: listExpiredCb_def)
  have fresh: "8 \<notin> dom (heap (io_timers (mgr S)))" "length (y_workers S) < 2 ^ 64" using S(4,7) by simp_all
  note woken = wakeup_lost [THEN conjunct2, rule_format]
  show ?awake
    using woken [OF conjI [OF io_example_start conjI [OF S(1) conjI [OF S(2) conjI [OF fresh(2) conjI [OF S(5)
        conjI [OF S(9) conjI [OF d conjI [OF fresh(1) t]]]]]]]]] S(5) by blast
qed

theorem io_work_conserved_witness:
  "\<exists>S tk. iosys_steps quiet_kernel io_example [Worker Tau, Worker Tau, Silent, Registered tk] S \<and>
     {#tk#} = mset (queue_of (mgr S) (io_this (mgr S))) + held (y_workers S) + registered_work (fd_heap (mgr S)) +
       sum_list (map expiring (y_idles S)) \<and>
     m_idleThreadCount (own_sched S) = of_nat (length (filter (\<lambda>w. idling (w_pc w)) (y_workers S)))"
proof -
  obtain S tk where S: "iosys_steps quiet_kernel io_example [Worker Tau, Worker Tau, Silent, Registered tk] S"
    using waiting_run by blast
  from io_work_conserved [OF io_example_start S] S show ?thesis
    by (intro exI [of _ S] exI [of _ tk]) simp
qed


end
