(* ===== verification/IO_Timer_Runs.thy ===== *)
theory IO_Timer_Runs
  imports IO_System_Runs
begin

text \<open>
  From a timer to its running callback: the round of a worker that comes back from \<open>epoll_wait\<close> when
  timers are due, through the queue of the scheduler to the end of the last callback.
\<close>

lemma exec_all_length: "exec_all s acts = Some (ls, t) \<Longrightarrow> length ls = length acts"
  by (induction acts arbitrary: s ls) (auto simp del: exec.simps split: option.splits)

subsection \<open>From the idle loop through the queue\<close>

text \<open>The worker leaves the idle loop and runs what is queued, until nothing is left.\<close>

lemma leave_and_drain:
  assumes w: "workers s = [w]" "w_pc w = IdleBack" "\<not> stateTermOrExcept (w_idle w)" "\<not> aborted s"
    and cb: "case w_cbFiber w of None \<Rightarrow> fstates s g = None | Some h \<Rightarrow> h = g \<and> fstates s g = Some INIT"
    and own: "\<forall>tk \<in> set (m_tasks (sch s)). own_cb (w_tid w) tk"
  shows "\<exists>ls t. exec_all s (replicate (1 + 6 * length (m_tasks (sch s))) (Work 0 FTERM g)) = Some (ls, t) \<and>
    busy s 0 FTERM g (1 + 6 * length (m_tasks (sch s))) \<and>
    filter (\<lambda>l. l \<noteq> Tau) ls = map Started (m_tasks (sch s)) \<and> m_tasks (sch t) = [] \<and> map w_pc (workers t) = [Top]"
proof -
  let ?w = "w\<lparr>w_pc := Top, w_idle := HOLD\<rparr>"
  let ?s = "s\<lparr>workers := [?w], sch := (sch s)\<lparr>m_idleThreadCount := m_idleThreadCount (sch s) - 1\<rparr>\<rparr>"
  have out: "exec_all s (replicate 1 (Work 0 FTERM g)) = Some ([Tau], ?s)" "busy s 0 FTERM g 1"
    using w by (simp_all add: upd_def)
  have "ready_worker ?s ?w g"
    using w(4) cb by (simp add: ready_worker_def split: option.splits)
  moreover have "\<forall>tk \<in> set (m_tasks (sch ?s)). own_cb (w_tid ?w) tk" using own by simp
  ultimately obtain ls t w' where d: "exec_all ?s (replicate (6 * length (m_tasks (sch ?s))) (Work 0 FTERM g)) = Some (ls, t)"
    "filter (\<lambda>l. l \<noteq> Tau) ls = map Started (m_tasks (sch ?s))" "ready_worker t w' g"
    "sch t = (sch ?s)\<lparr>m_tasks := []\<rparr>" "busy ?s 0 FTERM g (6 * length (m_tasks (sch ?s)))"
    using drain_callbacks by blast
  from exec_all_append [OF out(1) d(1)]
  have run: "exec_all s (replicate (1 + 6 * length (m_tasks (sch s))) (Work 0 FTERM g)) = Some ([Tau] @ ls, t)"
    unfolding replicate_add by simp
  have "busy s 0 FTERM g (1 + 6 * length (m_tasks (sch s)))"
    using busy_append [OF out(2,1) d(5)] by simp
  moreover have "map w_pc (workers t) = [Top]" using d(3) by (simp add: ready_worker_def)
  ultimately show ?thesis
    using run d(2,4) by (intro exI [of _ "[Tau] @ ls"] exI [of _ t]) simp
qed

lemma own_cb_task: "\<forall>tk \<in> set (map cb_task (filter (\<lambda>c. c \<noteq> None) cbs)). own_cb tid tk"
  by (auto simp: own_cb_def cb_task_def)

text \<open>One round of the idle loop when timers are due: their callbacks are queued and the worker is about to leave.\<close>

lemma timers_queued:
  assumes inv: "iosys_inv S" and i: "idler S i w (Waiting n)" and empty: "m_tasks (own_sched S) = []"
    and fresh: "r \<notin> dom (heap (io_timers (mgr S)))" and timers: "listExpiredCb (io_timers (mgr S)) now r [] = (cbs, ti)"
  shows "\<exists>U. iosys_steps ctl S [Silent, TimersFired cbs, Silent, Silent] U \<and> io_timers (mgr U) = ti \<and>
    m_tasks (own_sched U) = map cb_task (filter (\<lambda>c. c \<noteq> None) cbs) \<and>
    y_workers U = (y_workers S)[i := w\<lparr>w_pc := IdleBack\<rparr>] \<and> y_fstates U = y_fstates S \<and> y_aborted U = y_aborted S"
proof -
  let ?m = "(mgr S)\<lparr>io_timers := ti\<rparr>"
  note own = iosys_invD(1) [OF inv]
  have sc: "scheds ?m (io_this ?m) = Some (own_sched S)" using own_sched_Some [OF own] by simp
  obtain m where m: "schedule_expired ?m cbs = Inr m" "io_timers m = ti"
    "queue_of m (io_this (mgr S)) = m_tasks (own_sched S) @ map cb_task (filter (\<lambda>c. c \<noteq> None) cbs)"
    by (rule schedule_expired_queue [OF sc, where cbs = cbs]) simp
  have fed: "fed ?m m"
    using schedule_expired_work [OF _ m(1)] own by simp
  then obtain sm where sm: "scheds m (io_this (mgr S)) = Some sm" "io_this m = io_this (mgr S)"
    using fed_this [OF fed] by (auto simp: fed_def)
  let ?U = "S\<lparr>mgr := m, y_pipe := y_pipe S, y_idles := (y_idles S)[i := LoopTop],
      y_workers := (y_workers S)[i := w\<lparr>w_pc := IdleBack\<rparr>]\<rparr>"
  have "iosys_steps ctl S [Silent, TimersFired cbs, Silent, Silent] ?U"
    using idle_stretch [OF i _ fresh timers m(1), where evs = "[]" and ctl = ctl and m = m] by simp
  then show ?thesis
    using m(2,3) sm empty by (intro exI [of _ ?U]) (simp add: queue_of_def own_sched_def)
qed



end
