(* ===== verification/IO_Shutdown.thy ===== *)
theory IO_Shutdown
  imports IO_System_Runs
begin

text \<open>
  How the I/O manager ends: when \<open>stop\<close> has set its flags and nothing is left to do, every worker leaves
  \<open>epoll_wait\<close> at the latest with its timeout, sees \<open>stopping()\<close> in the next round of \<open>idle\<close>, and
  returns from \<open>run\<close>.
\<close>

text \<open>Nothing is left to do, and every worker is between two tasks: in the loop of \<open>run\<close>, asleep, or gone.\<close>

definition between_tasks :: "worker \<Rightarrow> idle_pc \<Rightarrow> bool" where
  "between_tasks w p \<longleftrightarrow> w_pc w \<in> {Top, NothingFound, InIdle, IdleBack, Exited} \<and> (p = LoopTop \<or> (\<exists>n. p = Waiting n))"

definition shutting_down :: "'k iosys \<Rightarrow> bool" where
  "shutting_down S \<longleftrightarrow> \<not> y_aborted S \<and> m_autoStop (own_sched S) \<and> m_stopping (own_sched S) \<and>
     m_tasks (own_sched S) = [] \<and> m_pendingEventCount (mgr S) = 0 \<and> m_timers (io_timers (mgr S)) = [] \<and>
     (\<exists>r. r \<notin> dom (heap (io_timers (mgr S)))) \<and>
     (\<forall>i < length (y_workers S). between_tasks (y_workers S ! i) (y_idles S ! i))"

text \<open>How far a worker is from the end.\<close>

definition to_go :: "worker \<Rightarrow> idle_pc \<Rightarrow> nat" where
  "to_go w p =
     (case w_pc w of
        Exited \<Rightarrow> 0
      | NothingFound \<Rightarrow> if w_idle w = FTERM then 1 else 5
      | Top \<Rightarrow> if w_idle w = FTERM then 2 else 6
      | IdleBack \<Rightarrow> if w_idle w = FTERM then 3 else 7
      | _ \<Rightarrow> if p = LoopTop then 4 else 8)"

abbreviation quiet_labels :: "io_label set" where
  "quiet_labels \<equiv> {Silent, Worker Tau, TimersFired []}"

lemma between_not_counted: "between_tasks w p \<Longrightarrow> \<not> counted (w_pc w)"
  by (auto simp: between_tasks_def)

lemma nobody_active:
  assumes "shutting_down S" and "sched_inv (view S)"
  shows "stopping (own_sched S)"
proof -
  have "filter (\<lambda>w. counted (w_pc w)) (y_workers S) = []"
    using assms(1) between_not_counted unfolding shutting_down_def filter_empty_conv by (metis in_set_conv_nth)
  then have "m_activeThreadCount (own_sched S) = 0"
    using sched_inv_tally [OF assms(2)] by (simp add: tally_eq)
  with assms(1) show ?thesis by (simp add: stopping_def shutting_down_def)
qed

text \<open>A step of a worker in \<open>run\<close> that takes nothing from the queue and counts nothing.\<close>

lemma pool_move:
  assumes down: "shutting_down S" and i: "i < length (y_workers S)" "w_pc (y_workers S ! i) \<noteq> InIdle"
    and step: "sched_step (view S) Tau ((upd (view S) i w')\<lparr>sch := sc\<rparr>)"
    and sc: "m_autoStop sc = m_autoStop (own_sched S)" "m_stopping sc = m_stopping (own_sched S)"
      "m_tasks sc = m_tasks (own_sched S)" "m_activeThreadCount sc = m_activeThreadCount (own_sched S)"
    and w': "between_tasks w' (y_idles S ! i)"
  shows "\<exists>T. iosys_step ctl S (Worker Tau) T \<and> shutting_down T \<and> y_workers T = (y_workers S)[i := w'] \<and> y_idles T = y_idles S"
proof -
  let ?v = "(upd (view S) i w')\<lparr>sch := sc\<rparr>"
  have pin: "idle_pinned (view S) ?v"
    unfolding idle_pinned_def upd_def using i(2) by (simp, metis nth_list_update_neq)
  have no: "calls_tickle (view S) Tau ?v = False" using sc(4) by (simp add: calls_tickle_def upd_def)
  from iosys_step.pool [OF step pin, where ctl = ctl] have "iosys_step ctl S (Worker Tau) (put_view S ?v False)" by (simp add: no)
  moreover have "shutting_down (put_view S ?v False)"
    using down sc w' i(1)
    by (auto simp: shutting_down_def put_view_def note_tickle_def own_sched_def upd_def nth_list_update)
  ultimately show ?thesis
    by (intro exI [of _ "put_view S ?v False"]) (simp add: put_view_def upd_def note_tickle_def)
qed

text \<open>One move of a worker, from each place it can be in.\<close>

lemma run_move:
  assumes down: "shutting_down S" and i: "i < length (y_workers S)" "y_workers S ! i = w"
    and pc: "w_pc w \<in> {Top, NothingFound, IdleBack}" and p: "y_idles S ! i = LoopTop"
  shows "\<exists>T w'. iosys_step ctl S (Worker Tau) T \<and> shutting_down T \<and> y_workers T = (y_workers S)[i := w'] \<and>
    y_idles T = y_idles S \<and> to_go w' LoopTop < to_go w LoopTop"
proof -
  have live: "live_worker (view S) i w" and empty: "m_tasks (own_sched S) = []"
    using down i by (simp_all add: live_worker_def shutting_down_def)
  consider "w_pc w = Top" | "w_pc w = NothingFound" "w_idle w = FTERM" | "w_pc w = NothingFound" "w_idle w \<noteq> FTERM"
    | "w_pc w = IdleBack" using pc by auto
  then show ?thesis
  proof cases
    case 1
    then have "sched_step (view S) Tau (upd (view S) i (w\<lparr>w_pc := NothingFound\<rparr>))"
      using sched_step.pick_nothing [OF live] empty by simp
    then have "sched_step (view S) Tau ((upd (view S) i (w\<lparr>w_pc := NothingFound\<rparr>))\<lparr>sch := own_sched S\<rparr>)"
      by (simp add: upd_def view_def)
    from pool_move [OF down i(1) _ this] 1 i(2) p show ?thesis
      by (fastforce simp: between_tasks_def to_go_def)
  next
    case 2
    then have "sched_step (view S) Tau (upd (view S) i (w\<lparr>w_pc := Exited\<rparr>))"
      using sched_step.idle_break [OF live] by simp
    then have "sched_step (view S) Tau ((upd (view S) i (w\<lparr>w_pc := Exited\<rparr>))\<lparr>sch := own_sched S\<rparr>)"
      by (simp add: upd_def view_def)
    from pool_move [OF down i(1) _ this] 2 i(2) p show ?thesis
      by (fastforce simp: between_tasks_def to_go_def)
  next
    case 3
    from pool_move [OF down i(1) _ sched_step.idle_enter [OF live 3]] 3 i(2) p show ?thesis
      by (fastforce simp: between_tasks_def to_go_def)
  next
    case 4
    from pool_move [OF down i(1) _ sched_step.idle_leave [OF live 4]] 4 i(2) p show ?thesis
      by (fastforce simp: between_tasks_def to_go_def)
  qed
qed

lemma idle_move:
  assumes down: "shutting_down S" and inv: "iosys_inv S" and i: "i < length (y_workers S)" "y_workers S ! i = w"
    and pc: "w_pc w = InIdle"
  shows "\<exists>ls T w'. iosys_steps ctl S ls T \<and> set ls \<subseteq> quiet_labels \<and> shutting_down T \<and>
    y_workers T = (y_workers S)[i := w'] \<and> y_idles T = (y_idles S)[i := LoopTop] \<and>
    to_go w' LoopTop < to_go w (y_idles S ! i)"
proof -
  have at: "idler S i w (y_idles S ! i)"
    using down i pc iosys_invD(4) [OF inv] by (simp add: idler_def shutting_down_def)
  consider "y_idles S ! i = LoopTop" | n where "y_idles S ! i = Waiting n"
    using down i(1) by (auto simp: shutting_down_def between_tasks_def)
  then show ?thesis
  proof cases
    case 1
    let ?w = "w\<lparr>w_pc := IdleBack, w_idle := FTERM\<rparr>"
    let ?m = "(mgr S)\<lparr>io_timers := snd (getNextTimer (io_timers (mgr S)) 0)\<rparr>"
    have "io_stopping (mgr S) 0 = Some (True, NOT 0, ?m)"
      using nobody_active [OF down iosys_invD(2) [OF inv]] down own_sched_Some [OF iosys_invD(1) [OF inv]]
      by (simp add: io_stopping_def shutting_down_def getNextTimer_def)
    from iosys_step.idle_stop [OF at [unfolded 1] this, of ctl]
    have step: "iosys_step ctl S Silent ((worker_at S i ?w)\<lparr>mgr := ?m\<rparr>)" .
    have "shutting_down ((worker_at S i ?w)\<lparr>mgr := ?m\<rparr>)"
      using down i(1) 1
      by (auto simp: shutting_down_def own_sched_def getNextTimer_def between_tasks_def nth_list_update)
    moreover have "(y_idles S)[i := LoopTop] = y_idles S" using list_update_id [of "y_idles S" i] 1 by simp
    ultimately show ?thesis
      using iosys_steps.more [OF iosys_steps.none step] pc 1
      by (intro exI [of _ "[Silent]"] exI [of _ "(worker_at S i ?w)\<lparr>mgr := ?m\<rparr>"] exI [of _ ?w]) (simp add: to_go_def)
  next
    case 2
    let ?w = "w\<lparr>w_pc := IdleBack\<rparr>"
    obtain r where r: "r \<notin> dom (heap (io_timers (mgr S)))" using down by (auto simp: shutting_down_def)
    have none: "listExpiredCb (io_timers (mgr S)) 0 r [] = ([], io_timers (mgr S))"
      using down by (simp add: shutting_down_def listExpiredCb_def)
    let ?T = "S\<lparr>y_idles := (y_idles S)[i := LoopTop], y_workers := (y_workers S)[i := ?w]\<rparr>"
    have "iosys_steps ctl S [Silent, TimersFired [], Silent, Silent] ?T"
      using idle_stretch [OF at [unfolded 2] _ r none schedule_expired_nothing, of "[]" ctl] by simp
    moreover have "shutting_down ?T"
      using down i(1) iosys_invD(4) [OF inv]
      by (auto simp: shutting_down_def own_sched_def between_tasks_def nth_list_update)
    ultimately show ?thesis
      using pc 2 by (intro exI [of _ "[Silent, TimersFired [], Silent, Silent]"] exI [of _ ?T] exI [of _ ?w]) (simp add: to_go_def)
  qed
qed

lemma one_move:
  assumes down: "shutting_down S" and inv: "iosys_inv S" and i: "i < length (y_workers S)" "w_pc (y_workers S ! i) \<noteq> Exited"
  shows "\<exists>ls T w'. iosys_steps ctl S ls T \<and> set ls \<subseteq> quiet_labels \<and> shutting_down T \<and>
    y_workers T = (y_workers S)[i := w'] \<and> y_idles T = (y_idles S)[i := LoopTop] \<and>
    to_go w' LoopTop < to_go (y_workers S ! i) (y_idles S ! i)"
proof (cases "w_pc (y_workers S ! i) = InIdle")
  case True
  from idle_move [OF down inv i(1) HOL.refl True] show ?thesis .
next
  case False
  then have p: "y_idles S ! i = LoopTop" using iosys_invD(5) [OF inv i(1)] by blast
  have "w_pc (y_workers S ! i) \<in> {Top, NothingFound, IdleBack}"
    using down i False by (auto simp: shutting_down_def between_tasks_def)
  from run_move [OF down i(1) HOL.refl this p, of ctl] obtain T w' where T: "iosys_step ctl S (Worker Tau) T" "shutting_down T"
    "y_workers T = (y_workers S)[i := w']" "y_idles T = y_idles S" "to_go w' LoopTop < to_go (y_workers S ! i) LoopTop" by blast
  have "(y_idles S)[i := LoopTop] = y_idles S" using list_update_id [of "y_idles S" i] p by simp
  with T p iosys_steps.more [OF iosys_steps.none T(1)] show ?thesis
    by (intro exI [of _ "[Worker Tau]"] exI [of _ T] exI [of _ w']) simp
qed

lemma workers_exit:
  "shutting_down S \<Longrightarrow> iosys_inv S \<Longrightarrow>
     \<exists>ls T. iosys_steps ctl S ls T \<and> set ls \<subseteq> quiet_labels \<and> length (y_workers T) = length (y_workers S) \<and>
       (\<forall>w \<in> set (y_workers T). w_pc w = Exited)"
proof (induction "sum_list (map2 to_go (y_workers S) (y_idles S))" arbitrary: S rule: less_induct)
  case less
  note down = less.prems(1) and inv = less.prems(2)
  show ?case
  proof (cases "\<forall>w \<in> set (y_workers S). w_pc w = Exited")
    case True
    then show ?thesis by (intro exI [of _ "[]"] exI [of _ S]) (simp add: iosys_steps.none)
  next
    case False
    then obtain i where i: "i < length (y_workers S)" "w_pc (y_workers S ! i) \<noteq> Exited" by (auto simp: in_set_conv_nth)
    from one_move [OF down inv i, of ctl] obtain ls T w' where T: "iosys_steps ctl S ls T" "set ls \<subseteq> quiet_labels"
      "shutting_down T" "y_workers T = (y_workers S)[i := w']" "y_idles T = (y_idles S)[i := LoopTop]"
      "to_go w' LoopTop < to_go (y_workers S ! i) (y_idles S ! i)" by blast
    have "map2 to_go (y_workers T) (y_idles T) = (map2 to_go (y_workers S) (y_idles S))[i := to_go w' LoopTop]"
      by (simp add: T(4,5) zip_update map_update)
    then have "sum_list (map2 to_go (y_workers T) (y_idles T)) < sum_list (map2 to_go (y_workers S) (y_idles S))"
      using sum_list_map_update [of i "map2 to_go (y_workers S) (y_idles S)" id "to_go w' LoopTop"] i(1) iosys_invD(4) [OF inv] T(6)
      by simp
    from less.hyps [OF this T(3)] iosys_steps_inv_work [OF T(1) inv] obtain ls' U
      where U: "iosys_steps ctl T ls' U" "set ls' \<subseteq> quiet_labels" "length (y_workers U) = length (y_workers T)"
        "\<forall>w \<in> set (y_workers U). w_pc w = Exited" by blast
    from iosys_steps_append [OF U(1) T(1)] U(2,3,4) T(2,4) show ?thesis
      by (intro exI [of _ "ls @ ls'"] exI [of _ U]) simp
  qed
qed

lemma reached_inv: "iosys_start ctl S0 \<Longrightarrow> iosys_steps ctl S0 ls S \<Longrightarrow> iosys_inv S"
  using iosys_steps_inv_work iosys_start_inv by blast


text \<open>A manager that is stopped before it had anything to do.\<close>

lemma flag_step:
  assumes "sched_step (view S) Tau ((view S)\<lparr>sch := sc\<rparr>)" and "m_activeThreadCount sc = m_activeThreadCount (own_sched S)"
  shows "iosys_step ctl S (Worker Tau) (put_view S ((view S)\<lparr>sch := sc\<rparr>) False)"
proof -
  have "idle_pinned (view S) ((view S)\<lparr>sch := sc\<rparr>)" by (simp add: idle_pinned_def)
  from iosys_step.pool [OF assms(1) this, of ctl] show ?thesis using assms(2) by (simp add: calls_tickle_def)
qed


end
