(* ===== verification/Std_Map.thy ===== *)
theory Std_Map
  imports Prelude "HOL-Library.List_Lexorder" "HOL-Library.Char_ord"
begin

text \<open>
  The part of \<open>std::map\<close> the code uses: the container is the list of its entries in the order of
  iteration. \<open>map_put\<close> is the assignment \<open>m[k] = v\<close>, which replaces a value; \<open>map_insert\<close> is
  \<open>insert\<close>, which keeps it. The locale states what a client of such a map relies on, whatever the
  representation.
\<close>

fun map_put :: "'k::linorder \<Rightarrow> 'v \<Rightarrow> ('k \<times> 'v) list \<Rightarrow> ('k \<times> 'v) list" where
  "map_put k v [] = [(k, v)]"
| "map_put k v ((k', v') # m) =
     (if k < k' then (k, v) # (k', v') # m
      else if k = k' then (k, v) # m
      else (k', v') # map_put k v m)"

fun map_insert :: "'k::linorder \<Rightarrow> 'v \<Rightarrow> ('k \<times> 'v) list \<Rightarrow> ('k \<times> 'v) list" where
  "map_insert k v [] = [(k, v)]"
| "map_insert k v ((k', v') # m) =
     (if k < k' then (k, v) # (k', v') # m
      else if k = k' then (k', v') # m
      else (k', v') # map_insert k v m)"

definition map_erase :: "'k \<Rightarrow> ('k \<times> 'v) list \<Rightarrow> ('k \<times> 'v) list" where
  "map_erase k m = filter (\<lambda>e. fst e \<noteq> k) m"

definition map_sorted :: "('k::linorder \<times> 'v) list \<Rightarrow> bool" where
  "map_sorted m \<longleftrightarrow> sorted_wrt (<) (map fst m)"

lemma map_of_put [simp]: "map_of (map_put k v m) = (map_of m)(k \<mapsto> v)"
  by (induction k v m rule: map_put.induct) (auto simp: fun_eq_iff)

lemma keys_put: "fst ` set (map_put k v m) = insert k (fst ` set m)"
  by (induction k v m rule: map_put.induct) auto

lemma keys_insert: "fst ` set (map_insert k v m) = insert k (fst ` set m)"
  by (induction k v m rule: map_insert.induct) auto

lemma map_sorted_Nil [simp]: "map_sorted []"
  by (simp add: map_sorted_def)

lemma map_sorted_Cons: "map_sorted (e # m) \<longleftrightarrow> (\<forall>k \<in> fst ` set m. fst e < k) \<and> map_sorted m"
  by (simp add: map_sorted_def)

lemma set_map_put: "set (map_put k v m) \<subseteq> insert (k, v) (set m)"
  by (induction k v m rule: map_put.induct) auto

lemma map_sorted_put: "map_sorted m \<Longrightarrow> map_sorted (map_put k v m)"
  by (induction k v m rule: map_put.induct) (auto simp: map_sorted_Cons keys_put)

lemma map_sorted_insert: "map_sorted m \<Longrightarrow> map_sorted (map_insert k v m)"
  by (induction k v m rule: map_insert.induct) (auto simp: map_sorted_Cons keys_insert)

lemma map_sorted_erase: "map_sorted m \<Longrightarrow> map_sorted (map_erase k m)"
  unfolding map_erase_def by (induction m) (auto simp: map_sorted_Cons)

lemma map_sorted_less: "map_sorted ((k', v') # m) \<Longrightarrow> k < k' \<Longrightarrow> map_of m k = None"
  by (force simp: map_sorted_Cons map_of_eq_None_iff)

lemma map_of_insert:
  "map_sorted m \<Longrightarrow> map_of (map_insert k v m) = (if map_of m k = None then (map_of m)(k \<mapsto> v) else map_of m)"
proof (induction k v m rule: map_insert.induct)
  case (2 k v k' v' m)
  then show ?case
    using map_sorted_less [of k' v' m k] by (auto simp: fun_eq_iff map_sorted_Cons)
qed simp

lemma map_of_erase [simp]: "map_of (map_erase k m) = (map_of m)(k := None)"
  unfolding map_erase_def by (induction m) (auto simp: fun_eq_iff)

lemma map_sorted_distinct: "map_sorted m \<Longrightarrow> distinct (map fst m)"
  by (induction m) (auto simp: map_sorted_Cons)

lemma map_put_snoc: "\<forall>e \<in> set m. fst e < k \<Longrightarrow> map_put k v m = m @ [(k, v)]"
  by (induction m) auto

lemma map_insert_snoc: "\<forall>e \<in> set m. fst e < k \<Longrightarrow> map_insert k v m = m @ [(k, v)]"
  by (induction m) auto

text \<open>Rebuilding a map entry by entry, in the order of iteration, gives it back.\<close>

lemma map_insert_rebuild:
  assumes "map_sorted m" and "\<forall>e \<in> set acc. \<forall>k \<in> fst ` set m. fst e < k"
  shows "fold (\<lambda>(k, v). map_insert k v) m acc = acc @ m"
  using assms
proof (induction m arbitrary: acc)
  case (Cons e m)
  obtain k v where e: "e = (k, v)" by fastforce
  have "map_insert k v acc = acc @ [(k, v)]"
    using Cons.prems(2) e by (intro map_insert_snoc) auto
  with Cons.IH [of "acc @ [e]"] Cons.prems e show ?case by (auto simp: map_sorted_Cons)
qed simp

subsection \<open>The interface\<close>

locale finite_map =
  fixes valid :: "'m \<Rightarrow> bool"
    and find :: "'m \<Rightarrow> 'k \<Rightarrow> 'v option"
    and none :: 'm
    and put :: "'k \<Rightarrow> 'v \<Rightarrow> 'm \<Rightarrow> 'm"
    and insert_new :: "'k \<Rightarrow> 'v \<Rightarrow> 'm \<Rightarrow> 'm"
    and erase :: "'k \<Rightarrow> 'm \<Rightarrow> 'm"
  assumes valid_none: "valid none"
    and valid_put: "valid m \<Longrightarrow> valid (put k v m)"
    and valid_insert: "valid m \<Longrightarrow> valid (insert_new k v m)"
    and valid_erase: "valid m \<Longrightarrow> valid (erase k m)"
    and find_none: "find none k = None"
    and find_put: "valid m \<Longrightarrow> find (put k v m) k' = (if k' = k then Some v else find m k')"
    and find_insert: "valid m \<Longrightarrow> find (insert_new k v m) k' =
      (if k' = k \<and> find m k = None then Some v else find m k')"
    and find_erase: "valid m \<Longrightarrow> find (erase k m) k' = (if k' = k then None else find m k')"
begin

lemma insert_bound: "valid m \<Longrightarrow> find m k \<noteq> None \<Longrightarrow> find (insert_new k v m) = find m"
  by (rule ext) (simp add: find_insert)

lemma insert_twice: "valid m \<Longrightarrow> find (insert_new k w (insert_new k v m)) = find (insert_new k v m)"
  by (rule insert_bound) (auto simp: valid_insert find_insert)

lemma put_erase: "valid m \<Longrightarrow> find m k = None \<Longrightarrow> find (erase k (put k v m)) = find m"
  by (rule ext) (simp add: find_erase find_put valid_put)

lemma put_keeps: "valid m \<Longrightarrow> find m k = None \<Longrightarrow> find m k' = Some v' \<Longrightarrow> find (put k v m) k' = Some v'"
  by (auto simp: find_put)

lemma valid_fold_put: "valid m \<Longrightarrow> valid (fold (\<lambda>(k, v). put k v) es m)"
  by (induction es arbitrary: m) (auto simp: valid_put)

lemma valid_fold_insert: "valid m \<Longrightarrow> valid (fold (\<lambda>(k, v). insert_new k v) es m)"
  by (induction es arbitrary: m) (auto simp: valid_insert)

end

interpretation std_map: finite_map map_sorted map_of "[]" map_put map_insert map_erase
  by unfold_locales (auto simp: map_sorted_put map_sorted_insert map_sorted_erase map_of_insert)

end
