(* ===== verification/Config_Casts.thy ===== *)
theory Config_Casts
  imports Std_Set Std_Map
begin

text \<open>
  The \<open>LexicalCast\<close> templates of \<open>wille/config.h\<close>: how the values of configuration variables are
  read from and written to YAML text.

  \<open>yaml-cpp\<close> is not part of the repository: its operations are the fields of a record \<open>'n yaml\<close> that
  the definitions take as an argument, with the type \<open>'n\<close> of nodes left open. What the code relies on
  is the predicate \<open>yaml_laws\<close>; it states the documented behaviour of \<open>Load\<close>, \<open>operator<<\<close>,
  \<open>push_back\<close>, indexing and iteration on nodes built by the code itself. A template with the casts
  of its element type is a function with those casts as arguments. A thrown \<open>std::exception\<close> is an
  \<open>Inl\<close> value.
\<close>

datatype exn =
    YamlError string
  | BadLexicalCast
  | LogicError string
  | InvalidArgument string
  | CallbackError nat

type_synonym 'a throws = "exn + 'a"
type_synonym 'a from_str = "string \<Rightarrow> 'a throws"
type_synonym 'a to_str = "'a \<Rightarrow> string throws"

fun try_then :: "'a throws \<Rightarrow> ('a \<Rightarrow> 'b throws) \<Rightarrow> 'b throws" where
  "try_then (Inl e) f = Inl e"
| "try_then (Inr x) f = f x"

lemma try_then_eq_Inr [simp]: "try_then m f = Inr y \<longleftrightarrow> (\<exists>x. m = Inr x \<and> f x = Inr y)"
  by (cases m) auto

subsection \<open>The interface to yaml-cpp\<close>

record 'n yaml =
  y_Load :: "string \<Rightarrow> 'n throws"
  y_dump :: "'n \<Rightarrow> string" \<comment> \<open>\<open>operator<<\<close>\<close>
  y_node :: 'n \<comment> \<open>\<open>YAML::Node()\<close>\<close>
  y_map_node :: 'n \<comment> \<open>\<open>YAML::Node(NodeType::Map)\<close>\<close>
  y_scalar_node :: "string \<Rightarrow> 'n"
  y_IsDefined :: "'n \<Rightarrow> bool"
  y_IsMap :: "'n \<Rightarrow> bool"
  y_IsScalar :: "'n \<Rightarrow> bool"
  y_size :: "'n \<Rightarrow> nat"
  y_at :: "'n \<Rightarrow> nat \<Rightarrow> 'n" \<comment> \<open>\<open>node[i]\<close>\<close>
  y_entries :: "'n \<Rightarrow> ('n \<times> 'n) list" \<comment> \<open>\<open>begin()\<close> to \<open>end()\<close>\<close>
  y_Scalar :: "'n \<Rightarrow> string"
  y_get :: "'n \<Rightarrow> string \<Rightarrow> 'n throws" \<comment> \<open>\<open>node[key]\<close>, read\<close>
  y_as_string :: "'n \<Rightarrow> string throws"
  y_push_back :: "'n \<Rightarrow> 'n \<Rightarrow> 'n"
  y_put :: "'n \<Rightarrow> string \<Rightarrow> 'n \<Rightarrow> 'n" \<comment> \<open>\<open>node[key] = value\<close>\<close>

text \<open>A sequence and a map as the code builds them.\<close>

definition seq_node :: "'n yaml \<Rightarrow> 'n list \<Rightarrow> 'n" where
  "seq_node Y ns = foldl (y_push_back Y) (y_node Y) ns"

definition put_all :: "'n yaml \<Rightarrow> 'n \<Rightarrow> (string \<times> 'n) list \<Rightarrow> 'n" where
  "put_all Y n kvs = foldl (\<lambda>m (k, v). y_put Y m k v) n kvs"

definition yaml_laws :: "'n yaml \<Rightarrow> bool" where
  "yaml_laws Y \<longleftrightarrow>
     (\<forall>n. y_IsDefined Y n \<longrightarrow> y_Load Y (y_dump Y n) = Inr n) \<and>
     (\<forall>s. y_IsDefined Y (y_scalar_node Y s) \<and> y_IsScalar Y (y_scalar_node Y s) \<and>
          \<not> y_IsMap Y (y_scalar_node Y s) \<and>
          y_as_string Y (y_scalar_node Y s) = Inr s \<and> y_Scalar Y (y_scalar_node Y s) = s) \<and>
     (\<forall>n. \<not> y_IsDefined Y n \<longrightarrow> (\<exists>e. y_as_string Y n = Inl e)) \<and>
     (\<forall>ns. (\<forall>n \<in> set ns. y_IsDefined Y n) \<longrightarrow>
          y_IsDefined Y (seq_node Y ns) \<and> y_size Y (seq_node Y ns) = length ns \<and>
          (\<forall>i < length ns. y_at Y (seq_node Y ns) i = ns ! i)) \<and>
     (\<forall>kvs. distinct (map fst kvs) \<and> (\<forall>e \<in> set kvs. y_IsDefined Y (snd e)) \<longrightarrow>
          y_IsDefined Y (put_all Y (y_map_node Y) kvs) \<and> y_IsMap Y (put_all Y (y_map_node Y) kvs) \<and>
          \<not> y_IsScalar Y (put_all Y (y_map_node Y) kvs) \<and>
          y_entries Y (put_all Y (y_map_node Y) kvs) = map (\<lambda>(k, v). (y_scalar_node Y k, v)) kvs \<and>
          (kvs \<noteq> [] \<longrightarrow> put_all Y (y_node Y) kvs = put_all Y (y_map_node Y) kvs) \<and>
          (\<forall>k. \<exists>n. y_get Y (put_all Y (y_map_node Y) kvs) k = Inr n \<and>
             (case map_of kvs k of None \<Rightarrow> \<not> y_IsDefined Y n | Some v \<Rightarrow> n = v)))"

lemma yaml_load_dump: "yaml_laws Y \<Longrightarrow> y_IsDefined Y n \<Longrightarrow> y_Load Y (y_dump Y n) = Inr n"
  by (simp add: yaml_laws_def)

lemma yaml_undefined: "yaml_laws Y \<Longrightarrow> \<not> y_IsDefined Y n \<Longrightarrow> \<exists>e. y_as_string Y n = Inl e"
  by (simp add: yaml_laws_def)

lemma yaml_scalar:
  assumes "yaml_laws Y"
  shows "y_IsDefined Y (y_scalar_node Y s)" "y_IsScalar Y (y_scalar_node Y s)" "\<not> y_IsMap Y (y_scalar_node Y s)"
    "y_as_string Y (y_scalar_node Y s) = Inr s" "y_Scalar Y (y_scalar_node Y s) = s"
  using assms by (simp_all add: yaml_laws_def)

lemma yaml_seq:
  assumes "yaml_laws Y" and "\<forall>n \<in> set ns. y_IsDefined Y n"
  shows "y_IsDefined Y (seq_node Y ns)" "y_size Y (seq_node Y ns) = length ns"
    "map (y_at Y (seq_node Y ns)) [0..<length ns] = ns"
proof -
  from assms have at: "\<forall>i < length ns. y_at Y (seq_node Y ns) i = ns ! i"
    unfolding yaml_laws_def by blast
  show "y_IsDefined Y (seq_node Y ns)" "y_size Y (seq_node Y ns) = length ns"
    using assms unfolding yaml_laws_def by blast+
  have "map (y_at Y (seq_node Y ns)) [0..<length ns] = map ((!) ns) [0..<length ns]"
    using at by (intro map_cong) auto
  then show "map (y_at Y (seq_node Y ns)) [0..<length ns] = ns" by (simp add: map_nth)
qed

lemma yaml_map:
  assumes "yaml_laws Y" and "distinct (map fst kvs)" and "\<forall>e \<in> set kvs. y_IsDefined Y (snd e)"
  shows "y_IsDefined Y (put_all Y (y_map_node Y) kvs)" "y_IsMap Y (put_all Y (y_map_node Y) kvs)"
    "y_entries Y (put_all Y (y_map_node Y) kvs) = map (\<lambda>(k, v). (y_scalar_node Y k, v)) kvs"
    "kvs \<noteq> [] \<Longrightarrow> put_all Y (y_node Y) kvs = put_all Y (y_map_node Y) kvs"
    "\<exists>n. y_get Y (put_all Y (y_map_node Y) kvs) k = Inr n \<and>
       (case map_of kvs k of None \<Rightarrow> \<not> y_IsDefined Y n | Some v \<Rightarrow> n = v)"
  using assms unfolding yaml_laws_def by blast+

subsection \<open>Sequences\<close>

text \<open>The loop that reads the elements, from index \<open>i\<close> on: each is printed and cast.\<close>

fun read_elements :: "'n yaml \<Rightarrow> 'a from_str \<Rightarrow> 'n \<Rightarrow> nat list \<Rightarrow> 'a list throws" where
  "read_elements Y from node [] = Inr []"
| "read_elements Y from node (i # is) =
     try_then (from (y_dump Y (y_at Y node i))) (\<lambda>x.
     try_then (read_elements Y from node is) (\<lambda>xs. Inr (x # xs)))"

text \<open>The loop that writes the elements: each is cast, loaded and appended.\<close>

fun push_elements :: "'n yaml \<Rightarrow> 'a to_str \<Rightarrow> 'n \<Rightarrow> 'a list \<Rightarrow> 'n throws" where
  "push_elements Y to node [] = Inr node"
| "push_elements Y to node (x # xs) =
     try_then (to x) (\<lambda>s. try_then (y_Load Y s) (\<lambda>n. push_elements Y to (y_push_back Y node n) xs))"

definition vector_from :: "'n yaml \<Rightarrow> 'a from_str \<Rightarrow> 'a list from_str" where
  "vector_from Y from v =
     try_then (y_Load Y v) (\<lambda>node. read_elements Y from node [0..<y_size Y node])"

definition vector_to :: "'n yaml \<Rightarrow> 'a to_str \<Rightarrow> 'a list to_str" where
  "vector_to Y to v = try_then (push_elements Y to (y_node Y) v) (\<lambda>node. Inr (y_dump Y node))"

definition list_from :: "'n yaml \<Rightarrow> 'a from_str \<Rightarrow> 'a list from_str" where
  "list_from Y from v =
     try_then (y_Load Y v) (\<lambda>node. read_elements Y from node [0..<y_size Y node])"

definition list_to :: "'n yaml \<Rightarrow> 'a to_str \<Rightarrow> 'a list to_str" where
  "list_to Y to v = try_then (push_elements Y to (y_node Y) v) (\<lambda>node. Inr (y_dump Y node))"

text \<open>
  A \<open>std::set\<close> is the list of its elements in iteration order, with its comparator; the elements are
  inserted one by one. The iteration order of an \<open>unordered_set\<close> is not specified: it is the
  argument \<open>iter\<close>.
\<close>

definition set_from :: "('a \<Rightarrow> 'a \<Rightarrow> bool) \<Rightarrow> 'n yaml \<Rightarrow> 'a from_str \<Rightarrow> 'a list from_str" where
  "set_from lt Y from v =
     try_then (y_Load Y v) (\<lambda>node.
     try_then (read_elements Y from node [0..<y_size Y node]) (\<lambda>xs.
       Inr (fold (\<lambda>x s. fst (set_insert lt x s)) xs [])))"

definition set_to :: "'n yaml \<Rightarrow> 'a to_str \<Rightarrow> 'a list to_str" where
  "set_to Y to v = try_then (push_elements Y to (y_node Y) v) (\<lambda>node. Inr (y_dump Y node))"

definition unordered_set_from :: "'n yaml \<Rightarrow> 'a from_str \<Rightarrow> 'a set from_str" where
  "unordered_set_from Y from v =
     try_then (y_Load Y v) (\<lambda>node.
     try_then (read_elements Y from node [0..<y_size Y node]) (\<lambda>xs. Inr (fold insert xs {})))"

definition unordered_set_to :: "('a set \<Rightarrow> 'a list) \<Rightarrow> 'n yaml \<Rightarrow> 'a to_str \<Rightarrow> 'a set to_str" where
  "unordered_set_to iter Y to v =
     try_then (push_elements Y to (y_node Y) (iter v)) (\<lambda>node. Inr (y_dump Y node))"

subsection \<open>Maps\<close>

fun read_entries :: "'n yaml \<Rightarrow> 'a from_str \<Rightarrow> ('n \<times> 'n) list \<Rightarrow> (string \<times> 'a) list throws" where
  "read_entries Y from [] = Inr []"
| "read_entries Y from ((k, n) # es) =
     try_then (from (y_dump Y n)) (\<lambda>x.
     try_then (read_entries Y from es) (\<lambda>xs. Inr ((y_Scalar Y k, x) # xs)))"

fun put_entries :: "'n yaml \<Rightarrow> 'a to_str \<Rightarrow> 'n \<Rightarrow> (string \<times> 'a) list \<Rightarrow> 'n throws" where
  "put_entries Y to node [] = Inr node"
| "put_entries Y to node ((k, x) # es) =
     try_then (to x) (\<lambda>s. try_then (y_Load Y s) (\<lambda>n. put_entries Y to (y_put Y node k n) es))"

definition map_from :: "'n yaml \<Rightarrow> 'a from_str \<Rightarrow> (string \<times> 'a) list from_str" where
  "map_from Y from v =
     try_then (y_Load Y v) (\<lambda>node.
     try_then (read_entries Y from (y_entries Y node)) (\<lambda>es.
       Inr (fold (\<lambda>(k, x). map_insert k x) es [])))"

definition map_to :: "'n yaml \<Rightarrow> 'a to_str \<Rightarrow> (string \<times> 'a) list to_str" where
  "map_to Y to v = try_then (put_entries Y to (y_map_node Y) v) (\<lambda>node. Inr (y_dump Y node))"

definition unordered_map_from :: "'n yaml \<Rightarrow> 'a from_str \<Rightarrow> (string \<rightharpoonup> 'a) from_str" where
  "unordered_map_from Y from v =
     try_then (y_Load Y v) (\<lambda>node.
     try_then (read_entries Y from (y_entries Y node)) (\<lambda>es.
       Inr (fold (\<lambda>(k, x) m. if m k = None then m(k \<mapsto> x) else m) es Map.empty)))"

definition unordered_map_to ::
  "((string \<rightharpoonup> 'a) \<Rightarrow> (string \<times> 'a) list) \<Rightarrow> 'n yaml \<Rightarrow> 'a to_str \<Rightarrow> (string \<rightharpoonup> 'a) to_str" where
  "unordered_map_to iter Y to v =
     try_then (put_entries Y to (y_map_node Y) (iter v)) (\<lambda>node. Inr (y_dump Y node))"

end
