(* ===== verification/Config_Vars.thy ===== *)
theory Config_Vars
  imports Config_Casts
begin

text \<open>
  \<open>ConfigVar\<close> and \<open>Config\<close> of \<open>wille/config.h\<close> and \<open>wille/config.cpp\<close>: variables with listeners, the
  registry of all variables and the loading of a YAML document into them.

  The registry holds variables of different types behind their base class: the values of all types
  are in one type \<open>'u\<close>, and the template argument \<open>T\<close> of a variable is a record with the name of the
  type and its two casts; \<open>dynamic_pointer_cast\<close> compares the names. A listener is a function of the
  old and the new value on the state \<open>'w\<close> outside the registry, and may throw. The reader/writer locks
  are left out here: each operation is one step. \<open>Config_Var_Threads\<close> takes \<open>setValue\<close> apart at its locks,
  \<open>Config_Registry\<close> takes \<open>Lookup\<close> apart.
\<close>

type_synonym ('u, 'w) on_change_cb = "'u \<Rightarrow> 'u \<Rightarrow> 'w \<Rightarrow> 'w \<times> exn option"

record 'u cpp_type =
  t_name :: string \<comment> \<open>\<open>typeid(T).name()\<close>\<close>
  t_FromStr :: "'u from_str"
  t_ToStr :: "'u to_str"

record ('u, 'w) config_var =
  v_name :: string
  v_description :: string
  v_type :: "'u cpp_type"
  v_val :: 'u
  v_cbs :: "(u64 \<times> ('u, 'w) on_change_cb) list"

subsection \<open>Variables\<close>

definition new_ConfigVar :: "'u cpp_type \<Rightarrow> string \<Rightarrow> 'u \<Rightarrow> string \<Rightarrow> ('u, 'w) config_var" where
  "new_ConfigVar T name default_value description =
     \<lparr>v_name = name, v_description = description, v_type = T, v_val = default_value, v_cbs = []\<rparr>"

definition var_toString :: "('u, 'w) config_var \<Rightarrow> string" where
  "var_toString var = (case t_ToStr (v_type var) (v_val var) of Inl e \<Rightarrow> [] | Inr s \<Rightarrow> s)"

text \<open>The loop over the listeners: an exception leaves it.\<close>

fun run_listeners ::
  "(u64 \<times> ('u, 'w) on_change_cb) list \<Rightarrow> 'u \<Rightarrow> 'u \<Rightarrow> 'w \<Rightarrow> 'w \<times> exn option" where
  "run_listeners [] old_value new_value w = (w, None)"
| "run_listeners ((i, cb) # cbs) old_value new_value w =
     (case cb old_value new_value w of
        (w', Some e) \<Rightarrow> (w', Some e)
      | (w', None) \<Rightarrow> run_listeners cbs old_value new_value w')"

definition setValue ::
  "('u, 'w) config_var \<Rightarrow> 'u \<Rightarrow> 'w \<Rightarrow> ('u, 'w) config_var \<times> 'w \<times> exn option" where
  "setValue var v w =
     (if v = v_val var then (var, w, None)
      else case run_listeners (v_cbs var) (v_val var) v w of
             (w', Some e) \<Rightarrow> (var, w', Some e)
           | (w', None) \<Rightarrow> (var\<lparr>v_val := v\<rparr>, w', None))"

definition fromString ::
  "('u, 'w) config_var \<Rightarrow> string \<Rightarrow> 'w \<Rightarrow> ('u, 'w) config_var \<times> 'w \<times> bool" where
  "fromString var val w =
     (case t_FromStr (v_type var) val of
        Inl e \<Rightarrow> (var, w, False)
      | Inr x \<Rightarrow>
          (case setValue var x w of
             (var', w', Some e) \<Rightarrow> (var', w', False)
           | (var', w', None) \<Rightarrow> (var', w', True)))"

text \<open>\<open>s_fun_id\<close> is static: one counter for all variables of a type.\<close>

definition addListener ::
  "('u, 'w) config_var \<Rightarrow> u64 \<Rightarrow> ('u, 'w) on_change_cb \<Rightarrow> u64 \<times> ('u, 'w) config_var \<times> u64" where
  "addListener var s_fun_id cb =
     (let s_fun_id = s_fun_id + 1
      in (s_fun_id, var\<lparr>v_cbs := map_put s_fun_id cb (v_cbs var)\<rparr>, s_fun_id))"

definition delListener :: "('u, 'w) config_var \<Rightarrow> u64 \<Rightarrow> ('u, 'w) config_var" where
  "delListener var key = var\<lparr>v_cbs := map_erase key (v_cbs var)\<rparr>"

definition getListener :: "('u, 'w) config_var \<Rightarrow> u64 \<Rightarrow> ('u, 'w) on_change_cb option" where
  "getListener var key = map_of (v_cbs var) key"

definition clearListener :: "('u, 'w) config_var \<Rightarrow> ('u, 'w) config_var" where
  "clearListener var = var\<lparr>v_cbs := []\<rparr>"

subsection \<open>The registry\<close>

record ('u, 'w) registry =
  r_vars :: "ptr \<rightharpoonup> ('u, 'w) config_var"
  r_data :: "(string \<times> ptr) list"
  r_fun_id :: "string \<Rightarrow> u64" \<comment> \<open>\<open>s_fun_id\<close> of each type\<close>
  r_next :: ptr

definition empty_registry :: "('u, 'w) registry" where
  "empty_registry = \<lparr>r_vars = Map.empty, r_data = [], r_fun_id = (\<lambda>_. 0), r_next = 0\<rparr>"

text \<open>\<open>s.find_first_not_of(chars) != npos\<close>\<close>

definition has_other :: "string \<Rightarrow> string \<Rightarrow> bool" where
  "has_other chars s \<longleftrightarrow> list_ex (\<lambda>c. c \<notin> set chars) s"

definition name_chars :: string where
  "name_chars = ''abcdefghikjlmnopqrstuvwxyzABCDEFGHIJKLMNOPQRSTUVWXYZ._0123456789''"

definition member_chars :: string where
  "member_chars = ''abcdefghijklmnopqrstuvwxyz._0123456789''"

definition LookupBase :: "('u, 'w) registry \<Rightarrow> string \<Rightarrow> ptr option" where
  "LookupBase r name = map_of (r_data r) name"

definition Lookup_typed :: "'u cpp_type \<Rightarrow> ('u, 'w) registry \<Rightarrow> string \<Rightarrow> ptr option" where
  "Lookup_typed T r name =
     (case map_of (r_data r) name of
        None \<Rightarrow> None
      | Some p \<Rightarrow>
          (case r_vars r p of
             None \<Rightarrow> None
           | Some var \<Rightarrow> if t_name (v_type var) = t_name T then Some p else None))"

definition register_var ::
  "'u cpp_type \<Rightarrow> ('u, 'w) registry \<Rightarrow> string \<Rightarrow> 'u \<Rightarrow> string \<Rightarrow> ptr \<times> ('u, 'w) registry" where
  "register_var T r name default_value description =
     (r_next r,
      r\<lparr>r_vars := (r_vars r)(r_next r \<mapsto> new_ConfigVar T name default_value description),
        r_data := map_put name (r_next r) (r_data r),
        r_next := r_next r + 1\<rparr>)"

definition Lookup ::
  "'u cpp_type \<Rightarrow> ('u, 'w) registry \<Rightarrow> string \<Rightarrow> 'u \<Rightarrow> string \<Rightarrow> (ptr option \<times> ('u, 'w) registry) throws"
where
  "Lookup T r name default_value description =
     (if map_of (r_data r) name \<noteq> None
      then case Lookup_typed T r name of
             Some tmp \<Rightarrow> Inr (Some tmp, r)
           | None \<Rightarrow> Inr (None, r)
      else if has_other name_chars name then Inl (InvalidArgument name)
      else (let (v, r') = register_var T r name default_value description in Inr (Some v, r')))"

text \<open>\<open>Visit\<close> runs over a copy of the table, whatever the callback does to the registry.\<close>

definition Visit ::
  "(ptr \<Rightarrow> ('u, 'w) registry \<times> 's \<Rightarrow> ('u, 'w) registry \<times> 's) \<Rightarrow> ('u, 'w) registry \<times> 's \<Rightarrow>
     ('u, 'w) registry \<times> 's" where
  "Visit cb rs = fold (\<lambda>(name, p). cb p) (r_data (fst rs)) rs"

subsection \<open>Loading\<close>

text \<open>The recursion over the document takes a bound on its depth and is \<open>None\<close> when it is too small.\<close>

fun ListAllMember :: "'n yaml \<Rightarrow> nat \<Rightarrow> string \<Rightarrow> 'n \<Rightarrow> (string \<times> 'n) list \<Rightarrow> (string \<times> 'n) list option"
  and list_members ::
    "'n yaml \<Rightarrow> nat \<Rightarrow> string \<Rightarrow> ('n \<times> 'n) list \<Rightarrow> (string \<times> 'n) list \<Rightarrow> (string \<times> 'n) list option" where
  "ListAllMember Y 0 prefix node output = None"
| "ListAllMember Y (Suc k) prefix node output =
     (if has_other member_chars prefix then Some output
      else if y_IsMap Y node then list_members Y k prefix (y_entries Y node) (output @ [(prefix, node)])
      else Some (output @ [(prefix, node)]))"
| "list_members Y k prefix [] output = Some output"
| "list_members Y k prefix ((key, n) # es) output =
     (case ListAllMember Y k
             (if prefix = [] then y_Scalar Y key else prefix @ ''.'' @ y_Scalar Y key) n output of
        None \<Rightarrow> None
      | Some output' \<Rightarrow> list_members Y k prefix es output')"

definition tolower :: "char \<Rightarrow> char" where
  "tolower c = (if 65 \<le> (of_char c :: nat) \<and> (of_char c :: nat) \<le> 90 then char_of (of_char c + 32 :: nat) else c)"

definition load_var :: "ptr \<Rightarrow> string \<Rightarrow> ('u, 'w) registry \<times> 'w \<Rightarrow> ('u, 'w) registry \<times> 'w" where
  "load_var p val rw =
     (case rw of (r, w) \<Rightarrow>
        case r_vars r p of
          None \<Rightarrow> (r, w)
        | Some var \<Rightarrow>
            (case fromString var val w of
               (var', w', ok) \<Rightarrow> (r\<lparr>r_vars := (r_vars r)(p \<mapsto> var')\<rparr>, w')))"

definition load_member ::
  "'n yaml \<Rightarrow> string \<times> 'n \<Rightarrow> ('u, 'w) registry \<times> 'w \<Rightarrow> ('u, 'w) registry \<times> 'w" where
  "load_member Y i rw =
     (let key = fst i
      in if key = [] then rw
         else case LookupBase (fst rw) (map tolower key) of
                None \<Rightarrow> rw
              | Some var \<Rightarrow>
                  if y_IsScalar Y (snd i) then load_var var (y_Scalar Y (snd i)) rw
                  else load_var var (y_dump Y (snd i)) rw)"

definition LoadFromYaml ::
  "'n yaml \<Rightarrow> nat \<Rightarrow> 'n \<Rightarrow> ('u, 'w) registry \<times> 'w \<Rightarrow> (('u, 'w) registry \<times> 'w) option" where
  "LoadFromYaml Y k root rw =
     (case ListAllMember Y k [] root [] of
        None \<Rightarrow> None
      | Some all_nodes \<Rightarrow> Some (fold (load_member Y) all_nodes rw))"

end
