(* ===== verification/Yaml_Tree.thy ===== *)
theory Yaml_Tree
  imports Config_Casts
begin

text \<open>
  A concrete instance of the interface to \<open>yaml-cpp\<close>, on which the properties that assume
  \<open>yaml_laws\<close> are applied: nodes are trees, printed in a flow style like \<open>{a:b,c:[d,e,],}\<close> with
  quotes around the scalars that need them, and read back by a recursive-descent parser. It stands
  for no code of the repository.
\<close>

datatype ynode = YUndef | YNull | YScalar string | YSeq "ynode list" | YMap "(string \<times> ynode) list"

definition plain :: "char \<Rightarrow> bool" where
  "plain c \<longleftrightarrow> c \<notin> set ''?~[]{},:'' \<and> c \<noteq> CHR 0x22 \<and> c \<noteq> CHR 0x5C"

definition show_scalar :: "string \<Rightarrow> string" where
  "show_scalar s =
     (if s \<noteq> [] \<and> list_all plain s then s
      else CHR 0x22 # concat (map (\<lambda>c. [CHR 0x5C, c]) s) @ [CHR 0x22])"

fun unquote :: "string \<Rightarrow> (string \<times> string) option" where
  "unquote (a # r) =
     (if a = CHR 0x22 then Some ([], r)
      else case r of [] \<Rightarrow> None
           | c # r' \<Rightarrow> (case unquote r' of None \<Rightarrow> None | Some (s, q) \<Rightarrow> Some (c # s, q)))"
| "unquote [] = None"

definition read_scalar :: "string \<Rightarrow> (string \<times> string) option" where
  "read_scalar s =
     (case s of
        [] \<Rightarrow> None
      | c # r \<Rightarrow> if plain c then Some (takeWhile plain s, dropWhile plain s)
                else if c = CHR 0x22 then unquote r else None)"

definition ends :: "string \<Rightarrow> bool" where
  "ends r \<longleftrightarrow> r = [] \<or> \<not> plain (hd r)"

lemma unquote_quoted: "unquote (concat (map (\<lambda>c. [CHR 0x5C, c]) s) @ CHR 0x22 # r) = Some (s, r)"
  by (induction s) simp_all

lemma read_show_scalar: "ends r \<Longrightarrow> read_scalar (show_scalar s @ r) = Some (s, r)"
proof (cases "s \<noteq> [] \<and> list_all plain s")
  case True
  assume "ends r"
  then have "takeWhile plain r = []" "dropWhile plain r = r"
    by (cases r; simp add: ends_def)+
  moreover have "\<forall>c \<in> set s. plain c" using True by (simp add: list_all_iff)
  ultimately have "takeWhile plain (s @ r) = s" "dropWhile plain (s @ r) = r"
    by (simp_all add: takeWhile_append2 dropWhile_append2)
  with True show ?thesis
    by (cases s) (simp_all add: show_scalar_def read_scalar_def)
next
  case False
  then have "show_scalar s = CHR 0x22 # concat (map (\<lambda>c. [CHR 0x5C, c]) s) @ [CHR 0x22]"
    unfolding show_scalar_def by (rule if_not_P)
  then show ?thesis
    by (simp add: read_scalar_def plain_def unquote_quoted)
qed

fun show_node :: "ynode \<Rightarrow> string" and show_seq :: "ynode list \<Rightarrow> string"
  and show_map :: "(string \<times> ynode) list \<Rightarrow> string" where
  "show_node YUndef = ''?''"
| "show_node YNull = ''~''"
| "show_node (YScalar s) = show_scalar s"
| "show_node (YSeq ns) = CHR ''['' # show_seq ns @ '']''"
| "show_node (YMap es) = CHR ''{'' # show_map es @ ''}''"
| "show_seq [] = []"
| "show_seq (n # ns) = show_node n @ '','' @ show_seq ns"
| "show_map [] = []"
| "show_map ((k, n) # es) = show_scalar k @ '':'' @ show_node n @ '','' @ show_map es"

fun read_node :: "nat \<Rightarrow> string \<Rightarrow> (ynode \<times> string) option"
  and read_seq :: "nat \<Rightarrow> string \<Rightarrow> (ynode list \<times> string) option"
  and read_map :: "nat \<Rightarrow> string \<Rightarrow> ((string \<times> ynode) list \<times> string) option" where
  "read_node 0 s = None"
| "read_node (Suc k) s =
     (case s of
        [] \<Rightarrow> None
      | c # r \<Rightarrow>
          if c = CHR ''?'' then Some (YUndef, r)
          else if c = CHR ''~'' then Some (YNull, r)
          else if c = CHR ''['' then map_option (\<lambda>(ns, q). (YSeq ns, q)) (read_seq k r)
          else if c = CHR ''{'' then map_option (\<lambda>(es, q). (YMap es, q)) (read_map k r)
          else map_option (\<lambda>(v, q). (YScalar v, q)) (read_scalar s))"
| "read_seq 0 s = None"
| "read_seq (Suc k) s =
     (case s of
        [] \<Rightarrow> None
      | c # r \<Rightarrow>
          if c = CHR '']'' then Some ([], r)
          else Option.bind (read_node k s) (\<lambda>(n, q).
               if q = [] then None
               else map_option (\<lambda>(ns, q'). (n # ns, q')) (read_seq k (tl q))))"
| "read_map 0 s = None"
| "read_map (Suc k) s =
     (case s of
        [] \<Rightarrow> None
      | c # r \<Rightarrow>
          if c = CHR ''}'' then Some ([], r)
          else Option.bind (read_scalar s) (\<lambda>(key, q).
               if q = [] then None
               else Option.bind (read_node k (tl q)) (\<lambda>(n, q').
                    if q' = [] then None
                    else map_option (\<lambda>(es, q''). ((key, n) # es, q'')) (read_map k (tl q')))))"

lemma show_scalar_Cons: "\<exists>c r. show_scalar s = c # r \<and> c \<notin> set ''?~[]{}''"
  by (cases s) (auto simp: show_scalar_def plain_def)

lemma show_node_Cons: "\<exists>c r. show_node n = c # r \<and> c \<notin> set '']}''"
  using show_scalar_Cons by (cases n) fastforce+

lemma ends_simps [simp]: "ends ('','' @ r)" "ends (CHR '','' # r)" "ends (CHR '':'' # r)" "ends []"
  "ends (CHR '']'' # r)" "ends (CHR ''}'' # r)"
  by (simp_all add: ends_def plain_def)

lemma read_show:
  "2 * length (show_node n) \<le> k \<Longrightarrow> ends r \<Longrightarrow> read_node k (show_node n @ r) = Some (n, r)"
  "2 * length (show_seq ns) + 1 \<le> k \<Longrightarrow> read_seq k (show_seq ns @ CHR '']'' # r) = Some (ns, r)"
  "2 * length (show_map es) + 1 \<le> k \<Longrightarrow> read_map k (show_map es @ CHR ''}'' # r) = Some (es, r)"
proof (induction n and ns and es arbitrary: k r and k r and k r rule: show_node_show_seq_show_map.induct)
  case 1
  then show ?case by (cases k) simp_all
next
  case 2
  then show ?case by (cases k) simp_all
next
  case (3 s)
  obtain c q where c: "show_scalar s = c # q" "c \<notin> set ''?~[]{}''" using show_scalar_Cons by blast
  with 3(1) obtain k' where "k = Suc k'" by (cases k) simp_all
  moreover have "read_scalar (c # q @ r) = Some (s, r)"
    using read_show_scalar [OF 3(2), of s] c(1) by simp
  ultimately show ?case using c by simp
next
  case (4 ns)
  then obtain k' where k: "k = Suc k'" "2 * length (show_seq ns) + 1 \<le> k'" by (cases k) simp_all
  from 4(1) [OF k(2), of r] show ?case by (simp add: k(1))
next
  case (5 es)
  then obtain k' where k: "k = Suc k'" "2 * length (show_map es) + 1 \<le> k'" by (cases k) simp_all
  from 5(1) [OF k(2), of r] show ?case by (simp add: k(1))
next
  case 6
  then show ?case by (cases k) simp_all
next
  case (7 n ns)
  then obtain k' where k: "k = Suc k'" "2 * length (show_node n) \<le> k'" "2 * length (show_seq ns) + 1 \<le> k'"
    by (cases k) simp_all
  obtain c q where c: "show_node n = c # q" "c \<notin> set '']}''" using show_node_Cons by blast
  have "read_node k' (c # q @ CHR '','' # show_seq ns @ CHR '']'' # r) =
      Some (n, CHR '','' # show_seq ns @ CHR '']'' # r)"
    using 7(1) [OF k(2), of "CHR '','' # show_seq ns @ CHR '']'' # r"] c(1) by simp
  with 7(2) [OF k(3), of r] c show ?case by (simp add: k(1))
next
  case 8
  then show ?case by (cases k) simp_all
next
  case (9 key n es)
  then obtain k' where k: "k = Suc k'" "2 * length (show_node n) \<le> k'" "2 * length (show_map es) + 1 \<le> k'"
    by (cases k) simp_all
  obtain c q where c: "show_scalar key = c # q" "c \<notin> set ''?~[]{}''" using show_scalar_Cons by blast
  let ?rest = "show_node n @ CHR '','' # show_map es @ CHR ''}'' # r"
  have "read_scalar (c # q @ CHR '':'' # ?rest) = Some (key, CHR '':'' # ?rest)"
    using read_show_scalar [of "CHR '':'' # ?rest" key] c(1) by simp
  moreover have "read_node k' ?rest = Some (n, CHR '','' # show_map es @ CHR ''}'' # r)"
    by (rule 9(1) [OF k(2)]) simp
  ultimately show ?case using 9(2) [OF k(3), of r] c by (simp add: k(1))
qed

fun tree_put :: "ynode \<Rightarrow> string \<Rightarrow> ynode \<Rightarrow> ynode" where
  "tree_put (YMap es) k v =
     YMap (if k \<in> fst ` set es then map (\<lambda>e. if fst e = k then (k, v) else e) es else es @ [(k, v)])"
| "tree_put n k v = YMap [(k, v)]"

fun tree_push :: "ynode \<Rightarrow> ynode \<Rightarrow> ynode" where
  "tree_push (YSeq ns) n = YSeq (ns @ [n])"
| "tree_push m n = YSeq [n]"

definition yaml_tree :: "ynode yaml" where
  "yaml_tree = \<lparr>
     y_Load = (\<lambda>s. case read_node (2 * length s) s of
                    Some (n, []) \<Rightarrow> Inr n | _ \<Rightarrow> Inl (YamlError ''syntax'')),
     y_dump = show_node,
     y_node = YNull,
     y_map_node = YMap [],
     y_scalar_node = YScalar,
     y_IsDefined = (\<lambda>n. n \<noteq> YUndef),
     y_IsMap = (\<lambda>n. case n of YMap _ \<Rightarrow> True | _ \<Rightarrow> False),
     y_IsScalar = (\<lambda>n. case n of YScalar _ \<Rightarrow> True | _ \<Rightarrow> False),
     y_size = (\<lambda>n. case n of YSeq ns \<Rightarrow> length ns | YMap es \<Rightarrow> length es | _ \<Rightarrow> 0),
     y_at = (\<lambda>n i. case n of YSeq ns \<Rightarrow> if i < length ns then ns ! i else YUndef | _ \<Rightarrow> YUndef),
     y_entries = (\<lambda>n. case n of YMap es \<Rightarrow> map (\<lambda>(k, v). (YScalar k, v)) es | _ \<Rightarrow> []),
     y_Scalar = (\<lambda>n. case n of YScalar s \<Rightarrow> s | _ \<Rightarrow> []),
     y_get = (\<lambda>n k. case n of YScalar _ \<Rightarrow> Inl (YamlError ''subscript'')
                     | YMap es \<Rightarrow> Inr (case map_of es k of Some v \<Rightarrow> v | None \<Rightarrow> YUndef)
                     | _ \<Rightarrow> Inr YUndef),
     y_as_string = (\<lambda>n. case n of YScalar s \<Rightarrow> Inr s | _ \<Rightarrow> Inl (YamlError ''conversion'')),
     y_push_back = tree_push,
     y_put = tree_put\<rparr>"

lemma tree_seq: "seq_node yaml_tree ns = (if ns = [] then YNull else YSeq ns)"
proof (induction ns rule: rev_induct)
  case (snoc n ns)
  then show ?case by (cases ns) (simp_all add: seq_node_def yaml_tree_def)
qed (simp add: seq_node_def yaml_tree_def)

lemma tree_put_all: "distinct (map fst kvs) \<Longrightarrow> put_all yaml_tree (YMap []) kvs = YMap kvs"
proof (induction kvs rule: rev_induct)
  case (snoc e kvs)
  then have IH: "put_all yaml_tree (YMap []) kvs = YMap kvs" by simp
  obtain k v where e: "e = (k, v)" by fastforce
  have "k \<notin> fst ` set kvs" using snoc.prems e by auto
  moreover have "put_all yaml_tree (YMap []) (kvs @ [e]) =
      y_put yaml_tree (put_all yaml_tree (YMap []) kvs) k v"
    by (simp add: put_all_def e)
  moreover have "y_put yaml_tree = tree_put" by (simp add: yaml_tree_def)
  ultimately show ?case by (simp only: IH tree_put.simps if_False e)
qed (simp add: put_all_def)

lemma tree_put_all_node: "kvs \<noteq> [] \<Longrightarrow> put_all yaml_tree YNull kvs = put_all yaml_tree (YMap []) kvs"
  by (cases kvs) (auto simp: put_all_def yaml_tree_def)

lemma yaml_tree_sel:
  "y_node yaml_tree = YNull" "y_map_node yaml_tree = YMap []" "y_scalar_node yaml_tree = YScalar"
  by (simp_all add: yaml_tree_def)

theorem yaml_tree_laws: "yaml_laws yaml_tree"
proof -
  have "y_Load yaml_tree (y_dump yaml_tree n) = Inr n" for n
    using read_show(1) [of n "2 * length (show_node n)" "[]"] by (simp add: yaml_tree_def)
  moreover have "\<exists>n. y_get yaml_tree (YMap kvs) k = Inr n \<and>
      (case map_of kvs k of None \<Rightarrow> \<not> y_IsDefined yaml_tree n | Some v \<Rightarrow> n = v)" for kvs k
    by (auto simp: yaml_tree_def split: option.splits)
  ultimately show ?thesis
    unfolding yaml_laws_def
    by (auto simp: tree_seq tree_put_all tree_put_all_node yaml_tree_sel) (auto simp: yaml_tree_def)
qed

end
