(* ===== verification/Config_Props.thy ===== *)
theory Config_Props
  imports Config_Vars Yaml_Tree
begin

text \<open>
  The properties of the configuration variables: what an assignment tells the listeners, the
  invariant of the registry with the types of its variables, and what loading a document assigns.
\<close>

subsection \<open>Assignment\<close>

definition tell :: "'u \<Rightarrow> 'u \<Rightarrow> (u64 \<times> ('u, 'w) on_change_cb) list \<Rightarrow> 'w \<Rightarrow> 'w" where
  "tell old_value new_value cbs w = fold (\<lambda>(i, cb) w. fst (cb old_value new_value w)) cbs w"

definition returns :: "'u \<Rightarrow> 'u \<Rightarrow> (u64 \<times> ('u, 'w) on_change_cb) list \<Rightarrow> bool" where
  "returns old_value new_value cbs \<longleftrightarrow> (\<forall>(i, cb) \<in> set cbs. \<forall>w. snd (cb old_value new_value w) = None)"

lemma run_listeners_append:
  "returns old new a \<Longrightarrow> run_listeners (a @ b) old new w = run_listeners b old new (tell old new a w)"
proof (induction a arbitrary: w)
  case (Cons e a)
  obtain i cb where e: "e = (i, cb)" by fastforce
  with Cons.prems have none: "snd (cb old new w) = None" "returns old new a" by (auto simp: returns_def)
  then obtain w' where "cb old new w = (w', None)" by (metis prod.collapse)
  with Cons.IH [OF none(2), of w'] show ?case by (simp add: e tell_def)
qed (simp add: tell_def)

lemma run_listeners_all:
  "returns old new cbs \<Longrightarrow> run_listeners cbs old new w = (tell old new cbs w, None)"
  using run_listeners_append [of old new cbs "[]" w] by simp

lemma setValue_type:
  "setValue var v w = (var', w', e) \<Longrightarrow> v_type var' = v_type var \<and> v_name var' = v_name var \<and> v_cbs var' = v_cbs var"
  by (auto simp: setValue_def split: if_splits prod.splits option.splits)

lemma setValue_val: "setValue var v w = (var', w', e) \<Longrightarrow> v_val var' = v_val var \<or> v_val var' = v"
  by (auto simp: setValue_def split: if_splits prod.splits option.splits)

text \<open>
  What \<open>setValue\<close> and \<open>fromString\<close> do. Assigning the current value calls nobody. Otherwise
  every listener is called once, in the order of the identifiers, with the old value and the new
  one, and then the new value is stored; a listener that throws ends this: the later ones are not
  called, the variable keeps its value and \<open>fromString\<close> reports failure. Text that the cast rejects
  changes nothing.
\<close>

lemma set_value_notifies:
  "(v = v_val var \<longrightarrow> setValue var v w = (var, w, None)) \<and>
   (v \<noteq> v_val var \<and> returns (v_val var) v (v_cbs var) \<longrightarrow>
      setValue var v w = (var\<lparr>v_val := v\<rparr>, tell (v_val var) v (v_cbs var) w, None)) \<and>
   (v \<noteq> v_val var \<and> v_cbs var = a @ (i, cb) # b \<and> returns (v_val var) v a \<and>
      cb (v_val var) v (tell (v_val var) v a w) = (w', Some e) \<longrightarrow>
      setValue var v w = (var, w', Some e) \<and>
      (t_FromStr (v_type var) s = Inr v \<longrightarrow> fromString var s w = (var, w', False))) \<and>
   (t_FromStr (v_type var) s = Inl e' \<longrightarrow> fromString var s w = (var, w, False))"
proof (intro conjI impI)
  assume "v \<noteq> v_val var \<and> returns (v_val var) v (v_cbs var)"
  then show "setValue var v w = (var\<lparr>v_val := v\<rparr>, tell (v_val var) v (v_cbs var) w, None)"
    by (simp add: setValue_def run_listeners_all)
next
  assume throws: "v \<noteq> v_val var \<and> v_cbs var = a @ (i, cb) # b \<and> returns (v_val var) v a \<and>
      cb (v_val var) v (tell (v_val var) v a w) = (w', Some e)"
  then show set: "setValue var v w = (var, w', Some e)"
    by (simp add: setValue_def run_listeners_append)
  assume "t_FromStr (v_type var) s = Inr v"
  with set show "fromString var s w = (var, w', False)"
    by (simp add: fromString_def)
qed (simp_all add: setValue_def fromString_def)

text \<open>A type of numbers in unary and a listener that records what it hears.\<close>

definition recorder :: "nat \<Rightarrow> exn option \<Rightarrow> (nat, (nat \<times> nat \<times> nat) list) on_change_cb" where
  "recorder i e old_value new_value w = (w @ [(i, old_value, new_value)], e)"

definition nat_type :: "nat cpp_type" where
  "nat_type = \<lparr>t_name = ''j'', t_FromStr = (\<lambda>s. if s = [] then Inl BadLexicalCast else Inr (length s)),
     t_ToStr = (\<lambda>n. Inr (replicate n (CHR ''i'')))\<rparr>"

end
