(* ===== verification/Config_Var_Threads.thy ===== *)
theory Config_Var_Threads
  imports Config_Props
begin

text \<open>
  \<open>ConfigVar::setValue\<close> (\<open>config.h\<close>) from several threads at once, taken apart at its locks: the
  comparison and the calls of the listeners run under a read lock, which any number of threads hold together;
  it is released, and the new value is stored under a write lock. \<open>addListener\<close> and \<open>delListener\<close> hold the
  write lock, \<open>clearListener\<close> holds none.
\<close>

subsection \<open>State and steps\<close>

text \<open>
  Where a thread is: outside, called, under the read lock before the comparison, in the loop over the
  listeners (with those still to be called), between the two locks.
\<close>

datatype ('u, 'w) set_pc =
    Outside
  | Called 'u
  | Reading 'u
  | Notifying 'u "(u64 \<times> ('u, 'w) on_change_cb) list"
  | Unlocked 'u

text \<open>
  \<open>sv_log\<close> is not in the code: it lists the calls of listeners, with the old and the new value. \<open>sv_broken\<close>
  is undefined behaviour: the table of listeners changed under a loop over it.
\<close>

record ('u, 'w) shared_var =
  sv_var :: "('u, 'w) config_var"
  sv_world :: 'w
  sv_threads :: "('u, 'w) set_pc list"
  sv_log :: "(u64 \<times> 'u \<times> 'u) list"
  sv_broken :: bool

fun holds_read :: "('u, 'w) set_pc \<Rightarrow> bool" where
  "holds_read (Reading v) = True"
| "holds_read (Notifying v cbs) = True"
| "holds_read _ = False"

definition thread_at :: "('u, 'w) shared_var \<Rightarrow> nat \<Rightarrow> ('u, 'w) set_pc \<Rightarrow> bool" where
  "thread_at S i p \<longleftrightarrow> i < length (sv_threads S) \<and> sv_threads S ! i = p \<and> \<not> sv_broken S"

definition go :: "('u, 'w) shared_var \<Rightarrow> nat \<Rightarrow> ('u, 'w) set_pc \<Rightarrow> ('u, 'w) shared_var" where
  "go S i p = S\<lparr>sv_threads := (sv_threads S)[i := p]\<rparr>"

definition unread :: "('u, 'w) shared_var \<Rightarrow> bool" where
  "unread S \<longleftrightarrow> (\<forall>p \<in> set (sv_threads S). \<not> holds_read p)"

inductive set_step :: "('u, 'w) shared_var \<Rightarrow> ('u, 'w) shared_var \<Rightarrow> bool" where
  call: "thread_at S i Outside \<Longrightarrow> set_step S (go S i (Called v))"
| lock_read: "thread_at S i (Called v) \<Longrightarrow> set_step S (go S i (Reading v))"
| same: "thread_at S i (Reading v) \<Longrightarrow> v = v_val (sv_var S) \<Longrightarrow> set_step S (go S i Outside)"
| differs: "thread_at S i (Reading v) \<Longrightarrow> v \<noteq> v_val (sv_var S) \<Longrightarrow>
    set_step S (go S i (Notifying v (v_cbs (sv_var S))))"
| notify: "thread_at S i (Notifying v ((k, cb) # cbs)) \<Longrightarrow>
    cb (v_val (sv_var S)) v (sv_world S) = (w, None) \<Longrightarrow>
    set_step S ((go S i (Notifying v cbs))\<lparr>sv_world := w, sv_log := sv_log S @ [(k, v_val (sv_var S), v)]\<rparr>)"
| throws: "thread_at S i (Notifying v ((k, cb) # cbs)) \<Longrightarrow>
    cb (v_val (sv_var S)) v (sv_world S) = (w, Some e) \<Longrightarrow>
    set_step S ((go S i Outside)\<lparr>sv_world := w, sv_log := sv_log S @ [(k, v_val (sv_var S), v)]\<rparr>)"
| unlock: "thread_at S i (Notifying v []) \<Longrightarrow> set_step S (go S i (Unlocked v))"
| store: "thread_at S i (Unlocked v) \<Longrightarrow> unread S \<Longrightarrow>
    set_step S ((go S i Outside)\<lparr>sv_var := (sv_var S)\<lparr>v_val := v\<rparr>\<rparr>)"

inductive listener_step :: "('u, 'w) shared_var \<Rightarrow> ('u, 'w) shared_var \<Rightarrow> bool" where
  add: "unread S \<Longrightarrow> \<not> sv_broken S \<Longrightarrow>
    listener_step S (S\<lparr>sv_var := fst (snd (addListener (sv_var S) s_fun_id cb))\<rparr>)"
| del: "unread S \<Longrightarrow> \<not> sv_broken S \<Longrightarrow> listener_step S (S\<lparr>sv_var := delListener (sv_var S) key\<rparr>)"
| clear: "\<not> sv_broken S \<Longrightarrow>
    listener_step S (S\<lparr>sv_var := clearListener (sv_var S),
      sv_broken := (\<exists>v cbs. Notifying v cbs \<in> set (sv_threads S))\<rparr>)"

lemma go_sel [simp]:
  "sv_var (go S i p) = sv_var S" "sv_world (go S i p) = sv_world S" "sv_log (go S i p) = sv_log S"
  "sv_threads (go S i p) = (sv_threads S)[i := p]" "sv_broken (go S i p) = sv_broken S"
  by (simp_all add: go_def)

lemma go_same: "thread_at S i p \<Longrightarrow> go S i p = S"
proof -
  have "go S i (sv_threads S ! i) = S" by (simp add: go_def)
  then show "thread_at S i p \<Longrightarrow> go S i p = S" by (simp add: thread_at_def)
qed

lemma unread_go: "unread S \<Longrightarrow> \<not> holds_read p \<Longrightarrow> unread (go S i p)"
  unfolding unread_def using set_update_subset_insert [of "sv_threads S" i p] by auto

lemma unread_sel [simp]:
  "unread (S\<lparr>sv_world := w\<rparr>) = unread S" "unread (S\<lparr>sv_log := lg\<rparr>) = unread S"
  "unread (S\<lparr>sv_var := var\<rparr>) = unread S"
  by (simp_all add: unread_def)

subsection \<open>One thread alone\<close>

text \<open>Run to the end by one thread while the others are outside, the steps are \<open>setValue\<close>.\<close>

definition others_outside :: "('u, 'w) shared_var \<Rightarrow> nat \<Rightarrow> bool" where
  "others_outside S i \<longleftrightarrow> (\<forall>j < length (sv_threads S). j \<noteq> i \<longrightarrow> sv_threads S ! j = Outside)"

lemma solo_listeners:
  assumes "thread_at S i (Notifying v cbs)" and "run_listeners cbs (v_val (sv_var S)) v (sv_world S) = (w, e)"
  shows "\<exists>lg. set_step\<^sup>*\<^sup>* S ((go S i (if e = None then Notifying v [] else Outside))\<lparr>sv_world := w, sv_log := lg\<rparr>)"
  using assms
proof (induction cbs arbitrary: S)
  case Nil
  from Nil(2) have res: "w = sv_world S" "e = None" by simp_all
  have "(go S i (Notifying v []))\<lparr>sv_world := w, sv_log := sv_log S\<rparr> = S"
    unfolding res go_same [OF Nil(1)] by simp
  then show ?case unfolding res(2) by (intro exI [of _ "sv_log S"]) simp
next
  case (Cons kc cbs)
  obtain k cb where kc: "kc = (k, cb)" by fastforce
  obtain w1 e1 where one: "cb (v_val (sv_var S)) v (sv_world S) = (w1, e1)" by fastforce
  let ?lg = "sv_log S @ [(k, v_val (sv_var S), v)]"
  show ?case
  proof (cases e1)
    case None
    let ?S = "(go S i (Notifying v cbs))\<lparr>sv_world := w1, sv_log := ?lg\<rparr>"
    have step: "set_step S ?S"
      using set_step.notify Cons.prems(1) one None unfolding kc by fast
    have "thread_at ?S i (Notifying v cbs)" using Cons.prems(1) by (simp add: thread_at_def)
    moreover have "run_listeners cbs (v_val (sv_var ?S)) v (sv_world ?S) = (w, e)"
      using Cons.prems(2) one None by (simp add: kc)
    ultimately obtain lg where "set_step\<^sup>*\<^sup>* ?S
        ((go ?S i (if e = None then Notifying v [] else Outside))\<lparr>sv_world := w, sv_log := lg\<rparr>)"
      using Cons.IH by blast
    moreover have eq: "(go ?S i p)\<lparr>sv_world := w, sv_log := lg\<rparr> = (go S i p)\<lparr>sv_world := w, sv_log := lg\<rparr>" for p
      by (simp add: go_def)
    ultimately have "set_step\<^sup>*\<^sup>* ?S
        ((go S i (if e = None then Notifying v [] else Outside))\<lparr>sv_world := w, sv_log := lg\<rparr>)"
      unfolding eq by blast
    from converse_rtranclp_into_rtranclp [OF step this] show ?thesis by blast
  next
    case (Some x)
    have "set_step S ((go S i Outside)\<lparr>sv_world := w1, sv_log := ?lg\<rparr>)"
      using set_step.throws Cons.prems(1) one Some unfolding kc by fast
    with Cons.prems(2) one Some show ?thesis by (auto simp: kc)
  qed
qed

lemma go_go [simp]: "go (go S i p) i q = go S i q"
  by (simp add: go_def)

text \<open>The two ends of an assignment that changes the value: up to the loop, and from its end on.\<close>

lemma to_the_loop:
  assumes i: "thread_at S i (Called v)" and new: "v \<noteq> v_val (sv_var S)"
  shows "set_step\<^sup>*\<^sup>* S (go S i (Notifying v (v_cbs (sv_var S))))"
proof -
  let ?S1 = "go S i (Reading v)"
  have i1: "thread_at ?S1 i (Reading v)" using i by (simp add: thread_at_def)
  have "set_step S ?S1" by (rule set_step.lock_read [OF i])
  moreover have "set_step ?S1 (go S i (Notifying v (v_cbs (sv_var S))))"
    using set_step.differs [OF i1] new by simp
  ultimately show ?thesis by (meson rtranclp.rtrancl_into_rtrancl rtranclp.rtrancl_refl)
qed

lemma from_the_loop:
  assumes i: "thread_at S i (Notifying v [])" and alone: "others_outside S i"
  shows "set_step\<^sup>*\<^sup>* S ((go S i Outside)\<lparr>sv_var := (sv_var S)\<lparr>v_val := v\<rparr>\<rparr>)"
proof -
  let ?S1 = "go S i (Unlocked v)"
  have s1: "set_step S ?S1" by (rule set_step.unlock [OF i])
  have i1: "thread_at ?S1 i (Unlocked v)" using i by (simp add: thread_at_def)
  have "\<not> holds_read (sv_threads ?S1 ! j)" if "j < length (sv_threads ?S1)" for j
    using alone that by (cases "j = i") (simp_all add: others_outside_def)
  then have un: "unread ?S1" unfolding unread_def by (metis in_set_conv_nth)
  have s2: "set_step ?S1 ((go S i Outside)\<lparr>sv_var := (sv_var S)\<lparr>v_val := v\<rparr>\<rparr>)"
    using set_step.store [OF i1 un] by simp
  from s1 s2 show ?thesis by (meson rtranclp.rtrancl_into_rtrancl rtranclp.rtrancl_refl)
qed

lemma solo_set_value:
  assumes i: "thread_at S i (Called v)" and alone: "others_outside S i"
    and set: "setValue (sv_var S) v (sv_world S) = (var, w, e)"
  shows "\<exists>lg. set_step\<^sup>*\<^sup>* S ((go S i Outside)\<lparr>sv_var := var, sv_world := w, sv_log := lg\<rparr>)"
proof (cases "v = v_val (sv_var S)")
  case True
  let ?S1 = "go S i (Reading v)"
  have i1: "thread_at ?S1 i (Reading v)" using i by (simp add: thread_at_def)
  have s1: "set_step S ?S1" by (rule set_step.lock_read [OF i])
  have s2: "set_step ?S1 (go S i Outside)" using set_step.same [OF i1] True by simp
  from True set have "var = sv_var S" "w = sv_world S" by (simp_all add: setValue_def)
  then have "(go S i Outside)\<lparr>sv_var := var, sv_world := w, sv_log := sv_log S\<rparr> = go S i Outside"
    by (simp add: go_def)
  with s1 s2 show ?thesis by (metis rtranclp.rtrancl_into_rtrancl rtranclp.rtrancl_refl)
next
  case False
  let ?S2 = "go S i (Notifying v (v_cbs (sv_var S)))"
  have i2: "thread_at ?S2 i (Notifying v (v_cbs (sv_var S)))" using i by (simp add: thread_at_def)
  note begun = to_the_loop [OF i False]
  obtain w1 e1 where run: "run_listeners (v_cbs (sv_var S)) (v_val (sv_var S)) v (sv_world S) = (w1, e1)"
    by fastforce
  with solo_listeners [OF i2] obtain lg where
    l: "set_step\<^sup>*\<^sup>* ?S2 ((go ?S2 i (if e1 = None then Notifying v [] else Outside))\<lparr>sv_world := w1, sv_log := lg\<rparr>)"
    by auto
  show ?thesis
  proof (cases e1)
    case (Some x)
    with set run False have "var = sv_var S" "w = w1" by (simp_all add: setValue_def)
    then have eq: "(go S i Outside)\<lparr>sv_world := w1, sv_log := lg\<rparr> =
        (go S i Outside)\<lparr>sv_var := var, sv_world := w, sv_log := lg\<rparr>"
      by (simp add: go_def)
    from rtranclp_trans [OF begun l] have "set_step\<^sup>*\<^sup>* S ((go S i Outside)\<lparr>sv_world := w1, sv_log := lg\<rparr>)"
      by (simp add: Some)
    then show ?thesis unfolding eq by blast
  next
    case None
    with set run False have vw: "var = (sv_var S)\<lparr>v_val := v\<rparr>" "w = w1" by (simp_all add: setValue_def)
    obtain U where U: "U = (go S i (Notifying v []))\<lparr>sv_world := w1, sv_log := lg\<rparr>" by blast
    have "set_step\<^sup>*\<^sup>* S U" using rtranclp_trans [OF begun l] by (simp add: None U)
    moreover have "thread_at U i (Notifying v [])" "others_outside U i"
      using i alone by (simp_all add: U thread_at_def others_outside_def)
    then have "set_step\<^sup>*\<^sup>* U ((go U i Outside)\<lparr>sv_var := (sv_var U)\<lparr>v_val := v\<rparr>\<rparr>)"
      by (rule from_the_loop)
    moreover have "(go U i Outside)\<lparr>sv_var := (sv_var U)\<lparr>v_val := v\<rparr>\<rparr> =
        (go S i Outside)\<lparr>sv_var := var, sv_world := w, sv_log := lg\<rparr>"
      by (rule shared_var.equality) (simp_all add: U vw)
    ultimately have "set_step\<^sup>*\<^sup>* S ((go S i Outside)\<lparr>sv_var := var, sv_world := w, sv_log := lg\<rparr>)"
      by (simp only: rtranclp_trans)
    then show ?thesis by blast
  qed
qed

text \<open>The first half of an assignment: every listener is told, under the read lock, and the lock is let go.\<close>

lemma notified:
  assumes i: "thread_at S i Outside" and new: "v \<noteq> v_val (sv_var S)"
    and ret: "returns (v_val (sv_var S)) v (v_cbs (sv_var S))"
  shows "\<exists>lg. set_step\<^sup>*\<^sup>* S ((go S i (Unlocked v))\<lparr>
    sv_world := tell (v_val (sv_var S)) v (v_cbs (sv_var S)) (sv_world S), sv_log := lg\<rparr>)"
proof -
  let ?S1 = "go S i (Called v)" and ?S3 = "go S i (Notifying v (v_cbs (sv_var S)))"
  have i1: "thread_at ?S1 i (Called v)" and i3: "thread_at ?S3 i (Notifying v (v_cbs (sv_var S)))"
    using i by (simp_all add: thread_at_def)
  have "set_step\<^sup>*\<^sup>* ?S1 ?S3" using to_the_loop [OF i1] new by simp
  then have begun: "set_step\<^sup>*\<^sup>* S ?S3"
    by (rule converse_rtranclp_into_rtranclp [where r = set_step, OF set_step.call [OF i]])
  let ?w = "tell (v_val (sv_var S)) v (v_cbs (sv_var S)) (sv_world S)"
  have "run_listeners (v_cbs (sv_var S)) (v_val (sv_var ?S3)) v (sv_world ?S3) = (?w, None)"
    using run_listeners_all [OF ret] by simp
  from solo_listeners [OF i3 this] obtain lg
    where told: "set_step\<^sup>*\<^sup>* ?S3 ((go ?S3 i (Notifying v []))\<lparr>sv_world := ?w, sv_log := lg\<rparr>)" by auto
  let ?S4 = "(go ?S3 i (Notifying v []))\<lparr>sv_world := ?w, sv_log := lg\<rparr>"
  have "thread_at ?S4 i (Notifying v [])" using i by (simp add: thread_at_def)
  from set_step.unlock [OF this] have s5: "set_step ?S4 (go ?S4 i (Unlocked v))" .
  have eq: "go ?S4 i (Unlocked v) = (go S i (Unlocked v))\<lparr>sv_world := ?w, sv_log := lg\<rparr>"
    by (rule shared_var.equality) simp_all
  from rtranclp.rtrancl_into_rtrancl [OF rtranclp_trans [OF begun told] s5] show ?thesis
    unfolding eq by blast
qed

subsection \<open>The listeners hear of every value\<close>

definition told :: "('u, 'w) shared_var \<Rightarrow> 'u \<Rightarrow> (u64 \<times> ('u, 'w) on_change_cb) list \<Rightarrow> bool" where
  "told S v cbs \<longleftrightarrow> (\<forall>k \<in> fst ` set cbs. \<exists>old. (k, old, v) \<in> set (sv_log S))"

text \<open>What a thread at a point of \<open>setValue\<close> has told the listeners \<open>cbs\<close> of the variable.\<close>

fun so_far :: "('u, 'w) shared_var \<Rightarrow> (u64 \<times> ('u, 'w) on_change_cb) list \<Rightarrow> ('u, 'w) set_pc \<Rightarrow> bool" where
  "so_far S cbs (Notifying v rest) = (\<exists>past. cbs = past @ rest \<and> told S v past)"
| "so_far S cbs (Unlocked v) = told S v cbs"
| "so_far S cbs _ = True"

definition told_inv :: "('u, 'w) config_var \<Rightarrow> ('u, 'w) shared_var \<Rightarrow> bool" where
  "told_inv var S \<longleftrightarrow> v_cbs (sv_var S) = v_cbs var \<and>
     (v_val (sv_var S) = v_val var \<or> told S (v_val (sv_var S)) (v_cbs var)) \<and>
     (\<forall>p \<in> set (sv_threads S). so_far S (v_cbs var) p)"

lemma told_mono: "told S v cbs \<Longrightarrow> set (sv_log S) \<subseteq> set (sv_log T) \<Longrightarrow> told T v cbs"
  unfolding told_def by blast

lemma so_far_mono: "so_far S cbs p \<Longrightarrow> set (sv_log S) \<subseteq> set (sv_log T) \<Longrightarrow> so_far T cbs p"
  by (cases p) (auto intro: told_mono)

text \<open>A step keeps this when the thread that moves does, the log only grows and a new value was told.\<close>

lemma told_inv_move:
  assumes "told_inv var S" and "sv_threads T = (sv_threads S)[i := p]" and "so_far T (v_cbs var) p"
    and "set (sv_log S) \<subseteq> set (sv_log T)" and "v_cbs (sv_var T) = v_cbs (sv_var S)"
    and "v_val (sv_var T) = v_val (sv_var S) \<or> told T (v_val (sv_var T)) (v_cbs var)"
  shows "told_inv var T"
  using assms set_update_subset_insert [of "sv_threads S" i p] unfolding told_inv_def
  by (auto intro: told_mono so_far_mono)

lemma at_so_far: "told_inv var S \<Longrightarrow> thread_at S i p \<Longrightarrow> so_far S (v_cbs var) p"
  unfolding told_inv_def thread_at_def by auto

lemma told_inv_step:
  assumes "set_step S T" and inv: "told_inv var S"
  shows "told_inv var T"
  using assms(1)
proof cases
  case (notify i v k cb cbs w)
  from at_so_far [OF inv notify(2)] obtain past
    where past: "v_cbs var = past @ (k, cb) # cbs" "told S v past" by auto
  then have "v_cbs var = (past @ [(k, cb)]) @ cbs \<and> told T v (past @ [(k, cb)])"
    using notify(1) by (auto simp: told_def)
  then have "so_far T (v_cbs var) (Notifying v cbs)" by (simp only: so_far.simps) blast
  then show ?thesis by (intro told_inv_move [OF inv]) (auto simp: notify(1))
next
  case (unlock i v)
  from at_so_far [OF inv unlock(2)] have "told S v (v_cbs var)" by simp
  then show ?thesis by (intro told_inv_move [OF inv]) (auto simp: unlock(1) told_def)
next
  case (store i v)
  from at_so_far [OF inv store(2)] have "told S v (v_cbs var)" by simp
  then show ?thesis by (intro told_inv_move [OF inv]) (auto simp: store(1) told_def)
next
  case (differs i v)
  have "v_cbs (sv_var S) = v_cbs var" using inv by (simp add: told_inv_def)
  then show ?thesis by (intro told_inv_move [OF inv]) (auto simp: differs(1) told_def)
qed (rule told_inv_move [OF inv], auto)+

lemma told_inv_steps: "set_step\<^sup>*\<^sup>* S T \<Longrightarrow> told_inv var S \<Longrightarrow> told_inv var T"
  by (induction rule: rtranclp_induct) (auto intro: told_inv_step)

text \<open>
  While a thread is in the loop over the listeners nobody stores: a listener that assigns the variable it
  listens to waits for the write lock of its own thread's read lock, for ever.
\<close>

lemma no_store_in_loop:
  assumes "set_step S T" and "Notifying v cbs \<in> set (sv_threads S)"
  shows "sv_var T = sv_var S"
  using assms by cases (auto simp: unread_def)

text \<open>\<open>clearListener\<close> may change the table under that loop.\<close>

lemma clear_in_loop:
  assumes "Notifying v cbs \<in> set (sv_threads S)" and "\<not> sv_broken S"
  shows "\<exists>T. listener_step S T \<and> sv_broken T"
proof -
  from assms(1) have "(\<exists>v cbs. Notifying v cbs \<in> set (sv_threads S)) = True" by blast
  with listener_step.clear [OF assms(2)] show ?thesis
    by (metis (mono_tags, lifting) shared_var.select_convs(5) shared_var.surjective shared_var.update_convs(5))
qed

subsection \<open>The property\<close>

definition quiet :: "('u, 'w) shared_var \<Rightarrow> bool" where
  "quiet S \<longleftrightarrow> (\<forall>p \<in> set (sv_threads S). p = Outside) \<and> \<not> sv_broken S"

lemma quiet_at: "quiet S \<Longrightarrow> i < length (sv_threads S) \<Longrightarrow> thread_at S i Outside"
  by (simp add: quiet_def thread_at_def)

lemma quiet_told: "quiet S \<Longrightarrow> told_inv (sv_var S) S"
  by (auto simp: quiet_def told_inv_def)

text \<open>Two assignments of which the second stores between the two halves of the first.\<close>

lemma two_stores:
  assumes "unread S" and "thread_at S i (Unlocked a)" and "thread_at S j (Unlocked b)" and "i \<noteq> j"
  shows "set_step\<^sup>*\<^sup>* S ((go (go S j Outside) i Outside)\<lparr>sv_var := (sv_var S)\<lparr>v_val := a\<rparr>\<rparr>)"
proof -
  obtain T where T: "T = (go S j Outside)\<lparr>sv_var := (sv_var S)\<lparr>v_val := b\<rparr>\<rparr>" by blast
  have one: "set_step S T" unfolding T by (rule set_step.store [OF assms(3,1)])
  have un: "unread T" using assms(1) by (simp add: T unread_go)
  have at: "thread_at T i (Unlocked a)" using assms(2,4) by (simp add: T thread_at_def)
  from one have "set_step\<^sup>*\<^sup>* S T" by (rule r_into_rtranclp)
  from rtranclp.rtrancl_into_rtrancl [OF this set_step.store [OF at un]]
  have "set_step\<^sup>*\<^sup>* S ((go T i Outside)\<lparr>sv_var := (sv_var T)\<lparr>v_val := a\<rparr>\<rparr>)" .
  moreover have "(go T i Outside)\<lparr>sv_var := (sv_var T)\<lparr>v_val := a\<rparr>\<rparr> =
      (go (go S j Outside) i Outside)\<lparr>sv_var := (sv_var S)\<lparr>v_val := a\<rparr>\<rparr>"
    by (rule shared_var.equality) (simp_all add: T)
  ultimately show ?thesis by simp
qed

lemma two_assignments:
  assumes q: "quiet S" and ij: "i < length (sv_threads S)" "j < length (sv_threads S)" "i \<noteq> j"
    and old: "old = v_val (sv_var S)" and cbs: "cbs = v_cbs (sv_var S)"
    and a: "a \<noteq> old" "returns old a cbs" and b: "b \<noteq> old" "returns old b cbs"
  shows "\<exists>lg. set_step\<^sup>*\<^sup>* S (S\<lparr>sv_var := (sv_var S)\<lparr>v_val := a\<rparr>,
    sv_world := tell old b cbs (tell old a cbs (sv_world S)), sv_log := lg\<rparr>)"
proof -
  have i: "thread_at S i Outside" and j: "thread_at S j Outside"
    using quiet_at [OF q] ij by blast+
  from notified [OF i] a obtain lg1 where s1: "set_step\<^sup>*\<^sup>* S
      ((go S i (Unlocked a))\<lparr>sv_world := tell old a cbs (sv_world S), sv_log := lg1\<rparr>)"
    unfolding old cbs by blast
  obtain T where T: "T = (go S i (Unlocked a))\<lparr>sv_world := tell old a cbs (sv_world S), sv_log := lg1\<rparr>"
    by blast
  have at: "thread_at T j Outside" using j ij(3) by (simp add: T thread_at_def)
  have new: "b \<noteq> v_val (sv_var T)" and ret: "returns (v_val (sv_var T)) b (v_cbs (sv_var T))"
    using b by (simp_all add: T old cbs)
  from notified [OF at new ret] obtain lg2 where s2: "set_step\<^sup>*\<^sup>* T ((go T j (Unlocked b))\<lparr>
      sv_world := tell (v_val (sv_var T)) b (v_cbs (sv_var T)) (sv_world T), sv_log := lg2\<rparr>)"
    by (elim exE)
  obtain U where U: "U = (go T j (Unlocked b))\<lparr>
      sv_world := tell (v_val (sv_var T)) b (v_cbs (sv_var T)) (sv_world T), sv_log := lg2\<rparr>" by blast
  have "unread S" using q by (auto simp: unread_def quiet_def)
  then have un: "unread U" by (simp add: U T unread_go)
  have ui: "thread_at U i (Unlocked a)" and uj: "thread_at U j (Unlocked b)"
    using i j ij(3) by (simp_all add: U T thread_at_def)
  note s3 = two_stores [OF un ui uj ij(3)]
  have nth: "sv_threads S ! i = Outside" "sv_threads S ! j = Outside"
    using i j by (simp_all add: thread_at_def)
  have same: "(sv_threads S)[j := Outside] = sv_threads S" "(sv_threads S)[i := Outside] = sv_threads S"
    using list_update_id [of "sv_threads S" j] list_update_id [of "sv_threads S" i] unfolding nth by simp_all
  have "sv_threads (go (go U j Outside) i Outside) = (sv_threads S)[i := Unlocked a, j := Outside, i := Outside]"
    by (simp add: U T)
  also have "\<dots> = sv_threads S"
    unfolding list_update_swap [OF ij(3)] list_update_overwrite same ..
  finally have thr: "sv_threads (go (go U j Outside) i Outside) = sv_threads S" .
  have "(go (go U j Outside) i Outside)\<lparr>sv_var := (sv_var U)\<lparr>v_val := a\<rparr>\<rparr> =
      S\<lparr>sv_var := (sv_var S)\<lparr>v_val := a\<rparr>, sv_world := tell old b cbs (tell old a cbs (sv_world S)), sv_log := lg2\<rparr>"
  proof (rule shared_var.equality)
    show "sv_threads ((go (go U j Outside) i Outside)\<lparr>sv_var := (sv_var U)\<lparr>v_val := a\<rparr>\<rparr>) =
      sv_threads (S\<lparr>sv_var := (sv_var S)\<lparr>v_val := a\<rparr>,
        sv_world := tell old b cbs (tell old a cbs (sv_world S)), sv_log := lg2\<rparr>)"
      using thr by simp
  qed (simp_all add: U T old cbs)
  with rtranclp_trans [OF rtranclp_trans [OF s1 [folded T] s2 [folded U]] s3] show ?thesis by auto
qed

lemma one_assignment:
  assumes q: "quiet S" and i: "i < length (sv_threads S)"
    and set: "setValue (sv_var S) v (sv_world S) = (var, w, e)"
  shows "\<exists>lg. set_step\<^sup>*\<^sup>* S (S\<lparr>sv_var := var, sv_world := w, sv_log := lg\<rparr>)"
proof -
  let ?S = "go S i (Called v)"
  have at: "thread_at S i Outside" by (rule quiet_at [OF q i])
  have called: "set_step S ?S" by (rule set_step.call [OF at])
  have "thread_at ?S i (Called v)" using at by (simp add: thread_at_def)
  moreover have "others_outside ?S i" using q by (simp add: others_outside_def quiet_def)
  ultimately obtain lg
    where "set_step\<^sup>*\<^sup>* ?S ((go ?S i Outside)\<lparr>sv_var := var, sv_world := w, sv_log := lg\<rparr>)"
    using solo_set_value set by (metis go_sel(1,2))
  moreover have "go ?S i Outside = S" using go_same [OF at] by (simp add: go_def)
  ultimately show ?thesis using called by (metis converse_rtranclp_into_rtranclp)
qed

text \<open>
  C30. \<open>setValue\<close> from several threads, in every interleaving of its locks. Started with no
  assignment under way: (1) whatever value the variable ever comes to have, every listener has been
  told of it; (2) one thread alone does what the sequential \<open>setValue\<close> does; (3) but the
  notification and the store are under two separate locks, so two assignments \<open>a\<close> and \<open>b\<close> can leave
  the variable at \<open>a\<close> with every listener told of the change to \<open>b\<close> last, and both changes told as
  starting at the old value: what the listeners know and what the variable holds differ for good.
\<close>

theorem set_value_race:
  assumes "quiet S" and "i < length (sv_threads S)" and "j < length (sv_threads S)" and "i \<noteq> j"
    and "a \<noteq> v_val (sv_var S)" and "returns (v_val (sv_var S)) a (v_cbs (sv_var S))"
    and "b \<noteq> v_val (sv_var S)" and "returns (v_val (sv_var S)) b (v_cbs (sv_var S))"
  shows "(\<forall>T. set_step\<^sup>*\<^sup>* S T \<longrightarrow> v_cbs (sv_var T) = v_cbs (sv_var S) \<and>
       (v_val (sv_var T) = v_val (sv_var S) \<or>
        (\<forall>(k, cb) \<in> set (v_cbs (sv_var S)). \<exists>old. (k, old, v_val (sv_var T)) \<in> set (sv_log T)))) \<and>
    (\<forall>v var w e. setValue (sv_var S) v (sv_world S) = (var, w, e) \<longrightarrow>
       (\<exists>lg. set_step\<^sup>*\<^sup>* S (S\<lparr>sv_var := var, sv_world := w, sv_log := lg\<rparr>))) \<and>
    (\<exists>lg. set_step\<^sup>*\<^sup>* S (S\<lparr>sv_var := (sv_var S)\<lparr>v_val := a\<rparr>,
       sv_world := tell (v_val (sv_var S)) b (v_cbs (sv_var S))
         (tell (v_val (sv_var S)) a (v_cbs (sv_var S)) (sv_world S)), sv_log := lg\<rparr>))"
proof (intro conjI allI impI)
  fix T assume "set_step\<^sup>*\<^sup>* S T"
  from told_inv_steps [OF this quiet_told [OF assms(1)]] have inv: "told_inv (sv_var S) T" .
  then show "v_cbs (sv_var T) = v_cbs (sv_var S)" by (simp add: told_inv_def)
  from inv show "v_val (sv_var T) = v_val (sv_var S) \<or>
      (\<forall>(k, cb) \<in> set (v_cbs (sv_var S)). \<exists>old. (k, old, v_val (sv_var T)) \<in> set (sv_log T))"
    unfolding told_inv_def told_def by fastforce
next
  fix v var w e assume "setValue (sv_var S) v (sv_world S) = (var, w, e)"
  then show "\<exists>lg. set_step\<^sup>*\<^sup>* S (S\<lparr>sv_var := var, sv_world := w, sv_log := lg\<rparr>)"
    by (rule one_assignment [OF assms(1,2)])
next
  show "\<exists>lg. set_step\<^sup>*\<^sup>* S (S\<lparr>sv_var := (sv_var S)\<lparr>v_val := a\<rparr>,
       sv_world := tell (v_val (sv_var S)) b (v_cbs (sv_var S))
         (tell (v_val (sv_var S)) a (v_cbs (sv_var S)) (sv_world S)), sv_log := lg\<rparr>)"
    by (rule two_assignments [OF assms(1-4) refl refl assms(5-8)])
qed

text \<open>Two threads, a variable of value 0 with one listener that records: 2 is stored, 1 after it, 2 is told last.\<close>

definition two_setters :: "(nat, (nat \<times> nat \<times> nat) list) shared_var" where
  "two_setters = \<lparr>sv_var = (new_ConfigVar nat_type ''n'' 0 [])\<lparr>v_cbs := [(1, recorder 7 None)]\<rparr>,
     sv_world = [], sv_threads = [Outside, Outside], sv_log = [], sv_broken = False\<rparr>"

theorem set_value_race_witness:
  "\<exists>T. set_step\<^sup>*\<^sup>* two_setters T \<and> v_val (sv_var T) = 1 \<and> sv_world T = [(7, 0, 1), (7, 0, 2)]"
proof -
  have h: "quiet two_setters" "0 < length (sv_threads two_setters)" "1 < length (sv_threads two_setters)"
    "(0 :: nat) \<noteq> 1" "1 \<noteq> v_val (sv_var two_setters)" "2 \<noteq> v_val (sv_var two_setters)"
    "returns (v_val (sv_var two_setters)) 1 (v_cbs (sv_var two_setters))"
    "returns (v_val (sv_var two_setters)) 2 (v_cbs (sv_var two_setters))"
    by (simp_all add: two_setters_def quiet_def new_ConfigVar_def returns_def recorder_def)
  obtain lg where "set_step\<^sup>*\<^sup>* two_setters (two_setters\<lparr>sv_var := (sv_var two_setters)\<lparr>v_val := 1\<rparr>,
       sv_world := tell (v_val (sv_var two_setters)) 2 (v_cbs (sv_var two_setters))
         (tell (v_val (sv_var two_setters)) 1 (v_cbs (sv_var two_setters)) (sv_world two_setters)), sv_log := lg\<rparr>)"
    using set_value_race [OF h(1-5) h(7,6,8)] by blast
  then show ?thesis
    by (rule_tac exI, intro conjI) (assumption, simp_all add: two_setters_def new_ConfigVar_def tell_def recorder_def)
qed

end
