(* ===== verification/Log_Formatters.thy ===== *)
theory Log_Formatters
  imports Prelude
begin

text \<open>
  \<open>LogLevel\<close>, \<open>LogEvent\<close> and \<open>LogFormatter\<close> of \<open>wille/log.h\<close> and \<open>wille/log.cpp\<close>: the levels and their
  names, the parser that turns a pattern such as \<open>%d{%Y-%m-%d}%T[%p]%m%n\<close> into format items, and
  what each item writes.

  The parser is the loop of \<open>LogFormatter::init\<close> over indices of the pattern, with its inner scan as
  a function of its own. A type of the event's content that is only printed is the string it prints.
  \<open>strftime\<close> on the local time is a parameter.
\<close>

subsection \<open>Levels\<close>

datatype level = UNKNOW | DEBUG | INFO | WARN | ERROR | FATAL

fun level_num :: "level \<Rightarrow> nat" where
  "level_num UNKNOW = 0"
| "level_num DEBUG = 1"
| "level_num INFO = 2"
| "level_num WARN = 3"
| "level_num ERROR = 4"
| "level_num FATAL = 5"

lemma level_num_inj: "level_num a = level_num b \<Longrightarrow> a = b"
  by (cases a; cases b) simp_all

instantiation level :: linorder
begin

definition less_eq_level :: "level \<Rightarrow> level \<Rightarrow> bool" where
  "less_eq_level a b \<longleftrightarrow> level_num a \<le> level_num b"

definition less_level :: "level \<Rightarrow> level \<Rightarrow> bool" where
  "less_level a b \<longleftrightarrow> level_num a < level_num b"

instance
  by standard (auto simp: less_eq_level_def less_level_def intro: level_num_inj)

end

fun level_ToString :: "level \<Rightarrow> string" where
  "level_ToString DEBUG = ''DEBUG''"
| "level_ToString INFO = ''INFO''"
| "level_ToString WARN = ''WARN''"
| "level_ToString ERROR = ''ERROR''"
| "level_ToString FATAL = ''FATAL''"
| "level_ToString UNKNOW = ''UNKNOW''"

definition level_FromString :: "string \<Rightarrow> level" where
  "level_FromString str =
     (if str = ''debug'' then DEBUG else if str = ''info'' then INFO
      else if str = ''warn'' then WARN else if str = ''error'' then ERROR
      else if str = ''fatal'' then FATAL
      else if str = ''DEBUG'' then DEBUG else if str = ''INFO'' then INFO
      else if str = ''WARN'' then WARN else if str = ''ERROR'' then ERROR
      else if str = ''FATAL'' then FATAL
      else UNKNOW)"

subsection \<open>Events and items\<close>

record log_event =
  e_file :: string
  e_line :: int
  e_elapse :: u32
  e_threadId :: u32
  e_fiberId :: u32
  e_time :: u64
  e_threadName :: string
  e_content :: string
  e_loggerName :: string
  e_level :: level

definition new_LogEvent ::
  "string \<Rightarrow> level \<Rightarrow> string \<Rightarrow> int \<Rightarrow> u32 \<Rightarrow> u32 \<Rightarrow> u32 \<Rightarrow> u64 \<Rightarrow> string \<Rightarrow> log_event" where
  "new_LogEvent loggerName lv file line elapse thread_id fiber_id time thread_name =
     \<lparr>e_file = file, e_line = line, e_elapse = elapse, e_threadId = thread_id, e_fiberId = fiber_id,
      e_time = time, e_threadName = thread_name, e_content = [], e_loggerName = loggerName, e_level = lv\<rparr>"

text \<open>\<open>format\<close>: \<open>vasprintf\<close> is outside; \<open>None\<close> is its failure. What it printed is appended.\<close>

definition LogEvent_format :: "string option \<Rightarrow> log_event \<Rightarrow> log_event" where
  "LogEvent_format printed ev =
     (case printed of None \<Rightarrow> ev | Some buf \<Rightarrow> ev\<lparr>e_content := e_content ev @ buf\<rparr>)"

datatype format_item =
    MessageItem
  | LevelItem
  | ElapseItem
  | NameItem
  | ThreadIdItem
  | NewLineItem
  | DateTimeItem string
  | FilenameItem
  | LineItem
  | TabItem
  | FiberIdItem
  | ThreadNameItem
  | StringItem string

definition default_time_format :: string where
  "default_time_format = ''%Y-%m-%d %H:%M:%S''"

definition new_DateTimeItem :: "string \<Rightarrow> format_item" where
  "new_DateTimeItem fmt = DateTimeItem (if fmt = [] then default_time_format else fmt)"

definition show_int :: "int \<Rightarrow> string" where
  "show_int i = (if i < 0 then CHR ''-'' # show_nat (nat (- i)) else show_nat (nat i))"

fun item_format :: "(string \<Rightarrow> u64 \<Rightarrow> string) \<Rightarrow> level \<Rightarrow> log_event \<Rightarrow> format_item \<Rightarrow> string" where
  "item_format strftime lv ev MessageItem = e_content ev"
| "item_format strftime lv ev LevelItem = level_ToString lv"
| "item_format strftime lv ev ElapseItem = show_nat (unat (e_elapse ev))"
| "item_format strftime lv ev NameItem = e_loggerName ev"
| "item_format strftime lv ev ThreadIdItem = show_nat (unat (e_threadId ev))"
| "item_format strftime lv ev NewLineItem = [CHR 0x0A]"
| "item_format strftime lv ev (DateTimeItem fmt) = strftime fmt (e_time ev)"
| "item_format strftime lv ev FilenameItem = e_file ev"
| "item_format strftime lv ev LineItem = show_int (e_line ev)"
| "item_format strftime lv ev TabItem = [CHR 0x09]"
| "item_format strftime lv ev FiberIdItem = show_nat (unat (e_fiberId ev))"
| "item_format strftime lv ev ThreadNameItem = e_threadName ev"
| "item_format strftime lv ev (StringItem s) = s"

subsection \<open>The pattern parser\<close>

definition isalpha :: "char \<Rightarrow> bool" where
  "isalpha c = (let n = of_char c :: nat in 65 \<le> n \<and> n \<le> 90 \<or> 97 \<le> n \<and> n \<le> 122)"

definition substr :: "string \<Rightarrow> nat \<Rightarrow> nat \<Rightarrow> string" where
  "substr s pos len = take len (drop pos s)"

text \<open>
  The inner loop: from position \<open>n\<close> after a \<open>%\<close> at \<open>i\<close>, with \<open>fmt_status\<close> and \<open>fmt_begin\<close>. The result
  is the final \<open>n\<close>, \<open>fmt_status\<close>, \<open>str\<close> and \<open>fmt\<close>.
\<close>

function scan_item ::
  "string \<Rightarrow> nat \<Rightarrow> nat \<Rightarrow> nat \<Rightarrow> nat \<Rightarrow> string \<Rightarrow> string \<Rightarrow> nat \<times> nat \<times> string \<times> string" where
  "scan_item p i n fmt_status fmt_begin str fmt =
     (if n < length p
      then if fmt_status = 0 \<and> \<not> isalpha (p ! n) \<and> p ! n \<noteq> CHR ''{'' \<and> p ! n \<noteq> CHR ''}''
           then (n, fmt_status, substr p (i + 1) (n - i - 1), fmt)
           else if fmt_status = 0 \<and> p ! n = CHR ''{''
           then scan_item p i (n + 1) 1 n (substr p (i + 1) (n - i - 1)) fmt
           else if fmt_status = 1 \<and> p ! n = CHR ''}''
           then (n + 1, 0, str, substr p (fmt_begin + 1) (n - fmt_begin - 1))
           else scan_item p i (n + 1) fmt_status fmt_begin
                  (if n + 1 = length p \<and> str = [] then substr p (i + 1) (length p) else str) fmt
      else (n, fmt_status, str, fmt))"
  by pat_completeness auto
termination
  by (relation "measure (\<lambda>(p, i, n, _). length p - n)") auto

declare scan_item.simps [simp del]

lemma scan_item_mono: "fst (scan_item p i n st b str fmt) \<ge> n"
proof (induction p i n st b str fmt rule: scan_item.induct)
  case (1 p i n st b str fmt)
  show ?case
    by (subst scan_item.simps) (use 1 in \<open>auto dest: order_trans [rotated]\<close>)
qed

lemma scan_item_less: "scan_item p i (Suc i) st b str fmt = (n, r) \<Longrightarrow> i < n"
  using scan_item_mono [of "Suc i" p i st b str fmt] by simp

text \<open>The outer loop; \<open>vec\<close> holds the text, the format and the kind (0 literal, 1 item) of each piece.\<close>

type_synonym piece = "string \<times> string \<times> nat"

function init_loop ::
  "string \<Rightarrow> nat \<Rightarrow> string \<Rightarrow> piece list \<Rightarrow> bool \<Rightarrow> string \<times> piece list \<times> bool" where
  "init_loop p i nstr vec m_error =
     (if i < length p
      then if p ! i \<noteq> CHR ''%'' then init_loop p (i + 1) (nstr @ [p ! i]) vec m_error
           else if i + 1 < length p \<and> p ! (i + 1) = CHR ''%''
           then init_loop p (i + 1) (nstr @ ''%'') vec m_error
           else (case scan_item p i (i + 1) 0 0 [] [] of
                   (n, fmt_status, str, fmt) \<Rightarrow>
                     if fmt_status = 0
                     then init_loop p (n - 1 + 1) []
                            ((if nstr \<noteq> [] then vec @ [(nstr, [], 0)] else vec) @ [(str, fmt, 1)]) m_error
                     else if fmt_status = 1
                     then init_loop p (i + 1) nstr (vec @ [(''<<pattern_error>>'', fmt, 0)]) True
                     else init_loop p (i + 1) nstr vec m_error)
      else (nstr, vec, m_error))"
  by pat_completeness auto
termination
  by (relation "measure (\<lambda>(p, i, _). length p - i)") (auto dest: scan_item_less scan_item_less [OF sym])

declare init_loop.simps [simp del]

definition s_format_items :: "(string \<times> (string \<Rightarrow> format_item)) list" where
  "s_format_items =
     [(''m'', \<lambda>_. MessageItem), (''p'', \<lambda>_. LevelItem), (''r'', \<lambda>_. ElapseItem), (''c'', \<lambda>_. NameItem),
      (''t'', \<lambda>_. ThreadIdItem), (''n'', \<lambda>_. NewLineItem), (''d'', new_DateTimeItem),
      (''f'', \<lambda>_. FilenameItem), (''l'', \<lambda>_. LineItem), (''T'', \<lambda>_. TabItem), (''F'', \<lambda>_. FiberIdItem),
      (''N'', \<lambda>_. ThreadNameItem)]"

fun make_items :: "piece list \<Rightarrow> bool \<Rightarrow> format_item list \<times> bool" where
  "make_items [] m_error = ([], m_error)"
| "make_items ((str, fmt, kind) # vec) m_error =
     (if kind = 0
      then (let (items, err) = make_items vec m_error in (StringItem str # items, err))
      else case map_of s_format_items str of
             None \<Rightarrow>
               (let (items, err) = make_items vec True
                in (StringItem (''<<error_format %'' @ str @ ''>>'') # items, err))
           | Some create \<Rightarrow>
               (let (items, err) = make_items vec m_error in (create fmt # items, err)))"

record formatter =
  m_pattern :: string
  m_items :: "format_item list"
  m_error :: bool

definition LogFormatter_init :: "string \<Rightarrow> format_item list \<times> bool" where
  "LogFormatter_init p =
     (let (nstr, vec, err) = init_loop p 0 [] [] False
      in make_items (if nstr \<noteq> [] then vec @ [(nstr, [], 0)] else vec) err)"

definition new_LogFormatter :: "string \<Rightarrow> formatter" where
  "new_LogFormatter pattern =
     (let (items, err) = LogFormatter_init pattern
      in \<lparr>m_pattern = pattern, m_items = items, m_error = err\<rparr>)"

definition formatter_format :: "(string \<Rightarrow> u64 \<Rightarrow> string) \<Rightarrow> formatter \<Rightarrow> level \<Rightarrow> log_event \<Rightarrow> string" where
  "formatter_format strftime f lv ev = concat (map (item_format strftime lv ev) (m_items f))"

end
