(* ===== verification/Loggers.thy ===== *)
theory Loggers
  imports Log_Formatters Std_Map
begin

text \<open>
  \<open>Logger\<close>, \<open>LogAppender\<close> and \<open>LoggerManager\<close> of \<open>wille/log.h\<close> and \<open>wille/log.cpp\<close>.

  Loggers and appenders are shared pointers: both live in heaps, because an appender can be in the
  lists of several loggers. Formatters are immutable and are values. What an appender does to the
  outside is a list of actions: a file is reopened, or a text is written to a file or to the standard
  output. Failures of the file system are not modelled. Calling through a null formatter or logger
  is an error. \<open>Logger::log\<close> follows the chain of root loggers; it takes a bound on the length of the
  chain and is \<open>None\<close> when the bound is too small.
\<close>

record appender =
  a_file :: "string option" \<comment> \<open>\<open>None\<close> is a \<open>StdoutLogAppender\<close>\<close>
  a_level :: level
  a_formatter :: "formatter option"
  a_lastTime :: u64

record logger =
  l_name :: string
  l_level :: level
  l_appenders :: "ptr list"
  l_formatter :: "formatter option"
  l_root :: "ptr option"

record logs =
  app_heap :: "ptr \<rightharpoonup> appender"
  log_heap :: "ptr \<rightharpoonup> logger"
  m_loggers :: "(string \<times> ptr) list"
  m_rootLogger :: ptr
  log_next :: ptr

datatype log_action =
    Reopen string
  | Emit "string option" string

datatype log_error = NullFormatter | NullLogger | NullAppender

type_synonym 'a logresult = "log_error + 'a"

subsection \<open>Appenders\<close>

definition new_StdoutLogAppender :: appender where
  "new_StdoutLogAppender = \<lparr>a_file = None, a_level = DEBUG, a_formatter = None, a_lastTime = 0\<rparr>"

definition new_FileLogAppender :: "string \<Rightarrow> appender \<times> log_action list" where
  "new_FileLogAppender filename =
     (\<lparr>a_file = Some filename, a_level = DEBUG, a_formatter = None, a_lastTime = 0\<rparr>, [Reopen filename])"

fun StdoutLogAppender_log ::
  "(string \<Rightarrow> u64 \<Rightarrow> string) \<Rightarrow> appender \<Rightarrow> level \<Rightarrow> log_event \<Rightarrow> (log_action list \<times> appender) logresult"
where
  "StdoutLogAppender_log strftime a lv ev =
     (if lv \<ge> a_level a
      then case a_formatter a of
             None \<Rightarrow> Inl NullFormatter
           | Some f \<Rightarrow> Inr ([Emit None (formatter_format strftime f lv ev)], a)
      else Inr ([], a))"

fun FileLogAppender_log ::
  "(string \<Rightarrow> u64 \<Rightarrow> string) \<Rightarrow> string \<Rightarrow> appender \<Rightarrow> level \<Rightarrow> log_event \<Rightarrow>
     (log_action list \<times> appender) logresult" where
  "FileLogAppender_log strftime filename a lv ev =
     (if lv \<ge> a_level a
      then let now = e_time ev;
               (acts, a1) = (if now \<ge> a_lastTime a + 3 then ([Reopen filename], a\<lparr>a_lastTime := now\<rparr>)
                             else ([], a))
           in case a_formatter a1 of
                None \<Rightarrow> Inl NullFormatter
              | Some f \<Rightarrow> Inr (acts @ [Emit (Some filename) (formatter_format strftime f lv ev)], a1)
      else Inr ([], a))"

definition appender_log ::
  "(string \<Rightarrow> u64 \<Rightarrow> string) \<Rightarrow> appender \<Rightarrow> level \<Rightarrow> log_event \<Rightarrow> (log_action list \<times> appender) logresult"
where
  "appender_log strftime a lv ev =
     (case a_file a of
        None \<Rightarrow> StdoutLogAppender_log strftime a lv ev
      | Some filename \<Rightarrow> FileLogAppender_log strftime filename a lv ev)"

subsection \<open>Loggers\<close>

definition logger_pattern :: string where
  "logger_pattern = ''%d{%Y-%m-%d %H:%M:%S}%T%t%T%N%T%F%T[%p]%T[%c]%T%f:%l%T%m%n''"

definition new_Logger :: "string \<Rightarrow> logger" where
  "new_Logger name = \<lparr>l_name = name, l_level = DEBUG, l_appenders = [],
     l_formatter = Some (new_LogFormatter logger_pattern), l_root = None\<rparr>"

fun with_logger :: "logs \<Rightarrow> ptr \<Rightarrow> (logger \<Rightarrow> logs logresult) \<Rightarrow> logs logresult" where
  "with_logger s p k = (case log_heap s p of None \<Rightarrow> Inl NullLogger | Some l \<Rightarrow> k l)"

definition put_logger :: "logs \<Rightarrow> ptr \<Rightarrow> logger \<Rightarrow> logs" where
  "put_logger s p l = s\<lparr>log_heap := (log_heap s)(p \<mapsto> l)\<rparr>"

definition appender_setFormatter :: "logs \<Rightarrow> ptr \<Rightarrow> formatter option \<Rightarrow> logs logresult" where
  "appender_setFormatter s a val =
     (case app_heap s a of
        None \<Rightarrow> Inl NullAppender
      | Some ap \<Rightarrow> Inr (s\<lparr>app_heap := (app_heap s)(a \<mapsto> ap\<lparr>a_formatter := val\<rparr>)\<rparr>))"

definition appender_setLevel :: "logs \<Rightarrow> ptr \<Rightarrow> level \<Rightarrow> logs logresult" where
  "appender_setLevel s a val =
     (case app_heap s a of
        None \<Rightarrow> Inl NullAppender
      | Some ap \<Rightarrow> Inr (s\<lparr>app_heap := (app_heap s)(a \<mapsto> ap\<lparr>a_level := val\<rparr>)\<rparr>))"

definition addAppender :: "logs \<Rightarrow> ptr \<Rightarrow> ptr \<Rightarrow> logs logresult" where
  "addAppender s p a =
     with_logger s p (\<lambda>l.
       case app_heap s a of
         None \<Rightarrow> Inl NullAppender
       | Some ap \<Rightarrow>
           (case (if a_formatter ap = None then appender_setFormatter s a (l_formatter l) else Inr s) of
              Inl e \<Rightarrow> Inl e
            | Inr s1 \<Rightarrow> Inr (put_logger s1 p (l\<lparr>l_appenders := l_appenders l @ [a]\<rparr>))))"

definition delAppender :: "logs \<Rightarrow> ptr \<Rightarrow> ptr \<Rightarrow> logs logresult" where
  "delAppender s p a =
     with_logger s p (\<lambda>l. Inr (put_logger s p (l\<lparr>l_appenders := remove1 a (l_appenders l)\<rparr>)))"

definition clearAppenders :: "logs \<Rightarrow> ptr \<Rightarrow> logs logresult" where
  "clearAppenders s p = with_logger s p (\<lambda>l. Inr (put_logger s p (l\<lparr>l_appenders := []\<rparr>)))"

definition logger_setLevel :: "logs \<Rightarrow> ptr \<Rightarrow> level \<Rightarrow> logs logresult" where
  "logger_setLevel s p val = with_logger s p (\<lambda>l. Inr (put_logger s p (l\<lparr>l_level := val\<rparr>)))"

fun set_formatters :: "logs \<Rightarrow> ptr list \<Rightarrow> formatter option \<Rightarrow> logs logresult" where
  "set_formatters s [] val = Inr s"
| "set_formatters s (a # as) val =
     (case appender_setFormatter s a val of
        Inl e \<Rightarrow> Inl e
      | Inr s1 \<Rightarrow> set_formatters s1 as val)"

definition logger_setFormatter :: "logs \<Rightarrow> ptr \<Rightarrow> formatter option \<Rightarrow> logs logresult" where
  "logger_setFormatter s p val =
     with_logger s p (\<lambda>l. set_formatters (put_logger s p (l\<lparr>l_formatter := val\<rparr>)) (l_appenders l) val)"

definition logger_setPattern :: "logs \<Rightarrow> ptr \<Rightarrow> string \<Rightarrow> logs logresult" where
  "logger_setPattern s p val =
     (let new_val = new_LogFormatter val
      in if m_error new_val then (if log_heap s p = None then Inl NullLogger else Inr s)
         else logger_setFormatter s p (Some new_val))"

fun appenders_log ::
  "(string \<Rightarrow> u64 \<Rightarrow> string) \<Rightarrow> logs \<Rightarrow> ptr list \<Rightarrow> level \<Rightarrow> log_event \<Rightarrow> (log_action list \<times> logs) logresult"
where
  "appenders_log strftime s [] lv ev = Inr ([], s)"
| "appenders_log strftime s (a # as) lv ev =
     (case app_heap s a of
        None \<Rightarrow> Inl NullAppender
      | Some ap \<Rightarrow>
          (case appender_log strftime ap lv ev of
             Inl e \<Rightarrow> Inl e
           | Inr (acts, ap') \<Rightarrow>
               (case appenders_log strftime (s\<lparr>app_heap := (app_heap s)(a \<mapsto> ap')\<rparr>) as lv ev of
                  Inl e \<Rightarrow> Inl e
                | Inr (acts', s') \<Rightarrow> Inr (acts @ acts', s'))))"

fun logger_log ::
  "(string \<Rightarrow> u64 \<Rightarrow> string) \<Rightarrow> nat \<Rightarrow> logs \<Rightarrow> ptr \<Rightarrow> level \<Rightarrow> log_event \<Rightarrow>
     (log_action list \<times> logs) logresult option" where
  "logger_log strftime 0 s p lv ev = None"
| "logger_log strftime (Suc n) s p lv ev =
     (case log_heap s p of
        None \<Rightarrow> Some (Inl NullLogger)
      | Some l \<Rightarrow>
          if lv \<ge> l_level l
          then if l_appenders l \<noteq> [] then Some (appenders_log strftime s (l_appenders l) lv ev)
               else case l_root l of
                      Some r \<Rightarrow> logger_log strftime n s r lv ev
                    | None \<Rightarrow> Some (Inr ([], s))
          else Some (Inr ([], s)))"

definition logger_debug where "logger_debug strftime n s p ev = logger_log strftime n s p DEBUG ev"

definition logger_info where "logger_info strftime n s p ev = logger_log strftime n s p INFO ev"

definition logger_warn where "logger_warn strftime n s p ev = logger_log strftime n s p WARN ev"

definition logger_error where "logger_error strftime n s p ev = logger_log strftime n s p ERROR ev"

definition logger_fatal where "logger_fatal strftime n s p ev = logger_log strftime n s p FATAL ev"

text \<open>
  The log macros: the event is only made if the logger's level admits it, and the destructor of
  \<open>LogEventWrapper\<close> hands it to the logger at the end of the statement.
\<close>

definition log_statement ::
  "(string \<Rightarrow> u64 \<Rightarrow> string) \<Rightarrow> nat \<Rightarrow> logs \<Rightarrow> ptr \<Rightarrow> level \<Rightarrow> log_event \<Rightarrow>
     (log_action list \<times> logs) logresult option" where
  "log_statement strftime n s p lv ev =
     (case log_heap s p of
        None \<Rightarrow> Some (Inl NullLogger)
      | Some l \<Rightarrow> if l_level l \<le> lv then logger_log strftime n s p lv ev else Some (Inr ([], s)))"

subsection \<open>The manager\<close>

definition alloc_logger :: "logs \<Rightarrow> logger \<Rightarrow> ptr \<times> logs" where
  "alloc_logger s l = (log_next s, s\<lparr>log_heap := (log_heap s)(log_next s \<mapsto> l), log_next := log_next s + 1\<rparr>)"

definition alloc_appender :: "logs \<Rightarrow> appender \<Rightarrow> ptr \<times> logs" where
  "alloc_appender s a = (log_next s, s\<lparr>app_heap := (app_heap s)(log_next s \<mapsto> a), log_next := log_next s + 1\<rparr>)"

definition getLogger :: "logs \<Rightarrow> string \<Rightarrow> ptr \<times> logs" where
  "getLogger s name =
     (case map_of (m_loggers s) name of
        Some p \<Rightarrow> (p, s)
      | None \<Rightarrow>
          (let (p, s1) = alloc_logger s ((new_Logger name)\<lparr>l_root := Some (m_rootLogger s)\<rparr>)
           in (p, s1\<lparr>m_loggers := map_put name p (m_loggers s1)\<rparr>)))"

definition LoggerManager_ctor :: "logs logresult" where
  "LoggerManager_ctor =
     (let s0 = \<lparr>app_heap = Map.empty, log_heap = Map.empty, m_loggers = [], m_rootLogger = 0,
                log_next = 0\<rparr>;
          (r, s1) = alloc_logger s0 (new_Logger ''root'');
          (a, s2) = alloc_appender (s1\<lparr>m_rootLogger := r\<rparr>) new_StdoutLogAppender
      in case addAppender s2 r a of
           Inl e \<Rightarrow> Inl e
         | Inr s3 \<Rightarrow>
             with_logger s3 r (\<lambda>l. Inr (s3\<lparr>m_loggers := map_put (l_name l) r (m_loggers s3)\<rparr>)))"

end
