(* ===== verification/Log_Config.thy ===== *)
theory Log_Config
  imports Loggers Config_Casts
begin

text \<open>
  The configuration of the loggers in \<open>wille/log.cpp\<close>: \<open>LogAppenderDefine\<close> and \<open>LogDefine\<close> with their
  casts from and to YAML text, the \<open>toYamlString\<close> methods, and the listener of the variable \<open>logs\<close>
  that applies a change of the configuration to the loggers.

  \<open>node[key].push_back(n)\<close> attaches the child when the first element is appended and then appends in
  place: the child is built as a sequence and put under the key if it has an element. The messages
  on standard output are left out.
\<close>

record log_appender_define =
  ad_type :: nat \<comment> \<open>1 File, 2 Stdout\<close>
  ad_level :: level
  ad_formatter :: string
  ad_file :: string

record log_define =
  ld_name :: string
  ld_level :: level
  ld_formatter :: string
  ld_appenders :: "log_appender_define list"

definition define_lt :: "log_define \<Rightarrow> log_define \<Rightarrow> bool" where
  "define_lt a b \<longleftrightarrow> ld_name a < ld_name b"

subsection \<open>Casts\<close>

definition string_or :: "'n yaml \<Rightarrow> 'n \<Rightarrow> string \<Rightarrow> string \<Rightarrow> string throws" where
  "string_or Y node key d =
     try_then (y_get Y node key) (\<lambda>n. if y_IsDefined Y n then y_as_string Y n else Inr d)"

definition level_or :: "'n yaml \<Rightarrow> 'n \<Rightarrow> level throws" where
  "level_or Y node =
     try_then (y_get Y node ''level'') (\<lambda>n.
       if y_IsDefined Y n then try_then (y_as_string Y n) (\<lambda>s. Inr (level_FromString s)) else Inr UNKNOW)"

text \<open>One round of the loop over the appenders; \<open>None\<close> is \<open>continue\<close>.\<close>

definition read_appender :: "'n yaml \<Rightarrow> 'n \<Rightarrow> log_appender_define option throws" where
  "read_appender Y appender =
     try_then (y_get Y appender ''type'') (\<lambda>t.
       if \<not> y_IsDefined Y t then Inr None
       else try_then (y_as_string Y t) (\<lambda>type.
            try_then (level_or Y appender) (\<lambda>lv.
              if type = ''FileLogAppender''
              then try_then (y_get Y appender ''file'') (\<lambda>f.
                   try_then (y_as_string Y f) (\<lambda>file.
                   try_then (string_or Y appender ''formatter'' []) (\<lambda>fm.
                     Inr (Some \<lparr>ad_type = 1, ad_level = lv, ad_formatter = fm, ad_file = file\<rparr>))))
              else if type = ''StdoutLogAppender''
              then try_then (string_or Y appender ''formatter'' []) (\<lambda>fm.
                     Inr (Some \<lparr>ad_type = 2, ad_level = lv, ad_formatter = fm, ad_file = []\<rparr>))
              else Inr None)))"

fun read_appenders :: "'n yaml \<Rightarrow> 'n \<Rightarrow> nat list \<Rightarrow> log_appender_define list throws" where
  "read_appenders Y node [] = Inr []"
| "read_appenders Y node (x # xs) =
     try_then (read_appender Y (y_at Y node x)) (\<lambda>lad.
     try_then (read_appenders Y node xs) (\<lambda>lads.
       Inr (case lad of None \<Rightarrow> lads | Some a \<Rightarrow> a # lads)))"

definition LogDefine_from :: "'n yaml \<Rightarrow> log_define from_str" where
  "LogDefine_from Y v =
     try_then (y_Load Y v) (\<lambda>node.
     try_then (y_get Y node ''name'') (\<lambda>n.
       if \<not> y_IsDefined Y n then Inl (LogicError ''log config name is null'')
       else try_then (y_as_string Y n) (\<lambda>name.
            try_then (string_or Y node ''level'' []) (\<lambda>lv.
            try_then (string_or Y node ''formatter'' []) (\<lambda>fm.
            try_then (y_get Y node ''appenders'') (\<lambda>aps.
            try_then (if y_IsDefined Y aps then read_appenders Y aps [0..<y_size Y aps] else Inr []) (\<lambda>lads.
              Inr \<lparr>ld_name = name, ld_level = level_FromString lv, ld_formatter = fm,
                   ld_appenders = lads\<rparr>)))))))"

definition appender_fields :: "'n yaml \<Rightarrow> log_appender_define \<Rightarrow> (string \<times> 'n) list" where
  "appender_fields Y a =
     (if ad_type a = 1
      then [(''type'', y_scalar_node Y ''FileLogAppender''), (''file'', y_scalar_node Y (ad_file a))]
      else if ad_type a = 2 then [(''type'', y_scalar_node Y ''StdoutLogAppender'')] else []) @
     [(''level'', y_scalar_node Y (level_ToString (ad_level a)))] @
     (if ad_formatter a \<noteq> [] then [(''formatter'', y_scalar_node Y (ad_formatter a))] else [])"

definition LogDefine_to :: "'n yaml \<Rightarrow> log_define to_str" where
  "LogDefine_to Y ld =
     (let node = y_put Y (y_node Y) ''name'' (y_scalar_node Y (ld_name ld));
          node = (if ld_level ld \<noteq> UNKNOW
                  then y_put Y node ''level'' (y_scalar_node Y (level_ToString (ld_level ld))) else node);
          node = (if ld_formatter ld \<noteq> []
                  then y_put Y node ''formatter'' (y_scalar_node Y (ld_formatter ld)) else node);
          aps = map (\<lambda>a. put_all Y (y_node Y) (appender_fields Y a)) (ld_appenders ld);
          node = (if aps \<noteq> [] then y_put Y node ''appenders'' (seq_node Y aps) else node)
      in Inr (y_dump Y node))"

subsection \<open>Printing the loggers\<close>

definition formatter_field :: "'n yaml \<Rightarrow> formatter option \<Rightarrow> (string \<times> 'n) list" where
  "formatter_field Y f =
     (case f of None \<Rightarrow> [] | Some f \<Rightarrow> [(''formatter'', y_scalar_node Y (m_pattern f))])"

definition StdoutLogAppender_toYamlString :: "'n yaml \<Rightarrow> appender \<Rightarrow> string" where
  "StdoutLogAppender_toYamlString Y a =
     y_dump Y (put_all Y (y_node Y)
       ([(''type'', y_scalar_node Y ''StdoutLogAppender''),
         (''level'', y_scalar_node Y (level_ToString (a_level a)))] @ formatter_field Y (a_formatter a)))"

definition FileLogAppender_toYamlString :: "'n yaml \<Rightarrow> string \<Rightarrow> appender \<Rightarrow> string" where
  "FileLogAppender_toYamlString Y filename a =
     y_dump Y (put_all Y (y_node Y)
       ([(''type'', y_scalar_node Y ''FileLogAppender''), (''file'', y_scalar_node Y filename),
         (''level'', y_scalar_node Y (level_ToString (a_level a)))] @ formatter_field Y (a_formatter a)))"

definition appender_toYamlString :: "'n yaml \<Rightarrow> appender \<Rightarrow> string" where
  "appender_toYamlString Y a =
     (case a_file a of
        None \<Rightarrow> StdoutLogAppender_toYamlString Y a
      | Some filename \<Rightarrow> FileLogAppender_toYamlString Y filename a)"

definition logger_toYamlString :: "'n yaml \<Rightarrow> logs \<Rightarrow> logger \<Rightarrow> string throws" where
  "logger_toYamlString Y s l =
     (let node = put_all Y (y_node Y)
            ([(''name'', y_scalar_node Y (l_name l)),
              (''level'', y_scalar_node Y (level_ToString (l_level l)))] @ formatter_field Y (l_formatter l))
      in try_then (push_elements Y (\<lambda>a. Inr (appender_toYamlString Y (the (app_heap s a)))) (y_node Y) (l_appenders l))
           (\<lambda>aps. Inr (y_dump Y (if l_appenders l \<noteq> [] then y_put Y node ''appenders'' aps else node))))"

definition manager_toYamlString :: "'n yaml \<Rightarrow> logs \<Rightarrow> string throws" where
  "manager_toYamlString Y s =
     try_then (push_elements Y (\<lambda>(name, p). logger_toYamlString Y s (the (log_heap s p))) (y_node Y) (m_loggers s))
       (\<lambda>node. Inr (y_dump Y node))"

subsection \<open>Applying a configuration\<close>

fun log_then :: "(log_action list \<times> logs) logresult \<Rightarrow> (logs \<Rightarrow> (log_action list \<times> logs) logresult) \<Rightarrow>
    (log_action list \<times> logs) logresult" where
  "log_then (Inl e) f = Inl e"
| "log_then (Inr (acts, s)) f =
     (case f s of Inl e \<Rightarrow> Inl e | Inr (acts', s') \<Rightarrow> Inr (acts @ acts', s'))"

definition silent :: "logs logresult \<Rightarrow> (log_action list \<times> logs) logresult" where
  "silent r = (case r of Inl e \<Rightarrow> Inl e | Inr s \<Rightarrow> Inr ([], s))"

definition make_appender :: "log_appender_define \<Rightarrow> appender \<times> log_action list" where
  "make_appender a =
     (let (ap, acts) = (if ad_type a = 1 then new_FileLogAppender (ad_file a) else (new_StdoutLogAppender, []));
          ap = ap\<lparr>a_level := ad_level a\<rparr>;
          fmt = new_LogFormatter (ad_formatter a)
      in (if ad_formatter a \<noteq> [] \<and> \<not> m_error fmt then ap\<lparr>a_formatter := Some fmt\<rparr> else ap, acts))"

definition conf_appender :: "logs \<Rightarrow> ptr \<Rightarrow> log_appender_define \<Rightarrow> (log_action list \<times> logs) logresult" where
  "conf_appender s p a =
     (let (ap, acts) = make_appender a; (q, s1) = alloc_appender s ap
      in case addAppender s1 p q of Inl e \<Rightarrow> Inl e | Inr s2 \<Rightarrow> Inr (acts, s2))"

fun conf_appenders ::
  "logs \<Rightarrow> ptr \<Rightarrow> log_appender_define list \<Rightarrow> (log_action list \<times> logs) logresult" where
  "conf_appenders s p [] = Inr ([], s)"
| "conf_appenders s p (a # as) = log_then (conf_appender s p a) (\<lambda>s1. conf_appenders s1 p as)"

definition conf_logger :: "logs \<Rightarrow> log_define \<Rightarrow> (log_action list \<times> logs) logresult" where
  "conf_logger s i =
     (let (logger, s1) = getLogger s (ld_name i)
      in log_then (silent (logger_setLevel s1 logger (ld_level i))) (\<lambda>s2.
         log_then (silent (if ld_formatter i \<noteq> [] then logger_setPattern s2 logger (ld_formatter i) else Inr s2)) (\<lambda>s3.
         log_then (silent (clearAppenders s3 logger)) (\<lambda>s4.
           conf_appenders s4 logger (ld_appenders i)))))"

definition changed :: "log_define list \<Rightarrow> log_define \<Rightarrow> bool" where
  "changed old_value i =
     (case set_find define_lt i old_value of
        None \<Rightarrow> True
      | Some it \<Rightarrow> \<not> i = old_value ! it)"

fun conf_new :: "log_define list \<Rightarrow> logs \<Rightarrow> log_define list \<Rightarrow> (log_action list \<times> logs) logresult" where
  "conf_new old_value s [] = Inr ([], s)"
| "conf_new old_value s (i # is) =
     (if changed old_value i then log_then (conf_logger s i) (\<lambda>s1. conf_new old_value s1 is)
      else conf_new old_value s is)"

definition drop_logger :: "logs \<Rightarrow> string \<Rightarrow> (log_action list \<times> logs) logresult" where
  "drop_logger s name =
     (let (logger, s1) = getLogger s name
      in log_then (silent (logger_setLevel s1 logger UNKNOW)) (\<lambda>s2. silent (clearAppenders s2 logger)))"

fun conf_removed :: "log_define list \<Rightarrow> logs \<Rightarrow> log_define list \<Rightarrow> (log_action list \<times> logs) logresult" where
  "conf_removed new_value s [] = Inr ([], s)"
| "conf_removed new_value s (i # is) =
     (if set_find define_lt i new_value = None
      then log_then (drop_logger s (ld_name i)) (\<lambda>s1. conf_removed new_value s1 is)
      else conf_removed new_value s is)"

text \<open>The listener; \<open>ev\<close> is the event of its own message to the root logger.\<close>

definition on_logger_conf_changed ::
  "(string \<Rightarrow> u64 \<Rightarrow> string) \<Rightarrow> log_event \<Rightarrow> log_define list \<Rightarrow> log_define list \<Rightarrow> logs \<Rightarrow>
     (log_action list \<times> logs) logresult option" where
  "on_logger_conf_changed strftime ev old_value new_value s =
     (case log_statement strftime 2 s (m_rootLogger s) INFO ev of
        None \<Rightarrow> None
      | Some r \<Rightarrow>
          Some (log_then r (\<lambda>s1.
                log_then (conf_new old_value s1 new_value) (\<lambda>s2.
                  conf_removed new_value s2 old_value))))"

end
