(* ===== verification/Log_Pattern_Props.thy ===== *)
theory Log_Pattern_Props
  imports Log_Formatters
begin

text \<open>
  The pattern parser against the grammar of patterns: a list of literals and items, printed as a
  pattern and parsed again, gives back exactly these items; and what the parser makes of \<open>%%\<close>.
\<close>

subsection \<open>The grammar\<close>

datatype token = Lit string | Item string "string option"

fun render :: "token \<Rightarrow> string" where
  "render (Lit s) = s"
| "render (Item k None) = CHR ''%'' # k"
| "render (Item k (Some f)) = CHR ''%'' # k @ CHR ''{'' # f @ ''}''"

definition pattern_of :: "token list \<Rightarrow> string" where
  "pattern_of ts = concat (map render ts)"

fun token_fmt :: "string option \<Rightarrow> string" where
  "token_fmt None = []"
| "token_fmt (Some f) = f"

fun piece_of :: "token \<Rightarrow> piece" where
  "piece_of (Lit s) = (s, [], 0)"
| "piece_of (Item k fo) = (k, token_fmt fo, 1)"

text \<open>The character that ends an item without a format.\<close>

definition stops :: "string \<Rightarrow> bool" where
  "stops r \<longleftrightarrow> r = [] \<or> \<not> isalpha (hd r) \<and> hd r \<noteq> CHR ''{'' \<and> hd r \<noteq> CHR ''}''"

definition is_lit :: "token list \<Rightarrow> bool" where
  "is_lit ts \<longleftrightarrow> (\<exists>s ts'. ts = Lit s # ts')"

fun tokens_ok :: "token list \<Rightarrow> bool" where
  "tokens_ok [] = True"
| "tokens_ok (Lit s # ts) = (s \<noteq> [] \<and> CHR ''%'' \<notin> set s \<and> \<not> is_lit ts \<and> tokens_ok ts)"
| "tokens_ok (Item k None # ts) =
     (k \<noteq> [] \<and> list_all isalpha k \<and> stops (pattern_of ts) \<and> tokens_ok ts)"
| "tokens_ok (Item k (Some f) # ts) =
     (k \<noteq> [] \<and> list_all isalpha k \<and> CHR ''}'' \<notin> set f \<and> tokens_ok ts)"

fun token_item :: "token \<Rightarrow> format_item" where
  "token_item (Lit s) = StringItem s"
| "token_item (Item k fo) =
     (case map_of s_format_items k of
        None \<Rightarrow> StringItem (''<<error_format %'' @ k @ ''>>'')
      | Some create \<Rightarrow> create (token_fmt fo))"

fun token_known :: "token \<Rightarrow> bool" where
  "token_known (Lit s) = True"
| "token_known (Item k fo) = (map_of s_format_items k \<noteq> None)"

subsection \<open>The inner scan\<close>

lemma drop_nth:
  assumes "drop n p = c # r"
  shows "n < length p \<and> p ! n = c \<and> drop (Suc n) p = r"
proof -
  have "n < length p" using assms by (cases "n < length p") simp_all
  with Cons_nth_drop_Suc [OF this] assms show ?thesis by simp
qed

lemma drop_append: "drop n p = k @ r \<Longrightarrow> drop (n + length k) p = r"
  by (metis add.commute append_eq_conv_conj drop_drop)

lemma scan_alphas:
  assumes "drop n p = k @ r" and "list_all isalpha k" and "r \<noteq> []"
  shows "scan_item p i n 0 b [] fmt = scan_item p i (n + length k) 0 b [] fmt"
  using assms
proof (induction k arbitrary: n)
  case (Cons c k)
  then have n: "n < length p" "p ! n = c" "drop (Suc n) p = k @ r"
    using drop_nth [of n p c "k @ r"] by simp_all
  have "Suc n < length p"
    using n(3) Cons.prems(3) by (cases "Suc n < length p") simp_all
  then have "scan_item p i n 0 b [] fmt = scan_item p i (Suc n) 0 b [] fmt"
    using n Cons.prems(2) by (subst scan_item.simps) (auto simp: isalpha_def)
  with Cons.IH [OF n(3)] Cons.prems show ?case by simp
qed simp

lemma scan_alphas_end:
  assumes "drop n p = k" and "k \<noteq> []" and "list_all isalpha k"
  shows "scan_item p i n 0 b [] [] = (length p, 0, substr p (i + 1) (length p), [])"
proof -
  obtain k' c where k: "k = k' @ [c]" using assms(2) by (metis rev_exhaust)
  have "scan_item p i n 0 b [] [] = scan_item p i (n + length k') 0 b [] []"
    using assms k by (intro scan_alphas [where r = "[c]"]) auto
  moreover have last: "drop (n + length k') p = [c]"
    using drop_append [of n p k' "[c]"] assms(1) k by simp
  then have "Suc (n + length k') = length p" "p ! (n + length k') = c"
    using drop_nth [of "n + length k'" p c "[]"] by (auto simp: drop_eq_Nil2)
  then have "scan_item p i (n + length k') 0 b [] [] = scan_item p i (length p) 0 b (substr p (i + 1) (length p)) []"
    using assms(3) k by (subst scan_item.simps) (auto simp: isalpha_def)
  moreover have "scan_item p i (length p) 0 b x [] = (length p, 0, x, [])" for x
    by (subst scan_item.simps) simp
  ultimately show ?thesis by simp
qed

lemma scan_format:
  assumes "drop n p = f @ CHR ''}'' # r" and "CHR ''}'' \<notin> set f" and "str \<noteq> []"
  shows "scan_item p i n 1 b str fmt = (n + length f + 1, 0, str, substr p (b + 1) (n + length f - b - 1))"
  using assms
proof (induction f arbitrary: n)
  case Nil
  then have "n < length p" "p ! n = CHR ''}''" using drop_nth [of n p "CHR ''}''" r] by simp_all
  then show ?case by (subst scan_item.simps) simp
next
  case (Cons c f)
  then have n: "n < length p" "p ! n = c" "drop (Suc n) p = f @ CHR ''}'' # r"
    using drop_nth [of n p c "f @ CHR ''}'' # r"] by simp_all
  have "scan_item p i n 1 b str fmt = scan_item p i (Suc n) 1 b str fmt"
    using n Cons.prems by (subst scan_item.simps) auto
  with Cons.IH [OF n(3)] Cons.prems show ?case by simp
qed

text \<open>One item of the grammar, from the position after its \<open>%\<close>.\<close>

lemma scan_token:
  assumes p: "drop i p = render (Item k fo) @ r" and ok: "k \<noteq> []" "list_all isalpha k"
    and fo: "case fo of None \<Rightarrow> stops r | Some f \<Rightarrow> CHR ''}'' \<notin> set f"
  shows "scan_item p i (i + 1) 0 0 [] [] = (i + length (render (Item k fo)), 0, k, token_fmt fo)"
proof (cases fo)
  case None
  with p have d: "drop (Suc i) p = k @ r" "i < length p"
    using drop_nth [of i p "CHR ''%''" "k @ r"] by simp_all
  show ?thesis
  proof (cases r)
    case Nil
    with d have rest: "drop (Suc i) p = k" by simp
    moreover have "length p = Suc i + length k" using arg_cong [OF rest, of length] d(2) by simp
    ultimately show ?thesis
      using scan_alphas_end [of "i + 1" p k i 0] ok None by (simp add: substr_def)
  next
    case (Cons c r')
    then have stop: "\<not> isalpha c" "c \<noteq> CHR ''{''" "c \<noteq> CHR ''}''"
      using fo None by (simp_all add: stops_def)
    have "drop (Suc i + length k) p = c # r'"
      using drop_append [OF d(1)] Cons by simp
    then have n: "i + 1 + length k < length p" "p ! (i + 1 + length k) = c"
      using drop_nth [of "Suc i + length k" p c r'] by simp_all
    have "scan_item p i (i + 1) 0 0 [] [] = scan_item p i (i + 1 + length k) 0 0 [] []"
      using scan_alphas [of "i + 1" p k r i 0 "[]"] d(1) ok Cons by simp
    also have "\<dots> = (i + 1 + length k, 0, substr p (i + 1) (length k), [])"
      using n stop by (subst scan_item.simps) simp
    finally show ?thesis using d(1) None by (simp add: substr_def)
  qed
next
  case (Some f)
  with p have d: "drop (Suc i) p = k @ CHR ''{'' # f @ CHR ''}'' # r"
    using drop_nth [of i p "CHR ''%''" "k @ CHR ''{'' # f @ CHR ''}'' # r"] by simp
  let ?m = "i + 1 + length k"
  have "drop ?m p = CHR ''{'' # f @ CHR ''}'' # r"
    using drop_append [OF d] by simp
  then have m: "?m < length p" "p ! ?m = CHR ''{''" "drop (Suc ?m) p = f @ CHR ''}'' # r"
    using drop_nth [of ?m p "CHR ''{''"] by simp_all
  have "scan_item p i (i + 1) 0 0 [] [] = scan_item p i ?m 0 0 [] []"
    using scan_alphas [of "i + 1" p k "CHR ''{'' # f @ CHR ''}'' # r" i 0 "[]"] d ok by simp
  also have "\<dots> = scan_item p i (Suc ?m) 1 ?m (substr p (i + 1) (length k)) []"
    using m by (subst scan_item.simps) (simp add: isalpha_def)
  also have "substr p (i + 1) (length k) = k"
    using d by (simp add: substr_def)
  also have "scan_item p i (Suc ?m) 1 ?m k [] = (Suc ?m + length f + 1, 0, k, f)"
    using scan_format [OF m(3) _ ok(1), of i ?m "[]"] fo Some m(3) by (simp add: substr_def)
  finally show ?thesis using Some by simp
qed

subsection \<open>The outer loop\<close>

definition flush :: "string \<Rightarrow> piece list \<Rightarrow> piece list" where
  "flush nstr vec = (if nstr \<noteq> [] then vec @ [(nstr, [], 0)] else vec)"

lemma init_literal:
  assumes "drop i p = s @ r" and "CHR ''%'' \<notin> set s"
  shows "init_loop p i nstr vec e = init_loop p (i + length s) (nstr @ s) vec e"
  using assms
proof (induction s arbitrary: i nstr)
  case (Cons c s)
  then have i: "i < length p" "p ! i = c" "drop (Suc i) p = s @ r"
    using drop_nth [of i p c "s @ r"] by simp_all
  have "init_loop p i nstr vec e = init_loop p (Suc i) (nstr @ [c]) vec e"
    using i Cons.prems(2) by (subst init_loop.simps) auto
  with Cons.IH [OF i(3)] Cons.prems(2) show ?case by simp
qed simp

lemma init_end: "drop i p = [] \<Longrightarrow> init_loop p i nstr vec e = (nstr, vec, e)"
  by (subst init_loop.simps) simp

lemma isalpha_percent: "\<not> isalpha (CHR ''%'')"
  by (simp add: isalpha_def)

lemma init_item:
  assumes p: "drop i p = render (Item k fo) @ r" and ok: "k \<noteq> []" "list_all isalpha k"
    and fo: "case fo of None \<Rightarrow> stops r | Some f \<Rightarrow> CHR ''}'' \<notin> set f"
  shows "init_loop p i nstr vec e =
    init_loop p (i + length (render (Item k fo))) [] (flush nstr vec @ [(k, token_fmt fo, 1)]) e"
proof -
  obtain c k' where k: "k = c # k'" using ok(1) by (cases k) auto
  then have c: "c \<noteq> CHR ''%''" using ok(2) isalpha_percent by auto
  obtain r' where r': "render (Item k fo) @ r = CHR ''%'' # c # r'"
    using k by (cases fo) auto
  with p have i: "i < length p" "p ! i = CHR ''%''" "drop (Suc i) p = c # r'"
    using drop_nth [of i p "CHR ''%''" "c # r'"] by simp_all
  then have next_c: "p ! Suc i = c" using drop_nth [of "Suc i" p c r'] by simp
  have pos: "i + length (render (Item k fo)) \<noteq> 0" by (cases fo) simp_all
  show ?thesis
    using scan_token [OF p ok fo] i next_c c pos
    by (subst init_loop.simps) (simp add: flush_def)
qed

text \<open>What the outer loop leaves behind, with the last literal flushed.\<close>

definition finish :: "string \<times> piece list \<times> bool \<Rightarrow> piece list \<times> bool" where
  "finish x = (case x of (nstr, vec, e) \<Rightarrow> (flush nstr vec, e))"

lemma init_tokens:
  assumes "drop i p = pattern_of ts" and "tokens_ok ts" and "nstr \<noteq> [] \<Longrightarrow> \<not> is_lit ts"
  shows "finish (init_loop p i nstr vec e) = (flush nstr vec @ map piece_of ts, e)"
  using assms
proof (induction ts arbitrary: i nstr vec)
  case Nil
  then show ?case by (simp add: pattern_of_def init_end finish_def)
next
  case (Cons t ts)
  then have p: "drop i p = render t @ pattern_of ts" by (simp add: pattern_of_def)
  from drop_append [OF p] have rest: "drop (i + length (render t)) p = pattern_of ts" .
  show ?case
  proof (cases t)
    case (Lit s)
    with Cons.prems have s: "s \<noteq> []" "CHR ''%'' \<notin> set s" "\<not> is_lit ts" "tokens_ok ts" "nstr = []"
      by (auto simp: is_lit_def)
    have "init_loop p i nstr vec e = init_loop p (i + length s) s vec e"
      using init_literal [of i p s "pattern_of ts" nstr] p Lit s by simp
    with Cons.IH [of "i + length s" s vec] rest Lit s show ?thesis
      by (simp add: flush_def)
  next
    case (Item k fo)
    have ok: "k \<noteq> []" "list_all isalpha k" "tokens_ok ts"
      "case fo of None \<Rightarrow> stops (pattern_of ts) | Some f \<Rightarrow> CHR ''}'' \<notin> set f"
      using Cons.prems(2) Item by (cases fo; simp)+
    have "init_loop p i nstr vec e =
        init_loop p (i + length (render t)) [] (flush nstr vec @ [(k, token_fmt fo, 1)]) e"
      using init_item [of i p k fo "pattern_of ts"] p Item ok by simp
    with Cons.IH [of "i + length (render t)" "[]" "flush nstr vec @ [(k, token_fmt fo, 1)]"] rest ok Item
    show ?thesis by (simp add: flush_def)
  qed
qed

lemma make_items_tokens:
  "make_items (map piece_of ts) e = (map token_item ts, e \<or> \<not> list_all token_known ts)"
proof (induction ts arbitrary: e)
  case (Cons t ts)
  then show ?case by (cases t) (auto simp: Let_def split: option.splits)
qed simp

lemma make_items_literal: "s \<noteq> [] \<Longrightarrow> make_items ((s, [], 0) # vec) e =
    (StringItem s # fst (make_items vec e), snd (make_items vec e))"
  by (simp add: Let_def split_beta)

lemma LogFormatter_init_eq:
  "LogFormatter_init p = (case finish (init_loop p 0 [] [] False) of (vec, e) \<Rightarrow> make_items vec e)"
  by (simp add: LogFormatter_init_def finish_def flush_def split_beta)

text \<open>
  C26. The parser inverts the grammar of patterns. For every list of non-empty literals without \<open>%\<close>
  (no two in a row) and items \<open>%xxx\<close> or \<open>%xxx{fmt}\<close>, where an item without a format is not followed
  by a letter or a brace, the formatter made from the printed pattern has exactly the items of the
  list, in order and with their formats, and is in error exactly if one of the names is unknown.
\<close>

theorem pattern_roundtrip:
  assumes "tokens_ok ts"
  shows "m_items (new_LogFormatter (pattern_of ts)) = map token_item ts \<and>
    m_error (new_LogFormatter (pattern_of ts)) = (\<not> list_all token_known ts)"
proof -
  have "finish (init_loop (pattern_of ts) 0 [] [] False) = (map piece_of ts, False)"
    using init_tokens [OF _ assms, of 0 "pattern_of ts" "[]"] by (simp add: flush_def)
  then show ?thesis
    by (simp add: new_LogFormatter_def LogFormatter_init_eq make_items_tokens)
qed

text \<open>The pattern every logger starts with.\<close>

definition default_pattern :: string where
  "default_pattern = ''%d{%Y-%m-%d %H:%M:%S}%T%t%T%N%T%F%T[%p]%T[%c]%T%f:%l%T%m%n''"

definition default_tokens :: "token list" where
  "default_tokens =
     [Item ''d'' (Some ''%Y-%m-%d %H:%M:%S''), Item ''T'' None, Item ''t'' None, Item ''T'' None,
      Item ''N'' None, Item ''T'' None, Item ''F'' None, Item ''T'' None, Lit ''['', Item ''p'' None, Lit '']'',
      Item ''T'' None, Lit ''['', Item ''c'' None, Lit '']'', Item ''T'' None, Item ''f'' None, Lit '':'',
      Item ''l'' None, Item ''T'' None, Item ''m'' None, Item ''n'' None]"

theorem pattern_roundtrip_witness:
  "m_items (new_LogFormatter default_pattern) =
     [DateTimeItem ''%Y-%m-%d %H:%M:%S'', TabItem, ThreadIdItem, TabItem, ThreadNameItem, TabItem,
      FiberIdItem, TabItem, StringItem ''['', LevelItem, StringItem '']'', TabItem, StringItem ''['',
      NameItem, StringItem '']'', TabItem, FilenameItem, StringItem '':'', LineItem, TabItem,
      MessageItem, NewLineItem] \<and>
   \<not> m_error (new_LogFormatter default_pattern)"
proof -
  have "tokens_ok default_tokens"
    by (simp add: default_tokens_def pattern_of_def stops_def isalpha_def is_lit_def)
  moreover have "pattern_of default_tokens = default_pattern"
    by (simp add: pattern_of_def default_tokens_def default_pattern_def)
  ultimately show ?thesis
    using pattern_roundtrip [of default_tokens]
    by (simp add: default_tokens_def s_format_items_def new_DateTimeItem_def)
qed

subsection \<open>The doubled percent sign\<close>

lemma init_percent:
  assumes "drop i p = CHR ''%'' # CHR ''%'' # r"
  shows "init_loop p i nstr vec e = init_loop p (Suc i) (nstr @ ''%'') vec e"
proof -
  have i: "i < length p" "p ! i = CHR ''%''" "drop (Suc i) p = CHR ''%'' # r"
    using drop_nth [OF assms] by simp_all
  have "Suc i < length p" "p ! Suc i = CHR ''%''"
    using drop_nth [OF i(3)] by simp_all
  with i show ?thesis by (subst init_loop.simps) simp
qed

lemma init_last_percent:
  assumes "drop i p = ''%''"
  shows "finish (init_loop p i nstr vec e) = (flush nstr vec @ [([], [], 1)], e)"
proof -
  have i: "i < length p" "p ! i = CHR ''%''" "Suc i = length p"
    using drop_nth [OF assms] by (auto simp: drop_eq_Nil2)
  from i(1) have pos: "Suc (length p - Suc 0) = length p" by simp
  have "scan_item p i (Suc i) 0 0 [] [] = (Suc i, 0, [], [])"
    using i(3) by (subst scan_item.simps) simp
  with i have "init_loop p i nstr vec e = init_loop p (Suc i) [] (flush nstr vec @ [([], [], 1)]) e"
    by (subst init_loop.simps) (simp add: flush_def pos)
  with i(3) show ?thesis by (simp add: init_end finish_def flush_def)
qed

text \<open>
  \<open>%%\<close> is not an escaped percent sign, although the comment above \<open>init\<close> lists it as one: the
  first \<open>%\<close> is added to the literal, but the second is read again and starts an item. After a literal,
  \<open>%%m\<close> is a percent sign followed by the message, not the text \<open>%m\<close>; and a pattern that ends in
  \<open>%%\<close> is in error.
\<close>

lemma percent_not_escaped:
  assumes "CHR ''%'' \<notin> set s" and "tokens_ok (Item k fo # ts)"
  shows "m_items (new_LogFormatter (s @ ''%'' @ pattern_of (Item k fo # ts))) =
      StringItem (s @ ''%'') # map token_item (Item k fo # ts) \<and>
    m_items (new_LogFormatter (s @ ''%%'')) = [StringItem (s @ ''%''), StringItem ''<<error_format %>>''] \<and>
    m_error (new_LogFormatter (s @ ''%%''))"
proof -
  let ?p = "s @ ''%'' @ pattern_of (Item k fo # ts)" and ?q = "s @ ''%%''"
  obtain r where r: "pattern_of (Item k fo # ts) = CHR ''%'' # r"
    by (cases fo) (simp_all add: pattern_of_def)
  have "init_loop ?p 0 [] [] False = init_loop ?p (length s) s [] False"
    using init_literal [of 0 ?p s "''%'' @ pattern_of (Item k fo # ts)"] assms(1) by simp
  also have "\<dots> = init_loop ?p (Suc (length s)) (s @ ''%'') [] False"
    using r by (intro init_percent) simp
  finally have "finish (init_loop ?p 0 [] [] False) =
      ([(s @ ''%'', [], 0)] @ map piece_of (Item k fo # ts), False)"
    using init_tokens [of "Suc (length s)" ?p "Item k fo # ts" "s @ ''%''" "[]" False] assms(2)
    by (simp add: is_lit_def flush_def)
  then have "m_items (new_LogFormatter ?p) = StringItem (s @ ''%'') # map token_item (Item k fo # ts)"
    using make_items_tokens [of "Item k fo # ts"]
    by (simp add: new_LogFormatter_def LogFormatter_init_eq make_items_literal split_beta)
  moreover have "init_loop ?q 0 [] [] False = init_loop ?q (length s) s [] False"
    using init_literal [of 0 ?q s "''%%''"] assms(1) by simp
  then have "finish (init_loop ?q 0 [] [] False) = finish (init_loop ?q (Suc (length s)) (s @ ''%'') [] False)"
    using init_percent [of "length s" ?q "[]"] by simp
  then have "finish (init_loop ?q 0 [] [] False) = ([(s @ ''%'', [], 0), ([], [], 1)], False)"
    using init_last_percent [of "Suc (length s)" ?q "s @ ''%''" "[]" False] by (simp add: flush_def)
  then have "m_items (new_LogFormatter ?q) = [StringItem (s @ ''%''), StringItem ''<<error_format %>>'']"
    "m_error (new_LogFormatter ?q)"
    by (simp_all add: new_LogFormatter_def LogFormatter_init_eq make_items_literal s_format_items_def)
  ultimately show ?thesis by blast
qed

end
