(* ===== verification/Logger_Props.thy ===== *)
theory Logger_Props
  imports Loggers Log_Pattern_Props
begin

text \<open>
  The properties of the loggers: what reaches which appender, and the invariant that makes logging
  through any logger of the manager end without a null pointer.
\<close>

subsection \<open>What a call delivers\<close>

fun emitted :: "log_action list \<Rightarrow> (string option \<times> string) list" where
  "emitted [] = []"
| "emitted (Reopen f # acts) = emitted acts"
| "emitted (Emit target txt # acts) = (target, txt) # emitted acts"

lemma emitted_append [simp]: "emitted (xs @ ys) = emitted xs @ emitted ys"
  by (induction xs rule: emitted.induct) simp_all

definition admits :: "logs \<Rightarrow> level \<Rightarrow> ptr \<Rightarrow> bool" where
  "admits s lv a \<longleftrightarrow> (case app_heap s a of None \<Rightarrow> False | Some ap \<Rightarrow> a_level ap \<le> lv)"

definition line_of ::
  "(string \<Rightarrow> u64 \<Rightarrow> string) \<Rightarrow> logs \<Rightarrow> level \<Rightarrow> log_event \<Rightarrow> ptr \<Rightarrow> string option \<times> string" where
  "line_of strftime s lv ev a =
     (let ap = the (app_heap s a) in (a_file ap, formatter_format strftime (the (a_formatter ap)) lv ev))"

definition delivery ::
  "(string \<Rightarrow> u64 \<Rightarrow> string) \<Rightarrow> logs \<Rightarrow> ptr list \<Rightarrow> level \<Rightarrow> log_event \<Rightarrow> (string option \<times> string) list"
where
  "delivery strftime s as lv ev = map (line_of strftime s lv ev) (filter (admits s lv) as)"

text \<open>The state without the clock of the file appenders, the only thing that logging changes.\<close>

definition forget_time :: "appender \<Rightarrow> appender" where
  "forget_time a = a\<lparr>a_lastTime := 0\<rparr>"

definition core :: "logs \<Rightarrow> logs" where
  "core s = s\<lparr>app_heap := map_option forget_time \<circ> app_heap s\<rparr>"

lemma forget_time_sel [simp]:
  "a_file (forget_time a) = a_file a" "a_level (forget_time a) = a_level a"
  "a_formatter (forget_time a) = a_formatter a"
  by (simp_all add: forget_time_def)

lemma core_sel [simp]:
  "log_heap (core s) = log_heap s" "m_loggers (core s) = m_loggers s"
  "m_rootLogger (core s) = m_rootLogger s" "log_next (core s) = log_next s"
  "app_heap (core s) a = map_option forget_time (app_heap s a)"
  by (simp_all add: core_def)

lemma delivery_core: "delivery strftime (core s) as lv ev = delivery strftime s as lv ev"
  unfolding delivery_def
proof (rule map_cong)
  show "filter (admits (core s) lv) as = filter (admits s lv) as"
    by (rule filter_cong) (auto simp: admits_def split: option.splits)
next
  fix a
  assume "a \<in> set (filter (admits s lv) as)"
  then show "line_of strftime (core s) lv ev a = line_of strftime s lv ev a"
    by (auto simp: admits_def line_of_def split: option.splits)
qed

definition has_formatter :: "logs \<Rightarrow> ptr \<Rightarrow> bool" where
  "has_formatter s a \<longleftrightarrow> (\<exists>ap f. app_heap s a = Some ap \<and> a_formatter ap = Some f)"

lemma has_formatter_core: "has_formatter (core s) a = has_formatter s a"
  by (auto simp: has_formatter_def)

lemma appender_log_spec:
  assumes "a_formatter ap = Some f"
  shows "\<exists>acts ap'. appender_log strftime ap lv ev = Inr (acts, ap') \<and> forget_time ap' = forget_time ap \<and>
    emitted acts = (if a_level ap \<le> lv then [(a_file ap, formatter_format strftime f lv ev)] else [])"
  using assms by (cases "a_file ap") (auto simp: appender_log_def Let_def forget_time_def)

lemma core_store:
  assumes "app_heap s a = Some ap" and "forget_time ap' = forget_time ap"
  shows "core (s\<lparr>app_heap := (app_heap s)(a \<mapsto> ap')\<rparr>) = core s"
  using assms by (auto simp: core_def fun_eq_iff)

lemma appenders_log_spec:
  assumes "\<forall>a \<in> set as. has_formatter s a"
  shows "\<exists>acts s'. appenders_log strftime s as lv ev = Inr (acts, s') \<and> core s' = core s \<and>
    emitted acts = delivery strftime s as lv ev"
  using assms
proof (induction as arbitrary: s)
  case Nil
  then show ?case by (simp add: delivery_def)
next
  case (Cons a as)
  then obtain ap f where ap: "app_heap s a = Some ap" "a_formatter ap = Some f"
    by (auto simp: has_formatter_def)
  from appender_log_spec [OF ap(2)] obtain acts ap' where l: "appender_log strftime ap lv ev = Inr (acts, ap')"
    "forget_time ap' = forget_time ap"
    "emitted acts = (if a_level ap \<le> lv then [(a_file ap, formatter_format strftime f lv ev)] else [])"
    by blast
  let ?s = "s\<lparr>app_heap := (app_heap s)(a \<mapsto> ap')\<rparr>"
  have core: "core ?s = core s" by (rule core_store [OF ap(1) l(2)])
  then have "\<forall>b \<in> set as. has_formatter ?s b"
    using Cons.prems has_formatter_core by (metis list.set_intros(2))
  from Cons.IH [OF this] obtain acts' s' where r: "appenders_log strftime ?s as lv ev = Inr (acts', s')"
    "core s' = core ?s" "emitted acts' = delivery strftime ?s as lv ev" by blast
  have "delivery strftime ?s as lv ev = delivery strftime s as lv ev"
    using delivery_core core by metis
  moreover have "delivery strftime s (a # as) lv ev = emitted acts @ delivery strftime s as lv ev"
    using ap l(3) by (simp add: delivery_def admits_def line_of_def)
  ultimately show ?case
    using ap(1) l(1) r core by simp
qed

subsection \<open>The invariant of the manager\<close>

definition logger_ok :: "logs \<Rightarrow> logger \<Rightarrow> bool" where
  "logger_ok s l \<longleftrightarrow> l_formatter l \<noteq> None \<and> (\<forall>a \<in> set (l_appenders l). has_formatter s a) \<and>
     (\<forall>r. l_root l = Some r \<longrightarrow> r = m_rootLogger s)"

definition log_inv :: "logs \<Rightarrow> bool" where
  "log_inv s \<longleftrightarrow>
     (\<forall>p l. log_heap s p = Some l \<longrightarrow> logger_ok s l) \<and>
     (\<exists>l. log_heap s (m_rootLogger s) = Some l \<and> l_root l = None) \<and>
     (\<forall>n p. map_of (m_loggers s) n = Some p \<longrightarrow> (\<exists>l. log_heap s p = Some l \<and> l_name l = n)) \<and>
     map_sorted (m_loggers s) \<and>
     dom (log_heap s) \<subseteq> {..<log_next s} \<and> dom (app_heap s) \<subseteq> {..<log_next s}"

lemma log_inv_logger: "log_inv s \<Longrightarrow> log_heap s p = Some l \<Longrightarrow> logger_ok s l"
  by (simp add: log_inv_def)

lemma dom_core: "dom (app_heap (core s)) = dom (app_heap s)"
  by (auto simp: core_def)

lemma log_inv_core: "log_inv (core s) = log_inv s"
  unfolding log_inv_def logger_ok_def dom_core by (simp add: has_formatter_core)

text \<open>Replacing one logger, and replacing one appender.\<close>

lemma log_inv_put:
  assumes "log_inv s" and "log_heap s p = Some l" and "logger_ok s l'"
    and "l_name l' = l_name l" and "l_root l' = l_root l"
  shows "log_inv (put_logger s p l')"
proof -
  have "\<exists>k. ((log_heap s)(p \<mapsto> l')) q = Some k \<and> l_name k = n" if "map_of (m_loggers s) n = Some q" for n q
    using assms that unfolding log_inv_def by (cases "q = p") fastforce+
  moreover have "logger_ok (put_logger s p l') k" if "((log_heap s)(p \<mapsto> l')) q = Some k" for q k
  proof -
    from that assms(1,3) have "logger_ok s k" by (cases "q = p") (auto simp: log_inv_def)
    then show ?thesis by (simp add: logger_ok_def has_formatter_def put_logger_def)
  qed
  moreover have "\<exists>k. ((log_heap s)(p \<mapsto> l')) (m_rootLogger s) = Some k \<and> l_root k = None"
    using assms unfolding log_inv_def by (cases "m_rootLogger s = p") auto
  moreover have "dom ((log_heap s)(p \<mapsto> l')) = dom (log_heap s)" using assms(2) by auto
  ultimately show ?thesis
    using assms(1) unfolding log_inv_def by (simp add: put_logger_def)
qed

lemma log_inv_appender:
  assumes "log_inv s" and "app_heap s a = Some ap" and "a_formatter ap' \<noteq> None \<or> a_formatter ap = None"
  shows "log_inv (s\<lparr>app_heap := (app_heap s)(a \<mapsto> ap')\<rparr>)"
proof -
  have "has_formatter (s\<lparr>app_heap := (app_heap s)(a \<mapsto> ap')\<rparr>) b" if "has_formatter s b" for b
    using that assms(2,3) by (cases "b = a") (auto simp: has_formatter_def)
  with assms show ?thesis
    unfolding log_inv_def logger_ok_def by (auto simp: insert_absorb)
qed

lemma appender_setFormatter_inv:
  assumes "log_inv s" and "appender_setFormatter s a (Some f) = Inr s'"
  shows "log_inv s' \<and> log_heap s' = log_heap s \<and> m_rootLogger s' = m_rootLogger s"
  using assms log_inv_appender [OF assms(1), of a]
  by (auto simp: appender_setFormatter_def split: option.splits)

lemma set_formatters_inv:
  "log_inv s \<Longrightarrow> set_formatters s as (Some f) = Inr s' \<Longrightarrow>
     log_inv s' \<and> log_heap s' = log_heap s \<and> m_rootLogger s' = m_rootLogger s"
proof (induction as arbitrary: s)
  case (Cons a as)
  then obtain s1 where s1: "appender_setFormatter s a (Some f) = Inr s1" "set_formatters s1 as (Some f) = Inr s'"
    by (auto split: sum.splits)
  from appender_setFormatter_inv [OF Cons.prems(1) s1(1)] Cons.IH [OF _ s1(2)] show ?case by simp
qed simp

lemma addAppender_inv:
  assumes inv: "log_inv s" and res: "addAppender s p a = Inr s'"
  shows "log_inv s'"
proof -
  from res obtain l ap where l: "log_heap s p = Some l" and ap: "app_heap s a = Some ap"
    by (auto simp: addAppender_def split: option.splits)
  obtain f where f: "l_formatter l = Some f"
    using log_inv_logger [OF inv l] by (auto simp: logger_ok_def)
  define s1 where "s1 = (if a_formatter ap = None
      then s\<lparr>app_heap := (app_heap s)(a \<mapsto> ap\<lparr>a_formatter := Some f\<rparr>)\<rparr> else s)"
  have s': "s' = put_logger s1 p (l\<lparr>l_appenders := l_appenders l @ [a]\<rparr>)"
    using res l ap f by (auto simp: addAppender_def appender_setFormatter_def s1_def split: if_splits)
  have inv1: "log_inv s1"
    using log_inv_appender [OF inv ap, of "ap\<lparr>a_formatter := Some f\<rparr>"] inv by (simp add: s1_def)
  have l1: "log_heap s1 p = Some l" using l by (simp add: s1_def)
  have "has_formatter s1 a"
    using ap by (auto simp: has_formatter_def s1_def)
  with log_inv_logger [OF inv1 l1] have "logger_ok s1 (l\<lparr>l_appenders := l_appenders l @ [a]\<rparr>)"
    by (auto simp: logger_ok_def)
  from log_inv_put [OF inv1 l1 this] show ?thesis by (simp add: s')
qed

lemma logger_setFormatter_inv:
  assumes inv: "log_inv s" and res: "logger_setFormatter s p (Some f) = Inr s'"
  shows "log_inv s'"
proof -
  from res obtain l where l: "log_heap s p = Some l"
    and r: "set_formatters (put_logger s p (l\<lparr>l_formatter := Some f\<rparr>)) (l_appenders l) (Some f) = Inr s'"
    by (auto simp: logger_setFormatter_def split: option.splits)
  have "logger_ok s (l\<lparr>l_formatter := Some f\<rparr>)"
    using log_inv_logger [OF inv l] by (simp add: logger_ok_def)
  from log_inv_put [OF inv l this] have "log_inv (put_logger s p (l\<lparr>l_formatter := Some f\<rparr>))" by simp
  with set_formatters_inv [OF _ r] show ?thesis by blast
qed

lemma logger_update_inv:
  assumes inv: "log_inv s" and res: "with_logger s p (\<lambda>l. Inr (put_logger s p (g l))) = Inr s'"
    and g: "\<And>l. logger_ok s l \<Longrightarrow> logger_ok s (g l)" "\<And>l. l_name (g l) = l_name l" "\<And>l. l_root (g l) = l_root l"
  shows "log_inv s'"
proof -
  from res obtain l where l: "log_heap s p = Some l" "s' = put_logger s p (g l)"
    by (auto split: option.splits)
  with log_inv_put [OF inv l(1) g(1) [OF log_inv_logger [OF inv l(1)]] g(2,3)] show ?thesis by simp
qed

lemma dom_less_fresh: "dom h \<subseteq> {..<n} \<Longrightarrow> h (n :: nat) = None"
  by auto

lemma log_inv_new_logger:
  assumes inv: "log_inv s" and l: "logger_ok s l" and name: "map_of (m_loggers s) (l_name l) = None"
  shows "log_inv ((snd (alloc_logger s l))\<lparr>m_loggers := map_put (l_name l) (log_next s) (m_loggers s)\<rparr>)"
proof -
  have fresh: "log_heap s (log_next s) = None"
    using inv unfolding log_inv_def by (intro dom_less_fresh) simp
  have root: "m_rootLogger s \<noteq> log_next s"
    using inv fresh unfolding log_inv_def by auto
  have "\<exists>k. ((log_heap s)(log_next s \<mapsto> l)) q = Some k \<and> l_name k = n"
    if "((map_of (m_loggers s))(l_name l \<mapsto> log_next s)) n = Some q" for n q
  proof (cases "n = l_name l")
    case True
    with that show ?thesis by simp
  next
    case False
    with that have "map_of (m_loggers s) n = Some q" by simp
    with inv obtain k where "log_heap s q = Some k" "l_name k = n"
      unfolding log_inv_def by blast
    with fresh show ?thesis by (cases "q = log_next s") auto
  qed
  moreover have "dom (app_heap s) \<subseteq> {..<Suc (log_next s)}" "dom (log_heap s) \<subseteq> {..<Suc (log_next s)}"
    using inv unfolding log_inv_def by auto
  ultimately show ?thesis
    using inv l root unfolding log_inv_def logger_ok_def has_formatter_def
    by (simp add: alloc_logger_def map_sorted_put)
qed

lemma getLogger_inv: "log_inv s \<Longrightarrow> log_inv (snd (getLogger s name))"
proof (cases "map_of (m_loggers s) name")
  case None
  assume inv: "log_inv s"
  let ?l = "(new_Logger name)\<lparr>l_root := Some (m_rootLogger s)\<rparr>"
  have "logger_ok s ?l" by (simp add: logger_ok_def new_Logger_def)
  from log_inv_new_logger [OF inv this] None show ?thesis
    by (simp add: getLogger_def Let_def split_beta alloc_logger_def new_Logger_def)
qed (simp add: getLogger_def)

lemma alloc_appender_inv:
  assumes inv: "log_inv s"
  shows "log_inv (snd (alloc_appender s a))"
proof -
  have "app_heap s (log_next s) = None"
    using inv unfolding log_inv_def by (intro dom_less_fresh) simp
  then have "has_formatter (snd (alloc_appender s a)) b" if "has_formatter s b" for b
    using that by (auto simp: has_formatter_def alloc_appender_def)
  moreover have "dom (app_heap s) \<subseteq> {..<Suc (log_next s)}" "dom (log_heap s) \<subseteq> {..<Suc (log_next s)}"
    using inv unfolding log_inv_def by auto
  ultimately show ?thesis
    using inv unfolding log_inv_def logger_ok_def by (auto simp: alloc_appender_def)
qed

subsection \<open>Every sequence of calls\<close>

inductive log_step :: "(string \<Rightarrow> u64 \<Rightarrow> string) \<Rightarrow> logs \<Rightarrow> logs \<Rightarrow> bool" for strftime where
  get: "log_step strftime s (snd (getLogger s name))"
| new_stdout: "log_step strftime s (snd (alloc_appender s new_StdoutLogAppender))"
| new_file: "log_step strftime s (snd (alloc_appender s (fst (new_FileLogAppender filename))))"
| add: "addAppender s p a = Inr s' \<Longrightarrow> log_step strftime s s'"
| del: "delAppender s p a = Inr s' \<Longrightarrow> log_step strftime s s'"
| clear: "clearAppenders s p = Inr s' \<Longrightarrow> log_step strftime s s'"
| level: "logger_setLevel s p lv = Inr s' \<Longrightarrow> log_step strftime s s'"
| app_level: "appender_setLevel s a lv = Inr s' \<Longrightarrow> log_step strftime s s'"
| formatter: "logger_setFormatter s p (Some f) = Inr s' \<Longrightarrow> log_step strftime s s'"
| pattern: "logger_setPattern s p str = Inr s' \<Longrightarrow> log_step strftime s s'"
| app_formatter: "appender_setFormatter s a (Some f) = Inr s' \<Longrightarrow> log_step strftime s s'"
| log: "log_statement strftime n s p lv ev = Some (Inr (acts, s')) \<Longrightarrow> log_step strftime s s'"

text \<open>What one call of \<open>Logger::log\<close> delivers, with the fallback to the root logger.\<close>

definition delivered ::
  "(string \<Rightarrow> u64 \<Rightarrow> string) \<Rightarrow> logs \<Rightarrow> logger \<Rightarrow> level \<Rightarrow> log_event \<Rightarrow> (string option \<times> string) list"
where
  "delivered strftime s l lv ev =
     (if lv < l_level l then []
      else if l_appenders l \<noteq> [] then delivery strftime s (l_appenders l) lv ev
      else case l_root l of
             None \<Rightarrow> []
           | Some r \<Rightarrow> (let root = the (log_heap s r)
                       in if lv < l_level root then [] else delivery strftime s (l_appenders root) lv ev))"

lemma logger_log_own:
  assumes inv: "log_inv s" and l: "log_heap s p = Some l" and own: "l_appenders l \<noteq> [] \<or> l_root l = None \<or> lv < l_level l"
  shows "\<exists>acts s'. logger_log strftime (Suc n) s p lv ev = Some (Inr (acts, s')) \<and> core s' = core s \<and>
    emitted acts = (if lv < l_level l then [] else delivery strftime s (l_appenders l) lv ev)"
proof -
  have "\<forall>a \<in> set (l_appenders l). has_formatter s a"
    using log_inv_logger [OF inv l] by (simp add: logger_ok_def)
  note spec = appenders_log_spec [OF this, of strftime lv ev]
  consider "lv < l_level l" | "\<not> lv < l_level l" "l_appenders l \<noteq> []"
    | "\<not> lv < l_level l" "l_appenders l = []" "l_root l = None"
    using own by argo
  then show ?thesis
  proof cases
    case 1
    then have "\<not> l_level l \<le> lv" by (simp add: not_le)
    then have "logger_log strftime (Suc n) s p lv ev = Some (Inr ([], s))" using l by simp
    with 1 show ?thesis by simp
  next
    case 2
    then have "logger_log strftime (Suc n) s p lv ev = Some (appenders_log strftime s (l_appenders l) lv ev)"
      using l by (simp add: not_less)
    with 2 spec show ?thesis by auto
  next
    case 3
    then have "logger_log strftime (Suc n) s p lv ev = Some (Inr ([], s))" using l by (simp add: not_less)
    with 3 show ?thesis by (simp add: delivery_def)
  qed
qed

lemma logger_log_spec:
  assumes inv: "log_inv s" and l: "log_heap s p = Some l"
  shows "\<exists>acts s'. logger_log strftime 2 s p lv ev = Some (Inr (acts, s')) \<and> core s' = core s \<and>
    emitted acts = delivered strftime s l lv ev"
proof (cases "l_appenders l \<noteq> [] \<or> l_root l = None \<or> lv < l_level l")
  case True
  then have "delivered strftime s l lv ev =
      (if lv < l_level l then [] else delivery strftime s (l_appenders l) lv ev)"
    by (auto simp: delivered_def delivery_def)
  with logger_log_own [OF inv l True, of strftime "Suc 0" ev] show ?thesis
    by (simp only: numeral_2_eq_2)
next
  case False
  then have fallback: "l_appenders l = []" "l_root l = Some (m_rootLogger s)" "\<not> lv < l_level l"
    using log_inv_logger [OF inv l] by (auto simp: logger_ok_def)
  from inv obtain r where r: "log_heap s (m_rootLogger s) = Some r" "l_root r = None"
    unfolding log_inv_def by blast
  from logger_log_own [OF inv r(1), of lv strftime 0 ev] r(2) obtain acts s'
    where "logger_log strftime (Suc 0) s (m_rootLogger s) lv ev = Some (Inr (acts, s'))" "core s' = core s"
      "emitted acts = (if lv < l_level r then [] else delivery strftime s (l_appenders r) lv ev)"
    by blast
  moreover have "logger_log strftime 2 s p lv ev = logger_log strftime (Suc 0) s (m_rootLogger s) lv ev"
    using fallback l by (simp only: numeral_2_eq_2 logger_log.simps) (simp add: not_less)
  moreover have "delivered strftime s l lv ev =
      (if lv < l_level r then [] else delivery strftime s (l_appenders r) lv ev)"
    using fallback r(1) by (simp add: delivered_def)
  ultimately show ?thesis by simp
qed

lemma appenders_log_inv:
  "log_inv s \<Longrightarrow> appenders_log strftime s as lv ev = Inr (acts, s') \<Longrightarrow> core s' = core s"
proof (induction as arbitrary: s acts)
  case (Cons a as)
  then obtain ap ap' acts1 acts2 where ap: "app_heap s a = Some ap"
    and l: "appender_log strftime ap lv ev = Inr (acts1, ap')"
    and r: "appenders_log strftime (s\<lparr>app_heap := (app_heap s)(a \<mapsto> ap')\<rparr>) as lv ev = Inr (acts2, s')"
    by (auto split: option.splits sum.splits)
  have "forget_time ap' = forget_time ap"
    using l by (auto simp: appender_log_def Let_def forget_time_def split: option.splits if_splits)
  note core = core_store [OF ap this]
  then have "log_inv (s\<lparr>app_heap := (app_heap s)(a \<mapsto> ap')\<rparr>)"
    using Cons.prems(1) log_inv_core by metis
  from Cons.IH [OF this r] core show ?case by simp
qed simp

lemma logger_log_core:
  "log_inv s \<Longrightarrow> logger_log strftime n s p lv ev = Some (Inr (acts, s')) \<Longrightarrow> core s' = core s"
proof (induction n arbitrary: p)
  case (Suc n)
  then show ?case
    by (auto split: option.splits if_splits dest: appenders_log_inv)
qed simp

lemma log_step_inv: "log_step strftime s s' \<Longrightarrow> log_inv s \<Longrightarrow> log_inv s'"
proof (induction rule: log_step.induct)
  case (del s p a s')
  then show ?case
    by (intro logger_update_inv [OF del.prems del.hyps [unfolded delAppender_def]])
       (auto simp: logger_ok_def dest: notin_set_remove1)
next
  case (clear s p s')
  then show ?case
    by (intro logger_update_inv [OF clear.prems clear.hyps [unfolded clearAppenders_def]])
       (auto simp: logger_ok_def)
next
  case (level s p lv s')
  then show ?case
    by (intro logger_update_inv [OF level.prems level.hyps [unfolded logger_setLevel_def]])
       (auto simp: logger_ok_def)
next
  case (app_level s a lv s')
  then show ?case
    by (auto simp: appender_setLevel_def split: option.splits intro!: log_inv_appender)
next
  case (pattern s p str s')
  then show ?case
    by (auto simp: logger_setPattern_def Let_def split: if_splits intro: logger_setFormatter_inv)
next
  case (log n s p lv ev acts s')
  then have "core s' = core s"
    by (auto simp: log_statement_def split: option.splits if_splits dest: logger_log_core)
  with log.prems log_inv_core show ?case by metis
qed (auto intro: getLogger_inv alloc_appender_inv addAppender_inv logger_setFormatter_inv
       dest: appender_setFormatter_inv)

definition fresh_logs :: logs where
  "fresh_logs =
     (let f = new_LogFormatter logger_pattern
      in \<lparr>app_heap = [1 \<mapsto> new_StdoutLogAppender\<lparr>a_formatter := Some f\<rparr>],
          log_heap = [0 \<mapsto> (new_Logger ''root'')\<lparr>l_appenders := [1]\<rparr>],
          m_loggers = [(''root'', 0)], m_rootLogger = 0, log_next = 2\<rparr>)"

lemma LoggerManager_ctor_eq: "LoggerManager_ctor = Inr fresh_logs"
  by (simp add: LoggerManager_ctor_def alloc_logger_def alloc_appender_def addAppender_def
      appender_setFormatter_def put_logger_def new_StdoutLogAppender_def new_Logger_def fresh_logs_def Let_def)

lemma fresh_logs_inv: "log_inv fresh_logs"
  by (auto simp: log_inv_def logger_ok_def has_formatter_def fresh_logs_def new_Logger_def Let_def map_sorted_def
      new_StdoutLogAppender_def split: if_splits)

interpretation logs_inv: transition_inv "\<lambda>s. LoggerManager_ctor = Inr s" "log_step strftime" log_inv for strftime
  by unfold_locales (auto simp: LoggerManager_ctor_eq fresh_logs_inv intro: log_step_inv)

text \<open>An event for the examples.\<close>

definition sample_event :: log_event where
  "sample_event = \<lparr>e_file = ''a.cpp'', e_line = 7, e_elapse = 0, e_threadId = 1, e_fiberId = 0,
     e_time = 10, e_threadName = ''main'', e_content = ''hello'', e_loggerName = ''root'', e_level = INFO\<rparr>"

end
