(* ===== verification/Config_Cast_Props.thy ===== *)
theory Config_Cast_Props
  imports Config_Casts Yaml_Tree
begin

text \<open>
  The properties of the container casts: a value written to YAML text and read back is the value,
  for every container and so for containers nested in containers.
\<close>

text \<open>
  A cast pair is good at a value when the text it writes is read back as the value, both directly
  and after the text went through a YAML node, which is how a container handles its elements.
\<close>

definition cast_ok :: "'n yaml \<Rightarrow> 'a to_str \<Rightarrow> 'a from_str \<Rightarrow> 'a \<Rightarrow> bool" where
  "cast_ok Y to from x \<longleftrightarrow>
     (\<exists>s n. to x = Inr s \<and> from s = Inr x \<and> y_Load Y s = Inr n \<and> y_IsDefined Y n \<and>
        from (y_dump Y n) = Inr x)"

definition node_of :: "'n yaml \<Rightarrow> 'a from_str \<Rightarrow> 'a \<Rightarrow> 'n \<Rightarrow> bool" where
  "node_of Y from x n \<longleftrightarrow> y_IsDefined Y n \<and> from (y_dump Y n) = Inr x"

lemma cast_ok_node:
  "cast_ok Y to from x \<Longrightarrow> \<exists>s n. to x = Inr s \<and> y_Load Y s = Inr n \<and> node_of Y from x n"
  unfolding cast_ok_def node_of_def by blast

text \<open>A container that dumps a node built from its elements is good if it reads that node back.\<close>

lemma cast_ok_dump:
  assumes "yaml_laws Y" and "to v = Inr (y_dump Y n)" and "y_IsDefined Y n" and "from (y_dump Y n) = Inr v"
  shows "cast_ok Y to from v"
  using assms yaml_load_dump [OF assms(1,3)] unfolding cast_ok_def by blast

lemma push_elements_ok:
  "\<forall>x \<in> set xs. cast_ok Y to from x \<Longrightarrow>
     \<exists>ns. push_elements Y to node xs = Inr (foldl (y_push_back Y) node ns) \<and> list_all2 (node_of Y from) xs ns"
proof (induction xs arbitrary: node)
  case (Cons x xs)
  obtain s n where x: "to x = Inr s" "y_Load Y s = Inr n" "node_of Y from x n"
    using cast_ok_node [of Y to "from" x] Cons.prems by auto
  from Cons.IH [of "y_push_back Y node n"] Cons.prems obtain ns where
    "push_elements Y to (y_push_back Y node n) xs = Inr (foldl (y_push_back Y) (y_push_back Y node n) ns)"
    "list_all2 (node_of Y from) xs ns" by auto
  with x show ?case by (intro exI [of _ "n # ns"]) simp
qed simp

lemma read_elements_ok:
  "list_all2 (node_of Y from) xs (map (y_at Y node) is) \<Longrightarrow> read_elements Y from node is = Inr xs"
  by (induction "is" arbitrary: xs) (auto simp: list_all2_Cons2 node_of_def)

lemma list_all2_defined: "list_all2 (node_of Y from) xs ns \<Longrightarrow> \<forall>n \<in> set ns. y_IsDefined Y n"
  by (auto simp: list_all2_conv_all_nth node_of_def in_set_conv_nth)

text \<open>The sequence containers differ only in what they do with the elements.\<close>

lemma sequence_cast:
  assumes laws: "yaml_laws Y" and ok: "\<forall>x \<in> set xs. cast_ok Y to from x"
  shows "\<exists>node. push_elements Y to (y_node Y) xs = Inr node \<and> y_IsDefined Y node \<and>
    read_elements Y from node [0..<y_size Y node] = Inr xs"
proof -
  from push_elements_ok [OF ok, of "y_node Y"] obtain ns where
    ns: "push_elements Y to (y_node Y) xs = Inr (seq_node Y ns)" "list_all2 (node_of Y from) xs ns"
    by (auto simp: seq_node_def)
  note seq = yaml_seq [OF laws list_all2_defined [OF ns(2)]]
  have "read_elements Y from (seq_node Y ns) [0..<y_size Y (seq_node Y ns)] = Inr xs"
    using ns(2) seq by (intro read_elements_ok) simp
  with ns(1) seq(1) show ?thesis by blast
qed

lemma vector_cast_ok:
  assumes "yaml_laws Y" and "\<forall>x \<in> set v. cast_ok Y to from x"
  shows "cast_ok Y (vector_to Y to) (vector_from Y from) v"
    and "cast_ok Y (list_to Y to) (list_from Y from) v"
proof -
  from sequence_cast [OF assms] obtain node where node: "push_elements Y to (y_node Y) v = Inr node"
    "y_IsDefined Y node" "read_elements Y from node [0..<y_size Y node] = Inr v" by blast
  from node show "cast_ok Y (vector_to Y to) (vector_from Y from) v"
    by (intro cast_ok_dump [OF assms(1) _ node(2)])
      (auto simp: vector_to_def vector_from_def yaml_load_dump [OF assms(1)])
  from node show "cast_ok Y (list_to Y to) (list_from Y from) v"
    by (intro cast_ok_dump [OF assms(1) _ node(2)])
      (auto simp: list_to_def list_from_def yaml_load_dump [OF assms(1)])
qed

lemma set_insert_rebuild:
  "sorted_wrt lt (acc @ xs) \<Longrightarrow> fold (\<lambda>x s. fst (set_insert lt x s)) xs acc = acc @ xs"
proof (induction xs arbitrary: acc)
  case (Cons x xs)
  have tw: "takeWhile (\<lambda>y. lt y x) acc = acc"
    using Cons.prems by (auto simp: sorted_wrt_append takeWhile_eq_all_conv)
  then have "fst (set_insert lt x acc) = acc @ [x]"
    unfolding set_insert_def lower_bound_def tw by simp
  with Cons.IH [of "acc @ [x]"] Cons.prems show ?case by simp
qed simp

lemma set_cast_ok:
  assumes "yaml_laws Y" and "\<forall>x \<in> set v. cast_ok Y to from x" and "sorted_wrt lt v"
  shows "cast_ok Y (set_to Y to) (set_from lt Y from) v"
proof -
  from sequence_cast [OF assms(1,2)] obtain node where node: "push_elements Y to (y_node Y) v = Inr node"
    "y_IsDefined Y node" "read_elements Y from node [0..<y_size Y node] = Inr v" by blast
  with set_insert_rebuild [of lt "[]" v] assms(3) show ?thesis
    by (intro cast_ok_dump [OF assms(1) _ node(2)])
      (auto simp: set_to_def set_from_def yaml_load_dump [OF assms(1)])
qed

lemma unordered_set_cast_ok:
  assumes "yaml_laws Y" and "\<forall>x \<in> v. cast_ok Y to from x" and "set (iter v) = v"
  shows "cast_ok Y (unordered_set_to iter Y to) (unordered_set_from Y from) v"
proof -
  have "\<forall>x \<in> set (iter v). cast_ok Y to from x" using assms(2,3) by simp
  from sequence_cast [OF assms(1) this] obtain node where
    node: "push_elements Y to (y_node Y) (iter v) = Inr node"
    "y_IsDefined Y node" "read_elements Y from node [0..<y_size Y node] = Inr (iter v)" by blast
  have "fold insert (iter v) {} = v"
    using assms(3) by (simp add: union_set_fold [symmetric])
  with node show ?thesis
    by (intro cast_ok_dump [OF assms(1) _ node(2)])
      (auto simp: unordered_set_to_def unordered_set_from_def yaml_load_dump [OF assms(1)])
qed

lemma put_entries_ok:
  "\<forall>x \<in> snd ` set es. cast_ok Y to from x \<Longrightarrow>
     \<exists>kvs. put_entries Y to node es = Inr (put_all Y node kvs) \<and> map fst kvs = map fst es \<and>
       list_all2 (node_of Y from) (map snd es) (map snd kvs)"
proof (induction es arbitrary: node)
  case (Cons e es)
  obtain k x where e: "e = (k, x)" by fastforce
  obtain s n where x: "to x = Inr s" "y_Load Y s = Inr n" "node_of Y from x n"
    using cast_ok_node [of Y to "from" x] Cons.prems e by auto
  from Cons.IH [of "y_put Y node k n"] Cons.prems obtain kvs where
    "put_entries Y to (y_put Y node k n) es = Inr (put_all Y (y_put Y node k n) kvs)"
    "map fst kvs = map fst es" "list_all2 (node_of Y from) (map snd es) (map snd kvs)" by auto
  with x e show ?case by (intro exI [of _ "(k, n) # kvs"]) (simp add: put_all_def)
qed (auto simp: put_all_def)

lemma read_entries_ok:
  assumes "yaml_laws Y"
  shows "map fst kvs = map fst es \<Longrightarrow> list_all2 (node_of Y from) (map snd es) (map snd kvs) \<Longrightarrow>
    read_entries Y from (map (\<lambda>(k, v). (y_scalar_node Y k, v)) kvs) = Inr es"
proof (induction kvs arbitrary: es)
  case (Cons e kvs)
  then obtain e' es' where es: "es = e' # es'" by (cases es) auto
  with Cons.prems have "read_entries Y from (map (\<lambda>(k, v). (y_scalar_node Y k, v)) kvs) = Inr es'"
    by (intro Cons.IH) simp_all
  with Cons.prems es show ?case
    by (cases e; cases e') (simp add: node_of_def yaml_scalar [OF assms])
qed simp

lemma entries_cast:
  assumes laws: "yaml_laws Y" and ok: "\<forall>x \<in> snd ` set es. cast_ok Y to from x" and dist: "distinct (map fst es)"
  shows "\<exists>node. put_entries Y to (y_map_node Y) es = Inr node \<and> y_IsDefined Y node \<and>
    read_entries Y from (y_entries Y node) = Inr es"
proof -
  from put_entries_ok [OF ok, of "y_map_node Y"] obtain kvs where
    kvs: "put_entries Y to (y_map_node Y) es = Inr (put_all Y (y_map_node Y) kvs)"
    "map fst kvs = map fst es" "list_all2 (node_of Y from) (map snd es) (map snd kvs)" by blast
  have "\<forall>e \<in> set kvs. y_IsDefined Y (snd e)"
    using list_all2_defined [OF kvs(3)] by simp
  moreover have "distinct (map fst kvs)" using dist by (simp only: kvs(2))
  ultimately have node: "y_IsDefined Y (put_all Y (y_map_node Y) kvs)"
    "y_entries Y (put_all Y (y_map_node Y) kvs) = map (\<lambda>(k, v). (y_scalar_node Y k, v)) kvs"
    using yaml_map [OF laws] by blast+
  with read_entries_ok [OF laws kvs(2,3)] kvs(1) show ?thesis by (intro exI conjI) auto
qed

lemma map_cast_ok:
  assumes "yaml_laws Y" and "\<forall>x \<in> snd ` set m. cast_ok Y to from x" and "map_sorted m"
  shows "cast_ok Y (map_to Y to) (map_from Y from) m"
proof -
  from entries_cast [OF assms(1,2) map_sorted_distinct [OF assms(3)]] obtain node where
    node: "put_entries Y to (y_map_node Y) m = Inr node" "y_IsDefined Y node"
    "read_entries Y from (y_entries Y node) = Inr m" by blast
  with map_insert_rebuild [OF assms(3), of "[]"] show ?thesis
    by (intro cast_ok_dump [OF assms(1) _ node(2)])
      (auto simp: map_to_def map_from_def yaml_load_dump [OF assms(1)])
qed

lemma fold_new_keys:
  "distinct (map fst es) \<Longrightarrow> \<forall>k \<in> fst ` set es. m0 k = None \<Longrightarrow>
     fold (\<lambda>(k, x) m. if m k = None then m(k \<mapsto> x) else m) es m0 = m0 ++ map_of es"
proof (induction es arbitrary: m0)
  case (Cons e es)
  obtain k x where e: "e = (k, x)" by fastforce
  have "fold (\<lambda>(k, x) m. if m k = None then m(k \<mapsto> x) else m) es (m0(k \<mapsto> x)) = (m0(k \<mapsto> x)) ++ map_of es"
    using Cons.prems e by (intro Cons.IH) auto
  moreover have "map_of es k = None"
    using Cons.prems(1) e by (simp add: map_of_eq_None_iff)
  ultimately show ?case
    using Cons.prems e by (auto simp: fun_eq_iff map_add_def split: option.splits)
qed simp

lemma unordered_map_cast_ok:
  assumes "yaml_laws Y" and "\<forall>x \<in> ran m. cast_ok Y to from x"
    and "map_of (iter m) = m" and "distinct (map fst (iter m))"
  shows "cast_ok Y (unordered_map_to iter Y to) (unordered_map_from Y from) m"
proof -
  have "snd ` set (iter m) = ran m"
    using ran_distinct [OF assms(4)] assms(3) by simp
  then have "\<forall>x \<in> snd ` set (iter m). cast_ok Y to from x" using assms(2) by simp
  from entries_cast [OF assms(1) this assms(4)] obtain node where
    node: "put_entries Y to (y_map_node Y) (iter m) = Inr node" "y_IsDefined Y node"
    "read_entries Y from (y_entries Y node) = Inr (iter m)" by blast
  have "fold (\<lambda>(k, x) m. if m k = None then m(k \<mapsto> x) else m) (iter m) Map.empty = m"
    using fold_new_keys [OF assms(4), of Map.empty] assms(3) by simp
  with node show ?thesis
    by (intro cast_ok_dump [OF assms(1) _ node(2)])
      (auto simp: unordered_map_to_def unordered_map_from_def yaml_load_dump [OF assms(1)])
qed


text \<open>Applied twice: a map from names to vectors of strings.\<close>

lemma plain_string_cast:
  assumes "s \<noteq> []" and "list_all plain s"
  shows "cast_ok yaml_tree Inr Inr s"
proof -
  have "show_node (YScalar s) = s" using assms by (simp add: show_scalar_def)
  moreover from this have "y_Load yaml_tree s = Inr (YScalar s)"
    using yaml_load_dump [OF yaml_tree_laws, of "YScalar s"] by (simp add: yaml_tree_def)
  ultimately show ?thesis by (auto simp: cast_ok_def yaml_tree_def)
qed


end
