(* ===== verification/Log_Config_Casts.thy ===== *)
theory Log_Config_Casts
  imports Log_Config Logger_Props Config_Cast_Props
begin

text \<open>
  The texts of the logger configuration: the casts of \<open>LogDefine\<close> round-trip, and what the manager
  prints is a configuration that describes its loggers.
\<close>

lemma level_roundtrip [simp]: "level_FromString (level_ToString lv) = lv"
  by (cases lv) (simp_all add: level_FromString_def)

lemma level_from_unknown [simp]: "level_FromString [] = UNKNOW" "level_FromString ''UNKNOW'' = UNKNOW"
  by (simp_all add: level_FromString_def)

subsection \<open>Reading fields\<close>

definition fields_ok :: "'n yaml \<Rightarrow> (string \<times> 'n) list \<Rightarrow> bool" where
  "fields_ok Y kvs \<longleftrightarrow> kvs \<noteq> [] \<and> distinct (map fst kvs) \<and> (\<forall>e \<in> set kvs. y_IsDefined Y (snd e))"

lemma fields_get:
  assumes "yaml_laws Y" and "fields_ok Y kvs"
  shows "\<exists>n. y_get Y (put_all Y (y_node Y) kvs) k = Inr n \<and>
    (case map_of kvs k of None \<Rightarrow> \<not> y_IsDefined Y n | Some v \<Rightarrow> n = v)"
  using yaml_map(4,5) [OF assms(1)] assms(2) by (simp add: fields_ok_def)

lemma fields_defined: "yaml_laws Y \<Longrightarrow> fields_ok Y kvs \<Longrightarrow> y_IsDefined Y (put_all Y (y_node Y) kvs)"
  using yaml_map(1,4) [of Y kvs] by (simp add: fields_ok_def)

lemma get_field:
  assumes "yaml_laws Y" and "fields_ok Y kvs" and "map_of kvs k = Some v"
  shows "y_get Y (put_all Y (y_node Y) kvs) k = Inr v"
  using fields_get [OF assms(1,2), of k] assms(3) by auto

lemma string_or_field:
  assumes "yaml_laws Y" and "fields_ok Y kvs"
  shows "string_or Y (put_all Y (y_node Y) kvs) k d =
    (case map_of kvs k of None \<Rightarrow> Inr d | Some v \<Rightarrow> if y_IsDefined Y v then y_as_string Y v else Inr d)"
  using fields_get [OF assms, of k] by (auto simp: string_or_def split: option.splits)

lemma level_or_field:
  assumes "yaml_laws Y" and "fields_ok Y kvs" and "map_of kvs ''level'' = Some (y_scalar_node Y (level_ToString lv))"
  shows "level_or Y (put_all Y (y_node Y) kvs) = Inr lv"
  using get_field [OF assms] by (simp add: level_or_def yaml_scalar [OF assms(1)])

lemmas field_simps = string_or_field level_or_field get_field fields_ok_def yaml_scalar

subsection \<open>One appender\<close>

definition appender_define_ok :: "log_appender_define \<Rightarrow> bool" where
  "appender_define_ok a \<longleftrightarrow> ad_type a = 1 \<or> ad_type a = 2 \<and> ad_file a = []"

lemma read_appender_fields:
  assumes laws: "yaml_laws Y" and kvs: "fields_ok Y kvs" and ty: "ad_type a = 1 \<or> ad_type a = 2 \<and> ad_file a = []"
    and f_type: "map_of kvs ''type'' =
      Some (y_scalar_node Y (if ad_type a = 1 then ''FileLogAppender'' else ''StdoutLogAppender''))"
    and f_file: "ad_type a = 1 \<Longrightarrow> map_of kvs ''file'' = Some (y_scalar_node Y (ad_file a))"
    and f_level: "map_of kvs ''level'' = Some (y_scalar_node Y (level_ToString (ad_level a)))"
    and f_fm: "map_of kvs ''formatter'' =
      (if ad_formatter a = [] then None else Some (y_scalar_node Y (ad_formatter a)))
      \<or> map_of kvs ''formatter'' = Some (y_scalar_node Y (ad_formatter a))"
  shows "read_appender Y (put_all Y (y_node Y) kvs) = Inr (Some a)"
proof -
  have fm: "string_or Y (put_all Y (y_node Y) kvs) ''formatter'' [] = Inr (ad_formatter a)"
    using f_fm by (auto simp: string_or_field [OF laws kvs] yaml_scalar [OF laws] split: if_splits)
  note lv = level_or_field [OF laws kvs f_level]
  show ?thesis
  proof (cases "ad_type a = 1")
    case True
    with f_type f_file have "y_get Y (put_all Y (y_node Y) kvs) ''type'' = Inr (y_scalar_node Y ''FileLogAppender'')"
      "y_get Y (put_all Y (y_node Y) kvs) ''file'' = Inr (y_scalar_node Y (ad_file a))"
      by (simp_all add: get_field [OF laws kvs])
    with fm lv True show ?thesis by (simp add: read_appender_def yaml_scalar [OF laws])
  next
    case False
    with f_type have "y_get Y (put_all Y (y_node Y) kvs) ''type'' = Inr (y_scalar_node Y ''StdoutLogAppender'')"
      by (simp add: get_field [OF laws kvs])
    with fm lv False ty show ?thesis by (simp add: read_appender_def yaml_scalar [OF laws])
  qed
qed

lemma appender_fields_ok: "yaml_laws Y \<Longrightarrow> fields_ok Y (appender_fields Y a)"
  by (auto simp: fields_ok_def appender_fields_def yaml_scalar)

lemma read_appender_define:
  assumes "yaml_laws Y" and "appender_define_ok a"
  shows "read_appender Y (put_all Y (y_node Y) (appender_fields Y a)) = Inr (Some a)"
  by (rule read_appender_fields [OF assms(1) appender_fields_ok [OF assms(1)]])
    (use assms(2) in \<open>auto simp: appender_fields_def appender_define_ok_def\<close>)

lemma read_appenders_seq:
  "list_all2 (\<lambda>a n. read_appender Y n = Inr (Some a)) as (map (y_at Y node) is) \<Longrightarrow>
     read_appenders Y node is = Inr as"
  by (induction "is" arbitrary: as) (auto simp: list_all2_Cons2)

lemma read_appenders_nodes:
  assumes "yaml_laws Y" and "list_all2 (\<lambda>a n. y_IsDefined Y n \<and> read_appender Y n = Inr (Some a)) as ns"
  shows "read_appenders Y (seq_node Y ns) [0..<y_size Y (seq_node Y ns)] = Inr as"
    and "y_IsDefined Y (seq_node Y ns)"
proof -
  have "\<forall>n \<in> set ns. y_IsDefined Y n"
    using assms(2) by (auto simp: list_all2_conv_all_nth in_set_conv_nth)
  note seq = yaml_seq [OF assms(1) this]
  show "read_appenders Y (seq_node Y ns) [0..<y_size Y (seq_node Y ns)] = Inr as"
    using assms(2) seq by (intro read_appenders_seq) (auto elim: list_all2_mono)
  show "y_IsDefined Y (seq_node Y ns)" by (rule seq(1))
qed

subsection \<open>One logger\<close>

lemma LogDefine_from_fields:
  assumes laws: "yaml_laws Y" and kvs: "fields_ok Y kvs"
    and f_name: "map_of kvs ''name'' = Some (y_scalar_node Y (ld_name d))"
    and f_level: "map_of kvs ''level'' = (if ld_level d = UNKNOW then None
        else Some (y_scalar_node Y (level_ToString (ld_level d))))
      \<or> map_of kvs ''level'' = Some (y_scalar_node Y (level_ToString (ld_level d)))"
    and f_fm: "map_of kvs ''formatter'' = (if ld_formatter d = [] then None
        else Some (y_scalar_node Y (ld_formatter d)))
      \<or> map_of kvs ''formatter'' = Some (y_scalar_node Y (ld_formatter d))"
    and f_aps: "map_of kvs ''appenders'' = (if ns = [] then None else Some (seq_node Y ns))"
    and aps: "list_all2 (\<lambda>a n. y_IsDefined Y n \<and> read_appender Y n = Inr (Some a)) (ld_appenders d) ns"
  shows "LogDefine_from Y (y_dump Y (put_all Y (y_node Y) kvs)) = Inr d"
proof -
  let ?n = "put_all Y (y_node Y) kvs"
  have load: "y_Load Y (y_dump Y ?n) = Inr ?n"
    by (rule yaml_load_dump [OF laws fields_defined [OF laws kvs]])
  have name: "y_get Y ?n ''name'' = Inr (y_scalar_node Y (ld_name d))"
    by (rule get_field [OF laws kvs f_name])
  have fm: "string_or Y ?n ''formatter'' [] = Inr (ld_formatter d)"
    using f_fm by (auto simp: string_or_field [OF laws kvs] yaml_scalar [OF laws] split: if_splits)
  obtain lv where lv: "string_or Y ?n ''level'' [] = Inr lv" "level_FromString lv = ld_level d"
    using f_level by (auto simp: string_or_field [OF laws kvs] yaml_scalar [OF laws] split: if_splits)
  obtain m where m: "y_get Y ?n ''appenders'' = Inr m"
    "(if y_IsDefined Y m then read_appenders Y m [0..<y_size Y m] else Inr []) = Inr (ld_appenders d)"
  proof (cases "ns = []")
    case True
    with fields_get [OF laws kvs, of "''appenders''"] f_aps aps that show ?thesis by auto
  next
    case False
    with f_aps have "y_get Y ?n ''appenders'' = Inr (seq_node Y ns)"
      by (simp add: get_field [OF laws kvs])
    with read_appenders_nodes [OF laws aps] that show ?thesis by simp
  qed
  show ?thesis
    by (simp add: LogDefine_from_def load name fm lv m yaml_scalar [OF laws])
qed

definition define_ok :: "log_define \<Rightarrow> bool" where
  "define_ok d \<longleftrightarrow> (\<forall>a \<in> set (ld_appenders d). appender_define_ok a)"

definition define_fields :: "'n yaml \<Rightarrow> log_define \<Rightarrow> (string \<times> 'n) list" where
  "define_fields Y d =
     [(''name'', y_scalar_node Y (ld_name d))] @
     (if ld_level d \<noteq> UNKNOW then [(''level'', y_scalar_node Y (level_ToString (ld_level d)))] else []) @
     (if ld_formatter d \<noteq> [] then [(''formatter'', y_scalar_node Y (ld_formatter d))] else []) @
     (if ld_appenders d \<noteq> []
      then [(''appenders'', seq_node Y (map (\<lambda>a. put_all Y (y_node Y) (appender_fields Y a)) (ld_appenders d)))]
      else [])"

lemma LogDefine_to_fields: "LogDefine_to Y d = Inr (y_dump Y (put_all Y (y_node Y) (define_fields Y d)))"
  by (simp add: LogDefine_to_def define_fields_def put_all_def Let_def)

lemma defined_appenders:
  assumes "yaml_laws Y"
  shows "\<forall>n \<in> set (map (\<lambda>a. put_all Y (y_node Y) (appender_fields Y a)) as). y_IsDefined Y n"
  using fields_defined [OF assms appender_fields_ok [OF assms]] by auto

lemma define_fields_ok: "yaml_laws Y \<Longrightarrow> fields_ok Y (define_fields Y d)"
  using yaml_seq(1) [OF _ defined_appenders, of Y "ld_appenders d"]
  by (auto simp: fields_ok_def define_fields_def yaml_scalar)

lemma LogDefine_cast_ok:
  assumes laws: "yaml_laws Y" and "define_ok d"
  shows "cast_ok Y (LogDefine_to Y) (LogDefine_from Y) d"
proof (rule cast_ok_dump [OF laws, where n = "put_all Y (y_node Y) (define_fields Y d)"])
  show "LogDefine_to Y d = Inr (y_dump Y (put_all Y (y_node Y) (define_fields Y d)))"
    by (rule LogDefine_to_fields)
  show "y_IsDefined Y (put_all Y (y_node Y) (define_fields Y d))"
    by (rule fields_defined [OF laws define_fields_ok [OF laws]])
  let ?ns = "map (\<lambda>a. put_all Y (y_node Y) (appender_fields Y a)) (ld_appenders d)"
  have "list_all2 (\<lambda>a n. y_IsDefined Y n \<and> read_appender Y n = Inr (Some a)) (ld_appenders d) ?ns"
    using assms(2) defined_appenders [OF laws, of "ld_appenders d"]
    by (auto simp: list_all2_map2 list_all2_same read_appender_define [OF laws] define_ok_def)
  then show "LogDefine_from Y (y_dump Y (put_all Y (y_node Y) (define_fields Y d))) = Inr d"
    by (intro LogDefine_from_fields [OF laws define_fields_ok [OF laws], where ns = ?ns])
      (auto simp: define_fields_def)
qed

subsection \<open>What the manager prints\<close>

definition describe_appender :: "appender \<Rightarrow> log_appender_define" where
  "describe_appender a =
     \<lparr>ad_type = (case a_file a of None \<Rightarrow> 2 | Some _ \<Rightarrow> 1), ad_level = a_level a,
      ad_formatter = (case a_formatter a of None \<Rightarrow> [] | Some f \<Rightarrow> m_pattern f),
      ad_file = (case a_file a of None \<Rightarrow> [] | Some f \<Rightarrow> f)\<rparr>"

definition describe :: "logs \<Rightarrow> logger \<Rightarrow> log_define" where
  "describe s l =
     \<lparr>ld_name = l_name l, ld_level = l_level l,
      ld_formatter = (case l_formatter l of None \<Rightarrow> [] | Some f \<Rightarrow> m_pattern f),
      ld_appenders = map (\<lambda>a. describe_appender (the (app_heap s a))) (l_appenders l)\<rparr>"

definition printed_appender :: "'n yaml \<Rightarrow> appender \<Rightarrow> 'n" where
  "printed_appender Y a =
     put_all Y (y_node Y)
       ((case a_file a of
           None \<Rightarrow> [(''type'', y_scalar_node Y ''StdoutLogAppender'')]
         | Some f \<Rightarrow> [(''type'', y_scalar_node Y ''FileLogAppender''), (''file'', y_scalar_node Y f)]) @
        [(''level'', y_scalar_node Y (level_ToString (a_level a)))] @ formatter_field Y (a_formatter a))"

lemma appender_prints: "appender_toYamlString Y a = y_dump Y (printed_appender Y a)"
  by (simp add: appender_toYamlString_def printed_appender_def StdoutLogAppender_toYamlString_def
      FileLogAppender_toYamlString_def split: option.split)

lemma printed_appender_ok:
  assumes laws: "yaml_laws Y"
  shows "y_IsDefined Y (printed_appender Y a) \<and>
    read_appender Y (printed_appender Y a) = Inr (Some (describe_appender a))"
  unfolding printed_appender_def
  by (intro conjI fields_defined [OF laws] read_appender_fields [OF laws])
    (auto simp: fields_ok_def formatter_field_def describe_appender_def yaml_scalar [OF laws]
      split: option.splits)

lemma push_dumped:
  assumes laws: "yaml_laws Y"
  shows "\<forall>x \<in> set xs. to x = Inr (y_dump Y (g x)) \<and> y_IsDefined Y (g x) \<Longrightarrow>
    push_elements Y to node xs = Inr (foldl (y_push_back Y) node (map g xs))"
  by (induction xs arbitrary: node) (simp_all add: yaml_load_dump [OF laws])

definition printed_fields :: "'n yaml \<Rightarrow> logs \<Rightarrow> logger \<Rightarrow> (string \<times> 'n) list" where
  "printed_fields Y s l =
     [(''name'', y_scalar_node Y (l_name l)), (''level'', y_scalar_node Y (level_ToString (l_level l)))] @
     formatter_field Y (l_formatter l) @
     (if l_appenders l \<noteq> []
      then [(''appenders'', seq_node Y (map (\<lambda>a. printed_appender Y (the (app_heap s a))) (l_appenders l)))]
      else [])"

lemma printed_fields_ok: "yaml_laws Y \<Longrightarrow> fields_ok Y (printed_fields Y s l)"
  using yaml_seq(1) [of Y "map (\<lambda>a. printed_appender Y (the (app_heap s a))) (l_appenders l)"]
  by (auto simp: fields_ok_def printed_fields_def formatter_field_def yaml_scalar printed_appender_ok
      split: option.splits)

lemma logger_prints:
  assumes "yaml_laws Y"
  shows "logger_toYamlString Y s l = Inr (y_dump Y (put_all Y (y_node Y) (printed_fields Y s l)))"
proof -
  have "push_elements Y (\<lambda>a. Inr (appender_toYamlString Y (the (app_heap s a)))) (y_node Y) (l_appenders l) =
      Inr (seq_node Y (map (\<lambda>a. printed_appender Y (the (app_heap s a))) (l_appenders l)))"
    using push_dumped [OF assms, of "l_appenders l" "\<lambda>a. Inr (appender_toYamlString Y (the (app_heap s a)))"
        "\<lambda>a. printed_appender Y (the (app_heap s a))" "y_node Y"]
    by (simp add: appender_prints printed_appender_ok [OF assms] seq_node_def)
  then show ?thesis
    by (simp add: logger_toYamlString_def printed_fields_def put_all_def Let_def)
qed

lemma printed_logger_read:
  assumes laws: "yaml_laws Y"
  shows "LogDefine_from Y (y_dump Y (put_all Y (y_node Y) (printed_fields Y s l))) = Inr (describe s l)"
proof (rule LogDefine_from_fields [OF laws printed_fields_ok [OF laws],
      where ns = "map (\<lambda>a. printed_appender Y (the (app_heap s a))) (l_appenders l)"])
  show "list_all2 (\<lambda>a n. y_IsDefined Y n \<and> read_appender Y n = Inr (Some a)) (ld_appenders (describe s l))
      (map (\<lambda>a. printed_appender Y (the (app_heap s a))) (l_appenders l))"
    by (simp add: describe_def list_all2_map1 list_all2_map2 list_all2_same printed_appender_ok [OF laws])
qed (auto simp: printed_fields_def describe_def formatter_field_def split: option.splits)

lemma read_elements_dumped:
  assumes laws: "yaml_laws Y"
    and "\<forall>x \<in> set xs. y_IsDefined Y (g x) \<and> from (y_dump Y (g x)) = Inr (h x)"
  shows "read_elements Y from (seq_node Y (map g xs)) [0..<y_size Y (seq_node Y (map g xs))] = Inr (map h xs)"
    and "y_IsDefined Y (seq_node Y (map g xs))"
proof -
  have "\<forall>n \<in> set (map g xs). y_IsDefined Y n" using assms(2) by auto
  note seq = yaml_seq [OF laws this]
  show "read_elements Y from (seq_node Y (map g xs)) [0..<y_size Y (seq_node Y (map g xs))] = Inr (map h xs)"
    using assms(2) seq
    by (intro read_elements_ok) (simp add: list_all2_map1 list_all2_map2 list_all2_same node_of_def)
  show "y_IsDefined Y (seq_node Y (map g xs))" by (rule seq(1))
qed

definition manager_describes :: "logs \<Rightarrow> log_define list" where
  "manager_describes s = map (\<lambda>(name, p). describe s (the (log_heap s p))) (m_loggers s)"

lemma manager_names:
  assumes "log_inv s"
  shows "map ld_name (manager_describes s) = map fst (m_loggers s)"
proof -
  have "ld_name (describe s (the (log_heap s p))) = name" if "(name, p) \<in> set (m_loggers s)" for name p
  proof -
    have "distinct (map fst (m_loggers s))"
      using assms map_sorted_distinct unfolding log_inv_def by blast
    then have "map_of (m_loggers s) name = Some p" using that by simp
    then obtain l where "log_heap s p = Some l" "l_name l = name"
      using assms unfolding log_inv_def by blast
    then show ?thesis by (simp add: describe_def)
  qed
  then show ?thesis by (auto simp: manager_describes_def)
qed

lemma manager_sorted: "log_inv s \<Longrightarrow> sorted_wrt define_lt (manager_describes s)"
proof -
  assume inv: "log_inv s"
  then have "sorted_wrt (<) (map ld_name (manager_describes s))"
    by (simp add: manager_names log_inv_def map_sorted_def)
  then show ?thesis unfolding sorted_wrt_map define_lt_def .
qed

lemma manager_prints:
  assumes laws: "yaml_laws Y" and inv: "log_inv s"
  shows "\<exists>txt. manager_toYamlString Y s = Inr txt \<and>
    set_from define_lt Y (LogDefine_from Y) txt = Inr (manager_describes s)"
proof -
  let ?g = "\<lambda>(name :: string, p). put_all Y (y_node Y) (printed_fields Y s (the (log_heap s p)))"
  have "\<forall>e \<in> set (m_loggers s).
      (\<lambda>(name, p). logger_toYamlString Y s (the (log_heap s p))) e = Inr (y_dump Y (?g e)) \<and> y_IsDefined Y (?g e)"
    by (auto simp: logger_prints [OF laws] fields_defined [OF laws printed_fields_ok [OF laws]])
  from push_dumped [OF laws this, of "y_node Y"]
  have printed: "manager_toYamlString Y s = Inr (y_dump Y (seq_node Y (map ?g (m_loggers s))))"
    by (simp add: manager_toYamlString_def seq_node_def)
  have "\<forall>e \<in> set (m_loggers s). y_IsDefined Y (?g e) \<and>
      LogDefine_from Y (y_dump Y (?g e)) = Inr ((\<lambda>(name, p). describe s (the (log_heap s p))) e)"
    by (auto simp: printed_logger_read [OF laws] fields_defined [OF laws printed_fields_ok [OF laws]])
  note read = read_elements_dumped [OF laws this]
  have "set_from define_lt Y (LogDefine_from Y) (y_dump Y (seq_node Y (map ?g (m_loggers s)))) =
      Inr (fold (\<lambda>x s. fst (set_insert define_lt x s)) (manager_describes s) [])"
    using read by (simp add: set_from_def yaml_load_dump [OF laws] manager_describes_def)
  also have "\<dots> = Inr (manager_describes s)"
    using set_insert_rebuild [of define_lt "[]"] manager_sorted [OF inv] by simp
  finally show ?thesis using printed by blast
qed

text \<open>
  C36. The texts of the logger configuration round-trip. A set of definitions in the order of their
  names, whose appenders are of the two known types (and a \<open>StdoutLogAppender\<close> without a file),
  survives being printed and read back; and in every state the manager can reach, its own
  \<open>toYamlString\<close> can be read back as a configuration, and this lists every logger, in the order of
  the names, with its level, its pattern and the kinds, files, levels and patterns of its
  appenders.
\<close>

theorem log_config_roundtrip:
  assumes "yaml_laws Y" and "sorted_wrt define_lt ds" and "\<forall>d \<in> set ds. define_ok d"
    and "LoggerManager_ctor = Inr s0" and "(log_step strftime)\<^sup>*\<^sup>* s0 s"
  shows "cast_ok Y (set_to Y (LogDefine_to Y)) (set_from define_lt Y (LogDefine_from Y)) ds \<and>
    (\<exists>txt. manager_toYamlString Y s = Inr txt \<and>
       set_from define_lt Y (LogDefine_from Y) txt = Inr (manager_describes s))"
  using set_cast_ok [OF assms(1) _ assms(2)] LogDefine_cast_ok [OF assms(1)] assms(3)
    manager_prints [OF assms(1) logs_inv.reachable_inv [OF assms(4,5)]] by blast

theorem log_config_roundtrip_witness:
  "cast_ok yaml_tree (set_to yaml_tree (LogDefine_to yaml_tree)) (set_from define_lt yaml_tree (LogDefine_from yaml_tree))
     [\<lparr>ld_name = ''root'', ld_level = INFO, ld_formatter = ''%m%n'',
       ld_appenders = [\<lparr>ad_type = 1, ad_level = ERROR, ad_formatter = [], ad_file = ''a: b.txt''\<rparr>]\<rparr>,
      \<lparr>ld_name = ''system'', ld_level = UNKNOW, ld_formatter = [],
       ld_appenders = [\<lparr>ad_type = 2, ad_level = UNKNOW, ad_formatter = ''%d'', ad_file = []\<rparr>]\<rparr>] \<and>
   (\<exists>txt. manager_toYamlString yaml_tree fresh_logs = Inr txt \<and>
      set_from define_lt yaml_tree (LogDefine_from yaml_tree) txt =
        Inr [\<lparr>ld_name = ''root'', ld_level = DEBUG, ld_formatter = logger_pattern,
              ld_appenders = [\<lparr>ad_type = 2, ad_level = DEBUG, ad_formatter = logger_pattern, ad_file = []\<rparr>]\<rparr>])"
proof -
  have pattern: "m_pattern (new_LogFormatter p) = p" for p
    by (simp add: new_LogFormatter_def split_beta)
  have "manager_describes fresh_logs = [\<lparr>ld_name = ''root'', ld_level = DEBUG, ld_formatter = logger_pattern,
      ld_appenders = [\<lparr>ad_type = 2, ad_level = DEBUG, ad_formatter = logger_pattern, ad_file = []\<rparr>]\<rparr>]"
    by (simp add: manager_describes_def describe_def describe_appender_def fresh_logs_def new_Logger_def
        new_StdoutLogAppender_def Let_def pattern)
  then show ?thesis
    using log_config_roundtrip [OF yaml_tree_laws _ _ LoggerManager_ctor_eq rtranclp.rtrancl_refl,
        of "[\<lparr>ld_name = ''root'', ld_level = INFO, ld_formatter = ''%m%n'',
       ld_appenders = [\<lparr>ad_type = 1, ad_level = ERROR, ad_formatter = [], ad_file = ''a: b.txt''\<rparr>]\<rparr>,
      \<lparr>ld_name = ''system'', ld_level = UNKNOW, ld_formatter = [],
       ld_appenders = [\<lparr>ad_type = 2, ad_level = UNKNOW, ad_formatter = ''%d'', ad_file = []\<rparr>]\<rparr>]"]
    by (simp add: define_lt_def define_ok_def appender_define_ok_def less_char_def)
qed

text \<open>
  A \<open>FileLogAppender\<close> without a \<open>file\<close> is reported on the standard output, but unlike a missing type
  it is not skipped: the value is read all the same and the whole definition is lost to the
  exception.
\<close>

lemma missing_file_throws:
  assumes laws: "yaml_laws Y" and kvs: "fields_ok Y kvs"
    and "map_of kvs ''type'' = Some (y_scalar_node Y ''FileLogAppender'')" and "map_of kvs ''file'' = None"
    and "map_of kvs ''level'' = Some (y_scalar_node Y lv)"
  shows "\<exists>e. read_appender Y (put_all Y (y_node Y) kvs) = Inl e"
proof -
  let ?n = "put_all Y (y_node Y) kvs"
  have ty: "y_get Y ?n ''type'' = Inr (y_scalar_node Y ''FileLogAppender'')"
    "y_get Y ?n ''level'' = Inr (y_scalar_node Y lv)"
    using assms(3,5) by (simp_all add: get_field [OF laws kvs])
  obtain f where f: "y_get Y ?n ''file'' = Inr f" "\<not> y_IsDefined Y f"
    using fields_get [OF laws kvs, of "''file''"] assms(4) by auto
  from yaml_undefined [OF laws f(2)] obtain e where "y_as_string Y f = Inl e" ..
  with ty f show ?thesis by (simp add: read_appender_def level_or_def yaml_scalar [OF laws])
qed

end
