(* ===== verification/Log_Config_Apply.thy ===== *)
theory Log_Config_Apply
  imports Log_Config_Casts
begin

text \<open>
  The listener of the variable \<open>logs\<close>: a change of the configuration ends without an error and
  leaves every changed logger as configured, every removed one silent, and the others alone.
\<close>

subsection \<open>What a configured logger looks like\<close>

type_synonym app_view = "string option \<times> level \<times> formatter option"

definition app_view :: "logs \<Rightarrow> ptr \<Rightarrow> app_view option" where
  "app_view s q = map_option (\<lambda>a. (a_file a, a_level a, a_formatter a)) (app_heap s q)"

definition good_pattern :: "string \<Rightarrow> bool" where
  "good_pattern p \<longleftrightarrow> p \<noteq> [] \<and> \<not> m_error (new_LogFormatter p)"

definition want_appender :: "formatter option \<Rightarrow> log_appender_define \<Rightarrow> app_view" where
  "want_appender f a =
     (if ad_type a = 1 then Some (ad_file a) else None, ad_level a,
      if good_pattern (ad_formatter a) then Some (new_LogFormatter (ad_formatter a)) else f)"

definition logger_named :: "logs \<Rightarrow> string \<Rightarrow> logger option" where
  "logger_named s n = (case map_of (m_loggers s) n of None \<Rightarrow> None | Some p \<Rightarrow> log_heap s p)"

definition old_formatter :: "logs \<Rightarrow> string \<Rightarrow> formatter option" where
  "old_formatter s n =
     (case logger_named s n of None \<Rightarrow> Some (new_LogFormatter logger_pattern) | Some l \<Rightarrow> l_formatter l)"

definition want_formatter :: "formatter option \<Rightarrow> log_define \<Rightarrow> formatter option" where
  "want_formatter f i = (if good_pattern (ld_formatter i) then Some (new_LogFormatter (ld_formatter i)) else f)"

definition shows_define :: "logs \<Rightarrow> formatter option \<Rightarrow> log_define \<Rightarrow> logger \<Rightarrow> bool" where
  "shows_define s f i l \<longleftrightarrow>
     l_level l = ld_level i \<and> l_formatter l = want_formatter f i \<and>
     map (app_view s) (l_appenders l) = map (\<lambda>a. Some (want_appender (l_formatter l) a)) (ld_appenders i)"

definition configured :: "logs \<Rightarrow> logs \<Rightarrow> log_define \<Rightarrow> bool" where
  "configured s s' i \<longleftrightarrow>
     (\<exists>l. logger_named s' (ld_name i) = Some l \<and> shows_define s' (old_formatter s (ld_name i)) i l)"

definition dropped :: "logs \<Rightarrow> string \<Rightarrow> bool" where
  "dropped s n \<longleftrightarrow> (\<exists>l. logger_named s n = Some l \<and> l_level l = UNKNOW \<and> l_appenders l = [])"

subsection \<open>Creating the appenders of one logger\<close>

lemma make_appender_view:
  "make_appender a = (ap, acts) \<Longrightarrow> a_file ap = fst (want_appender f a) \<and> a_level ap = ad_level a \<and>
     a_formatter ap = (if good_pattern (ad_formatter a) then Some (new_LogFormatter (ad_formatter a)) else None)"
  by (auto simp: make_appender_def want_appender_def good_pattern_def new_FileLogAppender_def
      new_StdoutLogAppender_def Let_def split: if_splits)

lemma conf_appender_spec:
  assumes inv: "log_inv s" and l: "log_heap s p = Some l" and f: "l_formatter l = Some f"
  shows "\<exists>acts s'. conf_appender s p a = Inr (acts, s') \<and> log_inv s' \<and>
    s' = s\<lparr>app_heap := app_heap s', log_heap := (log_heap s)(p \<mapsto> l\<lparr>l_appenders := l_appenders l @ [log_next s]\<rparr>),
           log_next := log_next s + 1\<rparr> \<and>
    (\<forall>q < log_next s. app_heap s' q = app_heap s q) \<and> app_view s' (log_next s) = Some (want_appender (Some f) a)"
proof -
  obtain ap acts where ap: "make_appender a = (ap, acts)" by (rule prod.exhaust)
  let ?q = "log_next s"
  let ?ap = "if a_formatter ap = None then ap\<lparr>a_formatter := Some f\<rparr> else ap"
  let ?s1 = "snd (alloc_appender s ap)"
  let ?s2 = "s\<lparr>app_heap := (app_heap s)(?q \<mapsto> ?ap),
      log_heap := (log_heap s)(p \<mapsto> l\<lparr>l_appenders := l_appenders l @ [?q]\<rparr>), log_next := ?q + 1\<rparr>"
  have add: "addAppender ?s1 p ?q = Inr ?s2"
    using l f by (simp add: addAppender_def alloc_appender_def appender_setFormatter_def put_logger_def)
  have "conf_appender s p a = Inr (acts, ?s2)"
    using add by (simp add: conf_appender_def ap alloc_appender_def)
  moreover have "log_inv ?s2"
    by (rule addAppender_inv [OF alloc_appender_inv [OF inv] add])
  moreover have "app_view ?s2 ?q = Some (want_appender (Some f) a)"
    using make_appender_view [OF ap, of "Some f"] by (auto simp: app_view_def want_appender_def split: if_splits)
  ultimately show ?thesis by (intro exI [of _ acts] exI [of _ ?s2]) simp
qed

lemma app_view_older:
  "\<forall>q < n. app_heap s' q = app_heap s q \<Longrightarrow> q < n \<Longrightarrow> app_view s' q = app_view s q"
  by (simp add: app_view_def)

lemma conf_appenders_spec:
  assumes "log_inv s" and "log_heap s p = Some l" and "l_formatter l = Some f"
  shows "\<exists>acts s' qs. conf_appenders s p as = Inr (acts, s') \<and> log_inv s' \<and>
    s' = s\<lparr>app_heap := app_heap s', log_heap := (log_heap s)(p \<mapsto> l\<lparr>l_appenders := l_appenders l @ qs\<rparr>),
           log_next := log_next s'\<rparr> \<and>
    log_next s \<le> log_next s' \<and> (\<forall>q < log_next s. app_heap s' q = app_heap s q) \<and>
    (\<forall>q \<in> set qs. log_next s \<le> q \<and> q < log_next s') \<and>
    map (app_view s') qs = map (\<lambda>a. Some (want_appender (Some f) a)) as"
  using assms
proof (induction as arbitrary: s l)
  case Nil
  show ?case
  proof (intro exI [of _ "[]"] exI [of _ s] conjI)
    show "s = s\<lparr>app_heap := app_heap s, log_heap := (log_heap s)(p \<mapsto> l\<lparr>l_appenders := l_appenders l @ []\<rparr>),
        log_next := log_next s\<rparr>"
      by (rule logs.equality) (use Nil.prems(2) in auto)
  qed (use Nil.prems(1) in simp_all)
next
  case (Cons a as)
  obtain acts1 s1 where s1: "conf_appender s p a = Inr (acts1, s1)" "log_inv s1"
    "s1 = s\<lparr>app_heap := app_heap s1, log_heap := (log_heap s)(p \<mapsto> l\<lparr>l_appenders := l_appenders l @ [log_next s]\<rparr>),
        log_next := log_next s + 1\<rparr>"
    "\<forall>q < log_next s. app_heap s1 q = app_heap s q" "app_view s1 (log_next s) = Some (want_appender (Some f) a)"
    using conf_appender_spec [OF Cons.prems, of a] by blast
  let ?l1 = "l\<lparr>l_appenders := l_appenders l @ [log_next s]\<rparr>"
  have heap1: "log_heap s1 = (log_heap s)(p \<mapsto> ?l1)" "log_next s1 = Suc (log_next s)"
    "m_loggers s1 = m_loggers s" "m_rootLogger s1 = m_rootLogger s"
    by (subst s1(3); simp)+
  have f1: "l_formatter ?l1 = Some f" using Cons.prems(3) by simp
  obtain acts2 s2 qs where s2: "conf_appenders s1 p as = Inr (acts2, s2)" "log_inv s2"
    "s2 = s1\<lparr>app_heap := app_heap s2, log_heap := (log_heap s1)(p \<mapsto> ?l1\<lparr>l_appenders := l_appenders ?l1 @ qs\<rparr>),
        log_next := log_next s2\<rparr>"
    "log_next s1 \<le> log_next s2" "\<forall>q < log_next s1. app_heap s2 q = app_heap s1 q"
    "\<forall>q \<in> set qs. log_next s1 \<le> q \<and> q < log_next s2"
    "map (app_view s2) qs = map (\<lambda>a. Some (want_appender (Some f) a)) as"
    using Cons.IH [OF s1(2) _ f1] heap1(1) by (metis fun_upd_same)
  have "s2 = s\<lparr>app_heap := app_heap s2,
      log_heap := (log_heap s)(p \<mapsto> l\<lparr>l_appenders := l_appenders l @ log_next s # qs\<rparr>), log_next := log_next s2\<rparr>"
    by (rule logs.equality; subst s2(3); simp add: heap1)
  moreover have "conf_appenders s p (a # as) = Inr (acts1 @ acts2, s2)"
    using s1(1) s2(1) by simp
  moreover have "app_view s2 (log_next s) = Some (want_appender (Some f) a)"
    using app_view_older [OF s2(5), of "log_next s"] s1(5) heap1(2) by simp
  moreover have "\<forall>q < log_next s. app_heap s2 q = app_heap s q"
    using s1(4) s2(5) heap1(2) by simp
  moreover have "log_next s \<le> log_next s2" "\<forall>q \<in> set (log_next s # qs). log_next s \<le> q \<and> q < log_next s2"
    using s2(4,6) heap1(2) by auto
  ultimately show ?case using s2(2,7) by (intro exI [of _ "acts1 @ acts2"] exI [of _ s2] exI [of _ "log_next s # qs"] conjI)
      (assumption | simp)+
qed

subsection \<open>One logger\<close>

text \<open>
  The frame of a change to the logger at \<open>p\<close> of the name \<open>n\<close>: the other loggers stay, and so do
  the existing appenders outside the list of the logger.
\<close>

definition only_logger :: "logs \<Rightarrow> string \<Rightarrow> ptr \<Rightarrow> logs \<Rightarrow> bool" where
  "only_logger s n p s' \<longleftrightarrow>
     map_of (m_loggers s') = (map_of (m_loggers s))(n \<mapsto> p) \<and> m_rootLogger s' = m_rootLogger s \<and>
     (log_heap s p = None \<or> map_of (m_loggers s) n = Some p) \<and>
     (\<forall>q. q \<noteq> p \<longrightarrow> log_heap s' q = log_heap s q) \<and> log_next s \<le> log_next s' \<and>
     (\<forall>a < log_next s. a \<notin> (case log_heap s p of None \<Rightarrow> {} | Some l \<Rightarrow> set (l_appenders l)) \<longrightarrow>
        app_heap s' a = app_heap s a)"

lemma getLogger_spec:
  assumes "log_inv s"
  obtains p s1 l where "getLogger s n = (p, s1)" "log_inv s1" "log_heap s1 p = Some l" "l_name l = n"
    "l_formatter l = old_formatter s n" "only_logger s n p s1" "app_heap s1 = app_heap s"
    "log_heap s p = Some l \<or> log_heap s p = None \<and> l_appenders l = []"
proof (cases "map_of (m_loggers s) n")
  case (Some p)
  with assms obtain l where l: "log_heap s p = Some l" "l_name l = n" unfolding log_inv_def by blast
  have "getLogger s n = (p, s)" using Some by (simp add: getLogger_def)
  moreover have "l_formatter l = old_formatter s n"
    using Some l by (simp add: old_formatter_def logger_named_def)
  moreover have "only_logger s n p s" using Some by (auto simp: only_logger_def)
  ultimately show ?thesis using that [of p s l] assms l by simp
next
  case None
  let ?p = "log_next s" and ?l = "(new_Logger n)\<lparr>l_root := Some (m_rootLogger s)\<rparr>"
  obtain s1 where s1: "getLogger s n = (?p, s1)" "s1 = s\<lparr>log_heap := (log_heap s)(?p \<mapsto> ?l), log_next := ?p + 1,
      m_loggers := map_put n ?p (m_loggers s)\<rparr>"
    using None by (simp add: getLogger_def alloc_logger_def)
  have fresh: "log_heap s ?p = None"
    using assms unfolding log_inv_def by (intro dom_less_fresh) simp
  have "log_inv s1" using getLogger_inv [OF assms, of n] s1(1) by simp
  moreover have "only_logger s n ?p s1" using fresh by (simp add: s1(2) only_logger_def)
  moreover have "l_formatter ?l = old_formatter s n"
    using None by (simp add: old_formatter_def logger_named_def new_Logger_def)
  ultimately show ?thesis
    using that [of ?p s1 ?l] s1(1) fresh by (simp add: s1(2) new_Logger_def)
qed

lemma set_formatters_spec:
  "\<forall>a \<in> set as. app_heap s a \<noteq> None \<Longrightarrow>
     \<exists>s'. set_formatters s as (Some f) = Inr s' \<and> s' = s\<lparr>app_heap := app_heap s'\<rparr> \<and>
       (\<forall>a. a \<notin> set as \<longrightarrow> app_heap s' a = app_heap s a)"
proof (induction as arbitrary: s)
  case (Cons a as)
  then obtain ap where ap: "app_heap s a = Some ap" by auto
  let ?s = "s\<lparr>app_heap := (app_heap s)(a \<mapsto> ap\<lparr>a_formatter := Some f\<rparr>)\<rparr>"
  have "\<forall>b \<in> set as. app_heap ?s b \<noteq> None" using Cons.prems by simp
  from Cons.IH [OF this] obtain s' where s': "set_formatters ?s as (Some f) = Inr s'"
    "s' = ?s\<lparr>app_heap := app_heap s'\<rparr>" "\<forall>b. b \<notin> set as \<longrightarrow> app_heap s' b = app_heap ?s b" by blast
  have "s' = s\<lparr>app_heap := app_heap s'\<rparr>" by (subst s'(2)) simp
  with s' ap show ?case by (intro exI [of _ s']) (simp add: appender_setFormatter_def)
qed simp

text \<open>Setting the pattern of a logger, or leaving it.\<close>

lemma pattern_spec:
  assumes inv: "log_inv s" and l: "log_heap s p = Some l"
  shows "\<exists>s'. (if ld_formatter i \<noteq> [] then logger_setPattern s p (ld_formatter i) else Inr s) = Inr s' \<and>
    log_inv s' \<and> s' = s\<lparr>app_heap := app_heap s', log_heap := log_heap s'\<rparr> \<and>
    log_heap s' = (log_heap s)(p \<mapsto> l\<lparr>l_formatter := want_formatter (l_formatter l) i\<rparr>) \<and>
    (\<forall>a. a \<notin> set (l_appenders l) \<longrightarrow> app_heap s' a = app_heap s a)"
proof (cases "good_pattern (ld_formatter i)")
  case False
  then have "(if ld_formatter i \<noteq> [] then logger_setPattern s p (ld_formatter i) else Inr s) = Inr s"
    using l by (auto simp: good_pattern_def logger_setPattern_def Let_def)
  with False inv l show ?thesis
    by (intro exI [of _ s]) (simp add: want_formatter_def fun_upd_idem)
next
  case True
  let ?f = "new_LogFormatter (ld_formatter i)" and ?s = "put_logger s p (l\<lparr>l_formatter := Some (new_LogFormatter (ld_formatter i))\<rparr>)"
  have "\<forall>a \<in> set (l_appenders l). app_heap ?s a \<noteq> None"
    using log_inv_logger [OF inv l] by (auto simp: logger_ok_def has_formatter_def put_logger_def)
  from set_formatters_spec [OF this, of ?f] obtain s' where s': "set_formatters ?s (l_appenders l) (Some ?f) = Inr s'"
    "s' = ?s\<lparr>app_heap := app_heap s'\<rparr>" "\<forall>a. a \<notin> set (l_appenders l) \<longrightarrow> app_heap s' a = app_heap ?s a" by blast
  have set: "logger_setFormatter s p (Some ?f) = Inr s'" using l s'(1) by (simp add: logger_setFormatter_def)
  then have "(if ld_formatter i \<noteq> [] then logger_setPattern s p (ld_formatter i) else Inr s) = Inr s'"
    using True by (simp add: good_pattern_def logger_setPattern_def)
  moreover have "log_inv s'" by (rule logger_setFormatter_inv [OF inv set])
  moreover have heap: "log_heap s' = (log_heap s)(p \<mapsto> l\<lparr>l_formatter := want_formatter (l_formatter l) i\<rparr>)"
    using True by (subst s'(2)) (simp add: put_logger_def want_formatter_def)
  moreover have "s' = s\<lparr>app_heap := app_heap s', log_heap := log_heap s'\<rparr>"
    by (rule logs.equality; subst s'(2); simp add: put_logger_def heap)
  ultimately show ?thesis using s'(3) by (intro exI [of _ s']) (simp add: put_logger_def)
qed

lemma log_then_silent: "log_then (silent (Inr s)) f = f s"
  by (cases "f s") (auto simp: silent_def)

lemma conf_logger_spec:
  assumes inv: "log_inv s"
  shows "\<exists>acts s' p l. conf_logger s i = Inr (acts, s') \<and> log_inv s' \<and> only_logger s (ld_name i) p s' \<and>
    log_heap s' p = Some l \<and> shows_define s' (old_formatter s (ld_name i)) i l \<and>
    (\<forall>q \<in> set (l_appenders l). log_next s \<le> q)"
proof -
  obtain p s1 l where s1: "getLogger s (ld_name i) = (p, s1)" "log_inv s1" "log_heap s1 p = Some l"
    "l_formatter l = old_formatter s (ld_name i)" "only_logger s (ld_name i) p s1" "app_heap s1 = app_heap s"
    and old: "log_heap s p = Some l \<or> log_heap s p = None \<and> l_appenders l = []"
    using getLogger_spec [OF inv, of "ld_name i"] by blast
  let ?l2 = "l\<lparr>l_level := ld_level i\<rparr>"
  define s2 where "s2 = put_logger s1 p ?l2"
  have set2: "logger_setLevel s1 p (ld_level i) = Inr s2"
    using s1(3) by (simp add: logger_setLevel_def s2_def)
  have inv2: "log_inv s2"
    unfolding s2_def using log_inv_logger [OF s1(2,3)]
    by (intro log_inv_put [OF s1(2,3)]) (simp_all add: logger_ok_def)
  have heap2: "log_heap s2 p = Some ?l2" by (simp add: s2_def put_logger_def)
  let ?l3 = "?l2\<lparr>l_formatter := want_formatter (l_formatter l) i\<rparr>"
  from pattern_spec [OF inv2 heap2, of i] obtain s3 where
    set3: "(if ld_formatter i \<noteq> [] then logger_setPattern s2 p (ld_formatter i) else Inr s2) = Inr s3"
    and inv3: "log_inv s3" and s3: "s3 = s2\<lparr>app_heap := app_heap s3, log_heap := log_heap s3\<rparr>"
    "log_heap s3 = (log_heap s2)(p \<mapsto> ?l3)" "\<forall>a. a \<notin> set (l_appenders l) \<longrightarrow> app_heap s3 a = app_heap s2 a"
    by auto
  let ?l4 = "?l3\<lparr>l_appenders := []\<rparr>"
  define s4 where "s4 = put_logger s3 p ?l4"
  have heap3: "log_heap s3 p = Some ?l3" by (simp add: s3(2))
  have set4: "clearAppenders s3 p = Inr s4"
    using heap3 by (simp add: clearAppenders_def s4_def)
  have inv4: "log_inv s4"
    unfolding s4_def using log_inv_logger [OF inv3 heap3]
    by (intro log_inv_put [OF inv3 heap3]) (simp_all add: logger_ok_def)
  have heap4: "log_heap s4 p = Some ?l4" by (simp add: s4_def put_logger_def)
  obtain f where f: "l_formatter ?l4 = Some f"
    using log_inv_logger [OF inv4 heap4] by (auto simp: logger_ok_def)
  obtain acts s5 qs where s5: "conf_appenders s4 p (ld_appenders i) = Inr (acts, s5)" "log_inv s5"
    "s5 = s4\<lparr>app_heap := app_heap s5, log_heap := (log_heap s4)(p \<mapsto> ?l4\<lparr>l_appenders := l_appenders ?l4 @ qs\<rparr>),
        log_next := log_next s5\<rparr>"
    "log_next s4 \<le> log_next s5" "\<forall>q < log_next s4. app_heap s5 q = app_heap s4 q"
    "\<forall>q \<in> set qs. log_next s4 \<le> q \<and> q < log_next s5"
    "map (app_view s5) qs = map (\<lambda>a. Some (want_appender (Some f) a)) (ld_appenders i)"
    using conf_appenders_spec [OF inv4 heap4 f, of "ld_appenders i"] by blast
  let ?l5 = "?l4\<lparr>l_appenders := qs\<rparr>"
  have next4: "log_next s4 = log_next s1" "app_heap s4 = app_heap s3" "m_loggers s4 = m_loggers s1"
    "m_rootLogger s4 = m_rootLogger s1" "log_heap s4 = (log_heap s1)(p \<mapsto> ?l4)" "app_heap s2 = app_heap s1"
    by (simp_all add: s4_def put_logger_def s2_def s3(2)) (subst s3(1), simp add: s2_def put_logger_def)+
  have fields5: "m_loggers s5 = m_loggers s4" "m_rootLogger s5 = m_rootLogger s4"
    "log_heap s5 = (log_heap s4)(p \<mapsto> ?l5)"
    by (subst s5(3), simp)+
  have "conf_logger s i = Inr (acts, s5)"
    by (simp add: conf_logger_def s1(1) set2 set3 set4 log_then_silent s5(1))
  moreover have "only_logger s (ld_name i) p s5"
  proof -
    have "app_heap s5 a = app_heap s a"
      if "a < log_next s" "a \<notin> (case log_heap s p of None \<Rightarrow> {} | Some l \<Rightarrow> set (l_appenders l))" for a
    proof -
      have "a \<notin> set (l_appenders l)" using that(2) old by auto
      moreover have "a < log_next s4" using that(1) s1(5) next4(1) by (simp add: only_logger_def)
      ultimately show ?thesis using s5(5) s3(3) next4(2,6) s1(6) by simp
    qed
    with s1(5) s5(4) next4 fields5 show ?thesis by (auto simp: only_logger_def)
  qed
  moreover have "shows_define s5 (old_formatter s (ld_name i)) i ?l5"
    using s1(4) f s5(7) by (simp add: shows_define_def)
  moreover have "\<forall>q \<in> set (l_appenders ?l5). log_next s \<le> q"
    using s5(6) next4(1) s1(5) by (auto simp: only_logger_def)
  ultimately show ?thesis
    using s5(2) fields5(3) by (intro exI [of _ acts] exI [of _ s5] exI [of _ p] exI [of _ ?l5]) simp
qed

lemma drop_logger_spec:
  assumes inv: "log_inv s"
  shows "\<exists>acts s' p. drop_logger s n = Inr (acts, s') \<and> log_inv s' \<and> only_logger s n p s' \<and>
    app_heap s' = app_heap s \<and> dropped s' n"
proof -
  obtain p s1 l where s1: "getLogger s n = (p, s1)" "log_inv s1" "log_heap s1 p = Some l"
    "only_logger s n p s1" "app_heap s1 = app_heap s"
    using getLogger_spec [OF inv, of n] by blast
  let ?l2 = "l\<lparr>l_level := UNKNOW\<rparr>"
  define s2 where "s2 = put_logger s1 p ?l2"
  have set2: "logger_setLevel s1 p UNKNOW = Inr s2" using s1(3) by (simp add: logger_setLevel_def s2_def)
  have inv2: "log_inv s2"
    unfolding s2_def using log_inv_logger [OF s1(2,3)]
    by (intro log_inv_put [OF s1(2,3)]) (simp_all add: logger_ok_def)
  have heap2: "log_heap s2 p = Some ?l2" by (simp add: s2_def put_logger_def)
  let ?l3 = "?l2\<lparr>l_appenders := []\<rparr>"
  define s3 where "s3 = put_logger s2 p ?l3"
  have set3: "clearAppenders s2 p = Inr s3" using heap2 by (simp add: clearAppenders_def s3_def)
  have inv3: "log_inv s3"
    unfolding s3_def using log_inv_logger [OF inv2 heap2]
    by (intro log_inv_put [OF inv2 heap2]) (simp_all add: logger_ok_def)
  have "drop_logger s n = Inr ([], s3)"
    by (simp add: drop_logger_def s1(1) set2 set3 log_then_silent silent_def)
  moreover have only: "only_logger s n p s3"
    using s1(4) by (simp add: only_logger_def s3_def s2_def put_logger_def)
  moreover have "dropped s3 n"
    using only by (simp add: only_logger_def dropped_def logger_named_def s3_def put_logger_def)
  ultimately show ?thesis
    using inv3 s1(5) by (intro exI [of _ "[]"] exI [of _ s3] exI [of _ p]) (simp add: s3_def s2_def put_logger_def)
qed

subsection \<open>All loggers\<close>

lemma only_logger_named:
  assumes inv: "log_inv s'" and only: "only_logger s n p s'" and neq: "m \<noteq> n"
  shows "logger_named s' m = logger_named s m"
proof (cases "map_of (m_loggers s) m")
  case None
  with only neq show ?thesis by (simp add: logger_named_def only_logger_def)
next
  case (Some q)
  with only neq have maps: "map_of (m_loggers s') m = Some q" "map_of (m_loggers s') n = Some p"
    by (simp_all add: only_logger_def)
  have "q \<noteq> p"
  proof
    assume "q = p"
    with inv maps obtain l l' where "log_heap s' p = Some l" "l_name l = m" "log_heap s' p = Some l'" "l_name l' = n"
      unfolding log_inv_def by blast
    with neq show False by simp
  qed
  with only Some maps show ?thesis by (simp add: logger_named_def only_logger_def)
qed

lemma named_appender_old:
  assumes "log_inv s" and "logger_named s n = Some l" and "q \<in> set (l_appenders l)"
  shows "q < log_next s"
proof -
  from assms(2) obtain p where "log_heap s p = Some l" by (auto simp: logger_named_def split: option.splits)
  from log_inv_logger [OF assms(1) this] assms(3) have "q \<in> dom (app_heap s)"
    by (auto simp: logger_ok_def has_formatter_def)
  with assms(1) show ?thesis unfolding log_inv_def by blast
qed

lemma shows_define_cong:
  "\<forall>q \<in> set (l_appenders l). app_heap s' q = app_heap s q \<Longrightarrow> shows_define s f i l \<Longrightarrow> shows_define s' f i l"
proof -
  assume "\<forall>q \<in> set (l_appenders l). app_heap s' q = app_heap s q"
  then have "map (app_view s') (l_appenders l) = map (app_view s) (l_appenders l)"
    by (simp add: app_view_def)
  then show "shows_define s f i l \<Longrightarrow> shows_define s' f i l" by (simp add: shows_define_def)
qed

text \<open>Progress of the first loop: the definitions in \<open>D\<close> are applied, with appenders made since.\<close>

definition applied :: "logs \<Rightarrow> log_define set \<Rightarrow> logs \<Rightarrow> bool" where
  "applied s0 D s \<longleftrightarrow>
     log_inv s \<and> log_next s0 \<le> log_next s \<and>
     (\<forall>n. n \<notin> ld_name ` D \<longrightarrow> logger_named s n = logger_named s0 n) \<and>
     (\<forall>i \<in> D. \<exists>l. logger_named s (ld_name i) = Some l \<and> shows_define s (old_formatter s0 (ld_name i)) i l \<and>
        (\<forall>q \<in> set (l_appenders l). log_next s0 \<le> q))"

lemma applied_step:
  assumes inv0: "log_inv s0" and D: "applied s0 D s" and new: "ld_name j \<notin> ld_name ` D"
  shows "\<exists>acts s'. conf_logger s j = Inr (acts, s') \<and> applied s0 (insert j D) s'"
proof -
  have inv: "log_inv s" using D by (simp add: applied_def)
  obtain acts s' p l where c: "conf_logger s j = Inr (acts, s')" "log_inv s'" "only_logger s (ld_name j) p s'"
    "log_heap s' p = Some l" "shows_define s' (old_formatter s (ld_name j)) j l"
    "\<forall>q \<in> set (l_appenders l). log_next s \<le> q"
    using conf_logger_spec [OF inv, of j] by blast
  note named = only_logger_named [OF c(2,3)]
  have next_le: "log_next s0 \<le> log_next s" "log_next s \<le> log_next s'"
    using D c(3) by (simp_all add: applied_def only_logger_def)
  have same_j: "logger_named s (ld_name j) = logger_named s0 (ld_name j)"
    using D new by (simp add: applied_def)
  have new_j: "logger_named s' (ld_name j) = Some l" "old_formatter s0 (ld_name j) = old_formatter s (ld_name j)"
    using c(3,4) same_j by (simp_all add: logger_named_def only_logger_def old_formatter_def)
  have kept: "\<exists>l. logger_named s' (ld_name i) = Some l \<and> shows_define s' (old_formatter s0 (ld_name i)) i l \<and>
      (\<forall>q \<in> set (l_appenders l). log_next s0 \<le> q)" if "i \<in> D" for i
  proof -
    from D that obtain k where k: "logger_named s (ld_name i) = Some k"
      "shows_define s (old_formatter s0 (ld_name i)) i k" "\<forall>q \<in> set (l_appenders k). log_next s0 \<le> q"
      unfolding applied_def by blast
    have "app_heap s' q = app_heap s q" if q: "q \<in> set (l_appenders k)" for q
    proof -
      have "q \<notin> (case log_heap s p of None \<Rightarrow> {} | Some l \<Rightarrow> set (l_appenders l))"
      proof
        assume in_p: "q \<in> (case log_heap s p of None \<Rightarrow> {} | Some l \<Rightarrow> set (l_appenders l))"
        then obtain l0 where l0: "log_heap s p = Some l0" "q \<in> set (l_appenders l0)"
          by (auto split: option.splits)
        with c(3) have "logger_named s (ld_name j) = Some l0"
          by (simp add: only_logger_def logger_named_def)
        then have "logger_named s0 (ld_name j) = Some l0" by (simp only: same_j)
        from named_appender_old [OF inv0 this l0(2)] k(3) q show False by auto
      qed
      with c(3) named_appender_old [OF inv k(1) q] show ?thesis by (simp add: only_logger_def)
    qed
    then have "shows_define s' (old_formatter s0 (ld_name i)) i k"
      using k(2) by (intro shows_define_cong [of k s' s]) simp_all
    moreover have "ld_name i \<noteq> ld_name j" using new imageI [OF that, of ld_name] by metis
    ultimately show ?thesis using k named by auto
  qed
  have "\<forall>n. n \<notin> ld_name ` insert j D \<longrightarrow> logger_named s' n = logger_named s0 n"
    using named D by (simp add: applied_def)
  moreover have "\<forall>q \<in> set (l_appenders l). log_next s0 \<le> q" using c(6) next_le(1) by auto
  ultimately have "applied s0 (insert j D) s'"
    unfolding applied_def using c(2,5) next_le new_j kept by simp
  with c(1) show ?thesis by blast
qed

lemma conf_new_spec:
  assumes inv0: "log_inv s0"
  shows "applied s0 D s \<Longrightarrow> distinct (map ld_name is) \<Longrightarrow> ld_name ` D \<inter> ld_name ` set is = {} \<Longrightarrow>
    \<exists>acts s'. conf_new old s is = Inr (acts, s') \<and> applied s0 (D \<union> {i \<in> set is. changed old i}) s'"
proof (induction "is" arbitrary: s D)
  case (Cons i "is")
  show ?case
  proof (cases "changed old i")
    case False
    have "{j \<in> set (i # is). changed old j} = {j \<in> set is. changed old j}" using False by auto
    with Cons False show ?thesis by auto
  next
    case True
    have "ld_name i \<notin> ld_name ` D" using Cons.prems(3) by auto
    from applied_step [OF inv0 Cons.prems(1) this] obtain acts1 s1 where
      s1: "conf_logger s i = Inr (acts1, s1)" "applied s0 (insert i D) s1" by blast
    have "ld_name ` insert i D \<inter> ld_name ` set is = {}" using Cons.prems(2,3) by auto
    from Cons.IH [OF s1(2) _ this] Cons.prems(2) obtain acts2 s2 where
      s2: "conf_new old s1 is = Inr (acts2, s2)" "applied s0 (insert i D \<union> {j \<in> set is. changed old j}) s2" by auto
    have "insert i D \<union> {j \<in> set is. changed old j} = D \<union> {j \<in> set (i # is). changed old j}" using True by auto
    with s1(1) s2 True show ?thesis by simp
  qed
qed auto

text \<open>Progress of the second loop: the loggers named in \<open>R\<close> are dropped.\<close>

definition settled :: "logs \<Rightarrow> log_define set \<Rightarrow> string set \<Rightarrow> logs \<Rightarrow> bool" where
  "settled s0 D R s \<longleftrightarrow>
     log_inv s \<and> (\<forall>n. n \<notin> ld_name ` D \<and> n \<notin> R \<longrightarrow> logger_named s n = logger_named s0 n) \<and>
     (\<forall>i \<in> D. configured s0 s i) \<and> (\<forall>n \<in> R. dropped s n)"

lemma applied_settled: "applied s0 D s \<Longrightarrow> settled s0 D {} s"
  unfolding applied_def settled_def configured_def by blast

lemma settled_step:
  assumes R: "settled s0 D R s" and new: "n \<notin> ld_name ` D"
  shows "\<exists>acts s'. drop_logger s n = Inr (acts, s') \<and> settled s0 D (insert n R) s'"
proof -
  have inv: "log_inv s" using R by (simp add: settled_def)
  obtain acts s' p where d: "drop_logger s n = Inr (acts, s')" "log_inv s'" "only_logger s n p s'"
    "app_heap s' = app_heap s" "dropped s' n"
    using drop_logger_spec [OF inv, of n] by blast
  note named = only_logger_named [OF d(2,3)]
  have "configured s0 s' i" if "i \<in> D" for i
  proof -
    have "ld_name i \<noteq> n" using new that by auto
    moreover have "configured s0 s i" using R that by (simp add: settled_def)
    ultimately show ?thesis
      using shows_define_cong [of _ s' s] d(4) named unfolding configured_def by fastforce
  qed
  moreover have "dropped s' m" if "m \<in> insert n R" for m
  proof (cases "m = n")
    case True
    with d(5) show ?thesis by simp
  next
    case False
    with that R have "dropped s m" by (simp add: settled_def)
    with named [OF False] show ?thesis by (simp add: dropped_def)
  qed
  ultimately have "settled s0 D (insert n R) s'"
    using R d(2) named by (simp add: settled_def)
  with d(1) show ?thesis by blast
qed

lemma conf_removed_spec:
  "settled s0 D R s \<Longrightarrow> \<forall>i \<in> set is. set_find define_lt i new = None \<longrightarrow> ld_name i \<notin> ld_name ` D \<Longrightarrow>
     \<exists>acts s'. conf_removed new s is = Inr (acts, s') \<and>
       settled s0 D (R \<union> ld_name ` {i \<in> set is. set_find define_lt i new = None}) s'"
proof (induction "is" arbitrary: s R)
  case (Cons i "is")
  show ?case
  proof (cases "set_find define_lt i new = None")
    case False
    then have "{j \<in> set (i # is). set_find define_lt j new = None} = {j \<in> set is. set_find define_lt j new = None}"
      by auto
    moreover have "conf_removed new s (i # is) = conf_removed new s is"
      by (simp only: conf_removed.simps if_not_P [OF False])
    ultimately show ?thesis using Cons.IH [OF Cons.prems(1)] Cons.prems(2) by (simp del: conf_removed.simps)
  next
    case True
    with Cons.prems(2) settled_step [OF Cons.prems(1), of "ld_name i"] obtain acts1 s1 where
      s1: "drop_logger s (ld_name i) = Inr (acts1, s1)" "settled s0 D (insert (ld_name i) R) s1" by auto
    from Cons.IH [OF s1(2)] Cons.prems(2) obtain acts2 s2 where
      s2: "conf_removed new s1 is = Inr (acts2, s2)"
      "settled s0 D (insert (ld_name i) R \<union> ld_name ` {j \<in> set is. set_find define_lt j new = None}) s2" by auto
    have "insert (ld_name i) R \<union> ld_name ` {j \<in> set is. set_find define_lt j new = None} =
        R \<union> ld_name ` {j \<in> set (i # is). set_find define_lt j new = None}" using True by auto
    with s1(1) s2 True show ?thesis by simp
  qed
qed auto

interpretation define_order: strict_weak define_lt
  by unfold_locales (auto simp: define_lt_def)

lemma find_define:
  "sorted_wrt define_lt ds \<Longrightarrow> set_find define_lt i ds = None \<longleftrightarrow> ld_name i \<notin> ld_name ` set ds"
  using define_order.find_iff [of ds i] by (auto simp: define_lt_def not_less)

lemma sorted_names: "sorted_wrt define_lt ds \<Longrightarrow> distinct (map ld_name ds)"
  by (induction ds) (auto simp: define_lt_def)

lemma changed_iff:
  assumes "sorted_wrt define_lt old"
  shows "changed old i \<longleftrightarrow> i \<notin> set old"
proof (cases "set_find define_lt i old")
  case None
  with find_define [OF assms, of i] show ?thesis by (auto simp: changed_def)
next
  case (Some k)
  then have "k < length old" "\<not> define_lt i (old ! k)"
    by (auto simp: set_find_def Let_def split: if_splits)
  moreover have "\<not> define_lt (old ! k) i"
    using Some nth_length_takeWhile [of "\<lambda>x. define_lt x i" old]
    by (auto simp: set_find_def Let_def lower_bound_def split: if_splits)
  ultimately have k: "k < length old" "ld_name (old ! k) = ld_name i"
    by (auto simp: define_lt_def)
  have "i = old ! k" if "i \<in> set old"
  proof -
    from that obtain m where m: "m < length old" "old ! m = i" by (auto simp: in_set_conv_nth)
    with k sorted_names [OF assms] have "m = k"
      by (simp add: distinct_conv_nth) metis
    with m show ?thesis by simp
  qed
  with k Some show ?thesis by (auto simp: changed_def)
qed

text \<open>
  A dropped logger is not silent: without appenders its events go to the root logger, and at the
  level \<open>UNKNOW\<close> none of them is held back. Only the level of the root logger counts then.
\<close>

lemma dropped_forwards:
  assumes "log_inv s" and "logger_named s n = Some l" and "dropped s n" and "l_root l = Some (m_rootLogger s)"
  shows "\<exists>root. log_heap s (m_rootLogger s) = Some root \<and>
    delivered strftime s l lv ev = (if lv < l_level root then [] else delivery strftime s (l_appenders root) lv ev)"
proof -
  obtain root where "log_heap s (m_rootLogger s) = Some root"
    using assms(1) unfolding log_inv_def by blast
  moreover have "\<not> lv < UNKNOW" by (cases lv) (simp_all add: less_level_def)
  ultimately show ?thesis
    using assms(2-4) by (simp add: delivered_def dropped_def)
qed

text \<open>
  What the listener makes of the loggers of \<open>s\<close>: every definition that is new or differs from the old one
  is in force, every logger whose name was removed has the level \<open>UNKNOW\<close> and no appender, all other
  loggers are as before, and none is created for them.
\<close>

definition reconfigured :: "logs \<Rightarrow> log_define list \<Rightarrow> log_define list \<Rightarrow> logs \<Rightarrow> bool" where
  "reconfigured s old new s' \<longleftrightarrow>
     (\<forall>i \<in> set new - set old. configured s s' i) \<and>
     (\<forall>n \<in> ld_name ` set old - ld_name ` set new. dropped s' n) \<and>
     (\<forall>n. n \<notin> ld_name ` (set new - set old) \<and> n \<notin> ld_name ` set old - ld_name ` set new \<longrightarrow>
        logger_named s' n = logger_named s n)"

lemma reconfigured_refl [simp]: "reconfigured s ds ds s"
  by (simp add: reconfigured_def)

text \<open>From every consistent state of the manager, the listener ends without an error.\<close>

lemma log_conf_applied:
  assumes inv: "log_inv s" and "sorted_wrt define_lt old" and "sorted_wrt define_lt new"
  shows "\<exists>acts s'. on_logger_conf_changed strftime ev old new s = Some (Inr (acts, s')) \<and> log_inv s' \<and>
    reconfigured s old new s'"
proof -
  from inv obtain r where r: "log_heap s (m_rootLogger s) = Some r" unfolding log_inv_def by blast
  obtain acts0 s1 where s1: "log_statement strftime 2 s (m_rootLogger s) INFO ev = Some (Inr (acts0, s1))"
    "core s1 = core s"
    using logger_log_spec [OF inv r, of strftime INFO ev] r
    by (cases "l_level r \<le> INFO") (auto simp: log_statement_def)
  have same: "log_heap s1 = log_heap s" "m_loggers s1 = m_loggers s" "log_next s1 = log_next s"
    using s1(2) by (metis core_sel(1), metis core_sel(2), metis core_sel(4))
  have inv1: "log_inv s1" using inv s1(2) log_inv_core by metis
  let ?D = "{i \<in> set new. changed old i}" and ?R = "ld_name ` {i \<in> set old. set_find define_lt i new = None}"
  have "applied s1 {} s1" by (simp add: applied_def inv1)
  from conf_new_spec [OF inv1 this sorted_names [OF assms(3)], of old] obtain acts1 s2 where
    s2: "conf_new old s1 new = Inr (acts1, s2)" "applied s1 ?D s2" by auto
  have disj: "\<forall>i \<in> set old. set_find define_lt i new = None \<longrightarrow> ld_name i \<notin> ld_name ` ?D"
    using find_define [OF assms(3)] by auto
  from conf_removed_spec [OF applied_settled [OF s2(2)] disj] obtain acts2 s3 where
    s3: "conf_removed new s2 old = Inr (acts2, s3)" "settled s1 ?D ?R s3" by auto
  have D: "?D = set new - set old" using changed_iff [OF assms(2)] by auto
  have R: "?R = ld_name ` set old - ld_name ` set new" using find_define [OF assms(3)] by auto
  have conv: "logger_named s1 n = logger_named s n" "configured s1 s3 i = configured s s3 i" for n i
    unfolding logger_named_def configured_def old_formatter_def same by (rule refl)+
  have "on_logger_conf_changed strftime ev old new s = Some (Inr (acts0 @ acts1 @ acts2, s3))"
    by (simp add: on_logger_conf_changed_def s1(1) s2(1) s3(1))
  with s3(2) show ?thesis unfolding settled_def reconfigured_def D R conv by blast
qed

end
