(* ===== verification/Utils.thy ===== *)
theory Utils
  imports Prelude "HOL-Library.Signed_Division"
begin

text \<open>
  \<open>wille/util.cpp\<close>: the clock of the timers and the printing of a backtrace. What \<open>gettimeofday\<close> and
  \<open>backtrace_symbols\<close> return are arguments; \<open>None\<close> is a null pointer.
\<close>

definition GetCurrentMS :: "int \<Rightarrow> int \<Rightarrow> u64" where
  "GetCurrentMS tv_sec tv_usec = word_of_int tv_sec * 1000 + word_of_int (tv_usec sdiv 1000)"

definition Backtrace :: "string list option \<Rightarrow> string list \<Rightarrow> nat \<Rightarrow> string list" where
  "Backtrace symbols bt skip = (case symbols of None \<Rightarrow> bt | Some strings \<Rightarrow> bt @ drop skip strings)"

definition BacktraceToString :: "string list option \<Rightarrow> nat \<Rightarrow> string \<Rightarrow> string" where
  "BacktraceToString symbols skip prefix =
     concat (map (\<lambda>s. prefix @ s @ [CHR 0x0A]) (Backtrace symbols [] skip))"

text \<open>The clock counts milliseconds as long as they fit into 64 bits, so it keeps the order of times.\<close>

lemma GetCurrentMS_value:
  assumes "0 \<le> tv_sec" and "0 \<le> tv_usec" and "tv_usec < 1000000" and "tv_sec * 1000 + 1000 \<le> 2 ^ 64"
  shows "uint (GetCurrentMS tv_sec tv_usec) = tv_sec * 1000 + tv_usec div 1000"
proof -
  have "tv_usec sdiv 1000 = tv_usec div 1000"
    using assms(2) by (cases "tv_usec = 0") (simp_all add: signed_divide_int_def)
  then have ms: "GetCurrentMS tv_sec tv_usec = word_of_int (tv_sec * 1000 + tv_usec div 1000)"
    by (simp add: GetCurrentMS_def)
  have "0 \<le> tv_sec * 1000 + tv_usec div 1000" "tv_sec * 1000 + tv_usec div 1000 < 2 ^ 64"
    using assms by (auto simp: pos_imp_zdiv_nonneg_iff)
  then have "uint (word_of_int (tv_sec * 1000 + tv_usec div 1000) :: u64) = tv_sec * 1000 + tv_usec div 1000"
    by (subst uint_word_of_int) simp
  then show ?thesis by (simp only: ms)
qed

lemma GetCurrentMS_mono:
  assumes "0 \<le> s" and "0 \<le> u" and "u < 1000000" and "0 \<le> u'" and "u' < 1000000"
    and "s' * 1000 + 1000 \<le> 2 ^ 64" and "s < s' \<or> s = s' \<and> u \<le> u'"
  shows "GetCurrentMS s u \<le> GetCurrentMS s' u'"
proof -
  have "s * 1000 + 1000 \<le> 2 ^ 64" "0 \<le> s'" using assms by auto
  then have "uint (GetCurrentMS s u) \<le> uint (GetCurrentMS s' u')"
    using assms by (auto simp: GetCurrentMS_value intro: zdiv_mono1)
  then show ?thesis by (simp add: word_le_def)
qed

end
