(* ===== verification/Log_Macros.thy ===== *)
theory Log_Macros
  imports Logger_Props Utils
begin

text \<open>
  What the rest of the library uses of the log: the singleton of the logger manager
  (\<open>singleton.h\<close>), the statement macros and \<open>LogEventWrapper\<close> (\<open>log.h\<close>, \<open>log.cpp\<close>) and the assertion
  macros (\<open>macro.h\<close>), which log before they abort.
\<close>

subsection \<open>The singleton\<close>

text \<open>
  \<open>static T v\<close> in a function: constructed by the first call, \<open>None\<close> before it; if the constructor fails
  the object stays unconstructed.
\<close>

definition GetInstance :: "('e + 'a) \<Rightarrow> 'a option \<Rightarrow> 'e + 'a" where
  "GetInstance ctor v = (case v of None \<Rightarrow> ctor | Some x \<Rightarrow> Inr x)"

definition WILLE_LOG_ROOT :: "logs option \<Rightarrow> (ptr \<times> logs) logresult" where
  "WILLE_LOG_ROOT mgr =
     (case GetInstance LoggerManager_ctor mgr of Inl e \<Rightarrow> Inl e | Inr s \<Rightarrow> Inr (m_rootLogger s, s))"

definition WILLE_LOG_NAME :: "logs option \<Rightarrow> string \<Rightarrow> (ptr \<times> logs) logresult" where
  "WILLE_LOG_NAME mgr name =
     (case GetInstance LoggerManager_ctor mgr of Inl e \<Rightarrow> Inl e | Inr s \<Rightarrow> Inr (getLogger s name))"

subsection \<open>Statements\<close>

text \<open>What the macro reads at its place: \<open>__FILE__\<close>, \<open>__LINE__\<close>, the thread, the fiber and the time.\<close>

record call_site =
  c_file :: string
  c_line :: int
  c_threadId :: u32
  c_fiberId :: u32
  c_time :: u64
  c_threadName :: string

definition site_event :: "call_site \<Rightarrow> string \<Rightarrow> level \<Rightarrow> log_event" where
  "site_event c loggerName lv =
     new_LogEvent loggerName lv (c_file c) (c_line c) 0 (c_threadId c) (c_fiberId c) (c_time c) (c_threadName c)"

text \<open>The destructor of the wrapper hands the event, with the text streamed into it, to its logger.\<close>

definition LogEventWrapper_dtor ::
  "(string \<Rightarrow> u64 \<Rightarrow> string) \<Rightarrow> nat \<Rightarrow> logs \<Rightarrow> ptr \<Rightarrow> log_event \<Rightarrow> (log_action list \<times> logs) logresult option" where
  "LogEventWrapper_dtor strftime n s p m_event = logger_log strftime n s p (e_level m_event) m_event"

definition WILLE_LOG_LEVEL ::
  "(string \<Rightarrow> u64 \<Rightarrow> string) \<Rightarrow> nat \<Rightarrow> logs \<Rightarrow> ptr \<Rightarrow> level \<Rightarrow> call_site \<Rightarrow> string \<Rightarrow>
     (log_action list \<times> logs) logresult option" where
  "WILLE_LOG_LEVEL strftime n s p lv c streamed =
     (case log_heap s p of
        None \<Rightarrow> Some (Inl NullLogger)
      | Some l \<Rightarrow>
          if l_level l \<le> lv
          then (let ev = site_event c (l_name l) lv
                in LogEventWrapper_dtor strftime n s p (ev\<lparr>e_content := e_content ev @ streamed\<rparr>))
          else Some (Inr ([], s)))"

definition WILLE_LOG_DEBUG where "WILLE_LOG_DEBUG strftime n s p = WILLE_LOG_LEVEL strftime n s p DEBUG"

definition WILLE_LOG_INFO where "WILLE_LOG_INFO strftime n s p = WILLE_LOG_LEVEL strftime n s p INFO"

definition WILLE_LOG_WARN where "WILLE_LOG_WARN strftime n s p = WILLE_LOG_LEVEL strftime n s p WARN"

definition WILLE_LOG_ERROR where "WILLE_LOG_ERROR strftime n s p = WILLE_LOG_LEVEL strftime n s p ERROR"

definition WILLE_LOG_FATAL where "WILLE_LOG_FATAL strftime n s p = WILLE_LOG_LEVEL strftime n s p FATAL"

text \<open>The statements with a format; \<open>printed\<close> is what \<open>vasprintf\<close> makes of it, \<open>None\<close> its failure.\<close>

definition WILLE_LOG_FMT_LEVEL ::
  "(string \<Rightarrow> u64 \<Rightarrow> string) \<Rightarrow> nat \<Rightarrow> logs \<Rightarrow> ptr \<Rightarrow> level \<Rightarrow> call_site \<Rightarrow> string option \<Rightarrow>
     (log_action list \<times> logs) logresult option" where
  "WILLE_LOG_FMT_LEVEL strftime n s p lv c printed =
     (case log_heap s p of
        None \<Rightarrow> Some (Inl NullLogger)
      | Some l \<Rightarrow>
          if l_level l \<le> lv
          then LogEventWrapper_dtor strftime n s p (LogEvent_format printed (site_event c (l_name l) lv))
          else Some (Inr ([], s)))"

definition WILLE_LOG_FMT_DEBUG where
  "WILLE_LOG_FMT_DEBUG strftime n s p = WILLE_LOG_FMT_LEVEL strftime n s p DEBUG"

definition WILLE_LOG_FMT_INFO where
  "WILLE_LOG_FMT_INFO strftime n s p = WILLE_LOG_FMT_LEVEL strftime n s p INFO"

definition WILLE_LOG_FMT_WARN where
  "WILLE_LOG_FMT_WARN strftime n s p = WILLE_LOG_FMT_LEVEL strftime n s p WARN"

definition WILLE_LOG_FMT_ERROR where
  "WILLE_LOG_FMT_ERROR strftime n s p = WILLE_LOG_FMT_LEVEL strftime n s p ERROR"

definition WILLE_LOG_FMT_FATAL where
  "WILLE_LOG_FMT_FATAL strftime n s p = WILLE_LOG_FMT_LEVEL strftime n s p FATAL"

subsection \<open>Assertions\<close>

text \<open>
  A failed assertion logs the expression and the stack to the root logger; then \<open>assert\<close> aborts. The
  result is what was logged before the abort, or \<open>None\<close> when the condition holds and the code goes on.
\<close>

definition WILLE_ASSERT2 ::
  "(string \<Rightarrow> u64 \<Rightarrow> string) \<Rightarrow> logs option \<Rightarrow> call_site \<Rightarrow> string list option \<Rightarrow> bool \<Rightarrow> string \<Rightarrow> string option \<Rightarrow>
     (log_action list \<times> logs) logresult option option" where
  "WILLE_ASSERT2 strftime mgr c symbols x expr w =
     (if x then None
      else Some (case WILLE_LOG_ROOT mgr of
             Inl e \<Rightarrow> Some (Inl e)
           | Inr (r, s) \<Rightarrow>
               WILLE_LOG_ERROR strftime 2 s r c
                 (''ASSERTION: '' @ expr @ (case w of None \<Rightarrow> [] | Some t \<Rightarrow> [CHR 0x0A] @ t) @
                  [CHR 0x0A] @ ''backtrace:'' @ [CHR 0x0A] @ BacktraceToString symbols 2 ''    '')))"

definition WILLE_ASSERT where
  "WILLE_ASSERT strftime mgr c symbols x expr = WILLE_ASSERT2 strftime mgr c symbols x expr None"

subsection \<open>What a statement delivers\<close>

text \<open>A statement is the sequential \<open>log_statement\<close> on the event of its place.\<close>

lemma site_event_level [simp]: "e_level (site_event c name lv) = lv"
  by (simp add: site_event_def new_LogEvent_def)

lemma WILLE_LOG_LEVEL_statement:
  "log_heap s p = Some l \<Longrightarrow>
     WILLE_LOG_LEVEL strftime n s p lv c text =
       log_statement strftime n s p lv ((site_event c (l_name l) lv)\<lparr>e_content := text\<rparr>)"
  by (simp add: WILLE_LOG_LEVEL_def log_statement_def LogEventWrapper_dtor_def site_event_def new_LogEvent_def)

lemma WILLE_LOG_FMT_LEVEL_statement:
  "log_heap s p = Some l \<Longrightarrow>
     WILLE_LOG_FMT_LEVEL strftime n s p lv c printed =
       WILLE_LOG_LEVEL strftime n s p lv c (case printed of None \<Rightarrow> [] | Some buf \<Rightarrow> buf)"
  by (cases printed)
    (simp_all add: WILLE_LOG_FMT_LEVEL_def WILLE_LOG_LEVEL_def LogEvent_format_def LogEventWrapper_dtor_def
      site_event_def new_LogEvent_def)

text \<open>The same for every logger of a consistent manager, whatever its level.\<close>

lemma statement_delivers:
  assumes "log_inv s" and "log_heap s p = Some l"
  shows "\<exists>acts s'. log_statement strftime 2 s p lv ev = Some (Inr (acts, s')) \<and> core s' = core s \<and>
    emitted acts = delivered strftime s l lv ev"
proof (cases "l_level l \<le> lv")
  case True
  with logger_log_spec [OF assms] assms(2) show ?thesis by (simp add: log_statement_def)
next
  case False
  with assms(2) show ?thesis
    by (auto simp: log_statement_def delivered_def not_le)
qed

lemma WILLE_LOG_ROOT_inv:
  assumes "case mgr of None \<Rightarrow> s = fresh_logs | Some s1 \<Rightarrow> s = s1 \<and> log_inv s1"
  shows "WILLE_LOG_ROOT mgr = Inr (m_rootLogger s, s) \<and> log_inv s \<and> (\<exists>r. log_heap s (m_rootLogger s) = Some r)"
proof -
  have inv: "log_inv s" using assms fresh_logs_inv by (auto split: option.splits)
  then have "\<exists>r. log_heap s (m_rootLogger s) = Some r" unfolding log_inv_def by blast
  with inv assms show ?thesis
    by (auto simp: WILLE_LOG_ROOT_def GetInstance_def LoggerManager_ctor_eq split: option.splits)
qed

definition assertion_text :: "string list option \<Rightarrow> string \<Rightarrow> string" where
  "assertion_text symbols expr =
     ''ASSERTION: '' @ expr @ [CHR 0x0A] @ ''backtrace:'' @ [CHR 0x0A] @ BacktraceToString symbols 2 ''    ''"


definition sample_site :: call_site where
  "sample_site = \<lparr>c_file = ''a.cpp'', c_line = 7, c_threadId = 1, c_fiberId = 0, c_time = 10, c_threadName = ''main''\<rparr>"


end
