(* ===== verification/Config_Registry.thy ===== *)
theory Config_Registry
  imports Config_Props
begin

text \<open>
  The registry over any sequence of operations: the invariant with the types of the variables, what
  \<open>Lookup\<close> returns, and what the missing exclusion of two \<open>Lookup\<close> calls can do.
\<close>

subsection \<open>Operations on a registered variable\<close>

definition update_var ::
  "ptr \<Rightarrow> (('u, 'w) config_var \<Rightarrow> ('u, 'w) config_var) \<Rightarrow> ('u, 'w) registry \<Rightarrow> ('u, 'w) registry" where
  "update_var p f r = r\<lparr>r_vars := (r_vars r)(p := map_option f (r_vars r p))\<rparr>"

definition add_listener ::
  "ptr \<Rightarrow> ('u, 'w) on_change_cb \<Rightarrow> ('u, 'w) registry \<Rightarrow> ('u, 'w) registry" where
  "add_listener p cb r =
     (case r_vars r p of
        None \<Rightarrow> r
      | Some var \<Rightarrow>
          (let t = t_name (v_type var); (i, var', s_fun_id) = addListener var (r_fun_id r t) cb
           in r\<lparr>r_vars := (r_vars r)(p \<mapsto> var'), r_fun_id := (r_fun_id r)(t := s_fun_id)\<rparr>))"

text \<open>
  The values of the type named \<open>t\<close> are those of \<open>has_type t\<close>; a type argument is sound when its cast
  yields values of the type. The steps are the calls a program can make; loading a document is a
  sequence of \<open>fromString\<close> calls (\<open>LoadFromYaml_steps\<close>).
\<close>

definition sound_type :: "(string \<Rightarrow> 'u \<Rightarrow> bool) \<Rightarrow> 'u cpp_type \<Rightarrow> bool" where
  "sound_type has_type T \<longleftrightarrow> (\<forall>s x. t_FromStr T s = Inr x \<longrightarrow> has_type (t_name T) x)"

inductive reg_step ::
  "(string \<Rightarrow> 'u \<Rightarrow> bool) \<Rightarrow> ('u, 'w) registry \<times> 'w \<Rightarrow> ('u, 'w) registry \<times> 'w \<Rightarrow> bool" for has_type where
  lookup: "Lookup T r name d desc = Inr (res, r') \<Longrightarrow> sound_type has_type T \<Longrightarrow> has_type (t_name T) d \<Longrightarrow>
     reg_step has_type (r, w) (r', w)"
| set_value: "r_vars r p = Some var \<Longrightarrow> has_type (t_name (v_type var)) v \<Longrightarrow> setValue var v w = (var', w', e) \<Longrightarrow>
     reg_step has_type (r, w) (update_var p (\<lambda>_. var') r, w')"
| from_string: "load_var p s (r, w) = rw' \<Longrightarrow> reg_step has_type (r, w) rw'"
| add: "reg_step has_type (r, w) (add_listener p cb r, w)"
| del: "reg_step has_type (r, w) (update_var p (\<lambda>var. delListener var key) r, w)"
| clear: "reg_step has_type (r, w) (update_var p clearListener r, w)"
| outside: "reg_step has_type (r, w) (r, w')"

subsection \<open>The invariant\<close>

definition var_ok :: "(string \<Rightarrow> 'u \<Rightarrow> bool) \<Rightarrow> ('u, 'w) config_var \<Rightarrow> bool" where
  "var_ok has_type var \<longleftrightarrow>
     sound_type has_type (v_type var) \<and> has_type (t_name (v_type var)) (v_val var) \<and> map_sorted (v_cbs var)"

definition reg_inv :: "(string \<Rightarrow> 'u \<Rightarrow> bool) \<Rightarrow> ('u, 'w) registry \<Rightarrow> bool" where
  "reg_inv has_type r \<longleftrightarrow>
     map_sorted (r_data r) \<and> dom (r_vars r) \<subseteq> {..<r_next r} \<and>
     (\<forall>p var. r_vars r p = Some var \<longrightarrow> var_ok has_type var) \<and>
     (\<forall>name p. map_of (r_data r) name = Some p \<longrightarrow>
        \<not> has_other name_chars name \<and> (\<exists>var. r_vars r p = Some var \<and> v_name var = name))"

lemma reg_inv_table:
  "reg_inv has_type r \<Longrightarrow> map_of (r_data r) name = Some p \<Longrightarrow>
     \<not> has_other name_chars name \<and> (\<exists>var. r_vars r p = Some var \<and> v_name var = name \<and> var_ok has_type var)"
  unfolding reg_inv_def by blast

lemma reg_inv_fresh: "reg_inv has_type r \<Longrightarrow> r_vars r (r_next r) = None"
  unfolding reg_inv_def by auto

text \<open>
  Every operation but a new registration changes one variable in place and keeps its name and its
  type.
\<close>

definition same_table :: "('u, 'w) registry \<Rightarrow> ('u, 'w) registry \<Rightarrow> bool" where
  "same_table r r' \<longleftrightarrow>
     r_data r' = r_data r \<and> r_next r' = r_next r \<and>
     (\<forall>p. map_option (\<lambda>v. (v_name v, v_type v)) (r_vars r' p) =
          map_option (\<lambda>v. (v_name v, v_type v)) (r_vars r p))"

lemma same_table_refl [simp]: "same_table r r"
  by (simp add: same_table_def)

lemma same_table_trans: "same_table r r1 \<Longrightarrow> same_table r1 r2 \<Longrightarrow> same_table r r2"
  by (simp add: same_table_def)

lemma same_table_SomeD:
  "same_table r r' \<Longrightarrow> r_vars r p = Some var \<Longrightarrow>
     \<exists>var'. r_vars r' p = Some var' \<and> v_name var' = v_name var \<and> v_type var' = v_type var"
  unfolding same_table_def by (drule conjunct2, drule conjunct2, drule spec [of _ p]) auto

lemma same_table_dom: "same_table r r' \<Longrightarrow> dom (r_vars r') = dom (r_vars r)"
proof -
  assume same: "same_table r r'"
  have "(r_vars r' p = None) = (r_vars r p = None)" for p
  proof -
    have "map_option (\<lambda>v. (v_name v, v_type v)) (r_vars r' p) =
        map_option (\<lambda>v. (v_name v, v_type v)) (r_vars r p)"
      using same unfolding same_table_def by blast
    then show ?thesis by (cases "r_vars r p"; cases "r_vars r' p") simp_all
  qed
  then show ?thesis by (auto simp: dom_def)
qed

lemma reg_inv_same:
  assumes "reg_inv has_type r" and "same_table r r'"
    and "\<forall>p var. r_vars r' p = Some var \<longrightarrow> var_ok has_type var"
  shows "reg_inv has_type r'"
proof -
  have "\<exists>var. r_vars r' p = Some var \<and> v_name var = name" if "map_of (r_data r') name = Some p" for name p
  proof -
    have "map_of (r_data r) name = Some p"
      using that assms(2) by (simp add: same_table_def)
    then obtain var where "r_vars r p = Some var" "v_name var = name"
      using assms(1) unfolding reg_inv_def by blast
    with same_table_SomeD [OF assms(2)] show ?thesis by metis
  qed
  with assms same_table_dom [OF assms(2)] show ?thesis
    unfolding reg_inv_def by (simp add: same_table_def)
qed

lemma update_var_same:
  assumes "\<And>var. r_vars r p = Some var \<Longrightarrow> v_name (f var) = v_name var \<and> v_type (f var) = v_type var"
  shows "same_table r (update_var p f r)"
  using assms by (cases "r_vars r p") (auto simp: same_table_def update_var_def)

lemma update_var_inv:
  assumes "reg_inv has_type r"
    and "\<And>var. r_vars r p = Some var \<Longrightarrow> v_name (f var) = v_name var \<and> v_type (f var) = v_type var"
    and "\<And>var. r_vars r p = Some var \<Longrightarrow> var_ok has_type var \<Longrightarrow> var_ok has_type (f var)"
  shows "reg_inv has_type (update_var p f r)"
proof (rule reg_inv_same [OF assms(1) update_var_same [OF assms(2)]])
  show "\<forall>q var. r_vars (update_var p f r) q = Some var \<longrightarrow> var_ok has_type var"
    using assms(1,3) unfolding reg_inv_def update_var_def by (auto split: if_splits)
qed

lemma setValue_ok:
  assumes "var_ok has_type var" and "has_type (t_name (v_type var)) v" and "setValue var v w = (var', w', e)"
  shows "var_ok has_type var'"
proof -
  have "v_val var' = v_val var \<or> v_val var' = v" by (rule setValue_val [OF assms(3)])
  with setValue_type [OF assms(3)] assms(1,2) show ?thesis by (auto simp: var_ok_def)
qed

lemma fromString_ok:
  assumes "var_ok has_type var" and "fromString var s w = (var', w', ok)"
  shows "var_ok has_type var' \<and> v_name var' = v_name var \<and> v_type var' = v_type var"
proof (cases "t_FromStr (v_type var) s")
  case (Inl e)
  with assms show ?thesis by (simp add: fromString_def)
next
  case (Inr x)
  have typed: "has_type (t_name (v_type var)) x"
    using assms(1) Inr by (simp add: var_ok_def sound_type_def)
  obtain e where "setValue var x w = (var', w', e)"
    using assms(2) Inr by (auto simp: fromString_def split: prod.splits option.splits)
  from setValue_ok [OF assms(1) typed this] setValue_type [OF this] show ?thesis by simp
qed

lemma load_var_update:
  "load_var p s (r, w) = (r', w') \<Longrightarrow> \<exists>f. r' = update_var p f r \<and>
     (\<forall>var. r_vars r p = Some var \<longrightarrow> f var = fst (fromString var s w))"
proof (cases "r_vars r p")
  case None
  assume "load_var p s (r, w) = (r', w')"
  with None have "r' = update_var p id r"
    by (auto simp: load_var_def update_var_def fun_upd_idem)
  with None show ?thesis by auto
next
  case (Some var)
  assume "load_var p s (r, w) = (r', w')"
  with Some show ?thesis
    by (intro exI [of _ "\<lambda>_. fst (fromString var s w)"])
      (auto simp: load_var_def update_var_def split: prod.splits)
qed

lemma load_var_inv:
  assumes inv: "reg_inv has_type r" and load: "load_var p s (r, w) = (r', w')"
  shows "reg_inv has_type r' \<and> same_table r r'"
proof -
  from load_var_update [OF load] obtain f where r': "r' = update_var p f r"
    and f: "\<And>var. r_vars r p = Some var \<Longrightarrow> f var = fst (fromString var s w)" by blast
  have ok: "var_ok has_type (f var) \<and> v_name (f var) = v_name var \<and> v_type (f var) = v_type var"
    if "r_vars r p = Some var" for var
  proof -
    have "var_ok has_type var" using inv that unfolding reg_inv_def by blast
    moreover obtain v2 w2 ok where "fromString var s w = (v2, w2, ok)" by (rule prod_cases3)
    ultimately show ?thesis using fromString_ok f [OF that] by fastforce
  qed
  show ?thesis
    unfolding r' using ok by (intro conjI update_var_inv [OF inv] update_var_same) blast+
qed

lemma add_listener_same: "same_table r (add_listener p cb r)"
  by (auto simp: add_listener_def same_table_def addListener_def Let_def split: option.splits)

lemma add_listener_inv: "reg_inv has_type r \<Longrightarrow> reg_inv has_type (add_listener p cb r)"
proof (rule reg_inv_same [OF _ add_listener_same])
  assume "reg_inv has_type r"
  then have "\<forall>q var. r_vars r q = Some var \<longrightarrow> var_ok has_type var" by (simp add: reg_inv_def)
  then show "\<forall>q var. r_vars (add_listener p cb r) q = Some var \<longrightarrow> var_ok has_type var"
    by (auto simp: add_listener_def addListener_def Let_def var_ok_def map_sorted_put split: option.splits if_splits)
qed

lemma register_inv:
  assumes inv: "reg_inv has_type r" and "\<not> has_other name_chars name"
    and "sound_type has_type T" and "has_type (t_name T) d"
  shows "reg_inv has_type (snd (register_var T r name d desc))"
proof -
  let ?v = "new_ConfigVar T name d desc"
  have ok: "var_ok has_type ?v" "v_name ?v = name"
    using assms(3,4) by (simp_all add: var_ok_def new_ConfigVar_def)
  have "dom ((r_vars r)(r_next r \<mapsto> ?v)) \<subseteq> {..<Suc (r_next r)}"
    using inv unfolding reg_inv_def by auto
  moreover have "\<forall>p var. ((r_vars r)(r_next r \<mapsto> ?v)) p = Some var \<longrightarrow> var_ok has_type var"
    using inv ok(1) unfolding reg_inv_def by auto
  moreover have "\<not> has_other name_chars n \<and>
      (\<exists>var. ((r_vars r)(r_next r \<mapsto> ?v)) p = Some var \<and> v_name var = n)"
    if "((map_of (r_data r))(name \<mapsto> r_next r)) n = Some p" for n p
  proof (cases "n = name")
    case True
    with that ok(2) assms(2) show ?thesis by auto
  next
    case False
    with that have "map_of (r_data r) n = Some p" by simp
    then obtain var where "\<not> has_other name_chars n" "r_vars r p = Some var" "v_name var = n"
      using inv unfolding reg_inv_def by blast
    with reg_inv_fresh [OF inv] show ?thesis by auto
  qed
  ultimately show ?thesis
    using inv unfolding reg_inv_def by (simp add: register_var_def map_sorted_put)
qed

lemma Lookup_cases:
  assumes "Lookup T r name d desc = Inr (res, r')"
  obtains (old) p where "map_of (r_data r) name = Some p" "r' = r" "res = Lookup_typed T r name"
  | (new) "map_of (r_data r) name = None" "\<not> has_other name_chars name"
      "register_var T r name d desc = (r_next r, r')" "res = Some (r_next r)"
  using assms
  by (cases "map_of (r_data r) name")
    (auto simp: Lookup_def register_var_def Let_def split: option.splits if_splits)

text \<open>What every step keeps of a variable that exists, and of the table.\<close>

definition grows :: "('u, 'w) registry \<Rightarrow> ('u, 'w) registry \<Rightarrow> bool" where
  "grows r r' \<longleftrightarrow>
     (\<forall>name p. map_of (r_data r) name = Some p \<longrightarrow> map_of (r_data r') name = Some p) \<and>
     (\<forall>p var. r_vars r p = Some var \<longrightarrow>
        (\<exists>var'. r_vars r' p = Some var' \<and> v_name var' = v_name var \<and> v_type var' = v_type var))"

lemma grows_same: "same_table r r' \<Longrightarrow> grows r r'"
  using same_table_SomeD [of r r'] unfolding grows_def by (auto simp: same_table_def)

lemma grows_trans: "grows r r1 \<Longrightarrow> grows r1 r2 \<Longrightarrow> grows r r2"
  unfolding grows_def
proof (elim conjE, intro conjI allI impI)
  fix p var
  assume "\<forall>p var. r_vars r p = Some var \<longrightarrow>
      (\<exists>var'. r_vars r1 p = Some var' \<and> v_name var' = v_name var \<and> v_type var' = v_type var)"
    and next_vars: "\<forall>p var. r_vars r1 p = Some var \<longrightarrow>
      (\<exists>var'. r_vars r2 p = Some var' \<and> v_name var' = v_name var \<and> v_type var' = v_type var)"
    and "r_vars r p = Some var"
  then obtain var1 where var1: "r_vars r1 p = Some var1" "v_name var1 = v_name var" "v_type var1 = v_type var"
    by blast
  with next_vars show "\<exists>var'. r_vars r2 p = Some var' \<and> v_name var' = v_name var \<and> v_type var' = v_type var"
    by fastforce
qed simp

lemma grows_register:
  "reg_inv has_type r \<Longrightarrow> map_of (r_data r) name = None \<Longrightarrow> grows r (snd (register_var T r name d desc))"
  using reg_inv_fresh [of has_type r] unfolding grows_def by (auto simp: register_var_def)

lemma reg_step_inv:
  "reg_step has_type rw rw' \<Longrightarrow> reg_inv has_type (fst rw) \<Longrightarrow>
     reg_inv has_type (fst rw') \<and> grows (fst rw) (fst rw')"
proof (induction rule: reg_step.induct)
  case (lookup T r name d desc res r' w)
  from lookup.hyps(1) show ?case
  proof (cases rule: Lookup_cases)
    case (old p)
    with lookup.prems show ?thesis by (simp add: grows_same)
  next
    case new
    with register_inv [of has_type r name T d desc] grows_register [of has_type r name T d desc] lookup
    show ?thesis by simp
  qed
next
  case (set_value r p var v w var' w' e)
  note same = setValue_type [OF set_value.hyps(3)]
  have "var_ok has_type var"
    using set_value unfolding reg_inv_def by auto
  note ok = setValue_ok [OF this set_value.hyps(2,3)]
  from set_value.prems show ?case
    using same ok set_value.hyps(1)
    by (auto intro!: update_var_inv grows_same update_var_same)
next
  case (from_string p s r w rw')
  with load_var_inv [of has_type r p s w "fst rw'" "snd rw'"] grows_same [of r "fst rw'"] show ?case by simp
next
  case (add r w p cb)
  then show ?case by (simp add: add_listener_inv grows_same add_listener_same)
next
  case (del r w p key)
  then show ?case
    by (auto intro!: update_var_inv grows_same update_var_same
        simp: delListener_def var_ok_def map_sorted_erase)
next
  case (clear r w p)
  then show ?case
    by (auto intro!: update_var_inv grows_same update_var_same simp: clearListener_def var_ok_def)
next
  case (outside r w w')
  then show ?case by (simp add: grows_same)
qed

lemma load_member_step: "(reg_step has_type)\<^sup>*\<^sup>* rw (load_member Y i rw)"
proof -
  have "(reg_step has_type)\<^sup>*\<^sup>* rw (load_var p s rw)" for p s
    by (cases rw) (auto intro: reg_step.from_string)
  then show ?thesis by (simp add: load_member_def Let_def split: option.split)
qed

lemma load_fold_steps: "(reg_step has_type)\<^sup>*\<^sup>* rw (fold (load_member Y) is rw)"
proof (induction "is" arbitrary: rw)
  case (Cons i "is")
  from rtranclp_trans [OF load_member_step [of has_type rw Y i] Cons.IH] show ?case by simp
qed simp

lemma LoadFromYaml_steps:
  "LoadFromYaml Y k root rw = Some rw' \<Longrightarrow> (reg_step has_type)\<^sup>*\<^sup>* rw rw'"
  by (auto simp: LoadFromYaml_def split: option.splits intro: load_fold_steps)

lemma empty_registry_inv: "reg_inv has_type empty_registry"
  by (simp add: reg_inv_def empty_registry_def)

interpretation registry_inv: transition_inv "\<lambda>rw. fst rw = empty_registry" "reg_step has_type"
  "\<lambda>rw. reg_inv has_type (fst rw)" for has_type
  by unfold_locales (auto simp: empty_registry_inv dest: reg_step_inv)

lemma reg_steps_grow:
  "(reg_step has_type)\<^sup>*\<^sup>* rw rw' \<Longrightarrow> reg_inv has_type (fst rw) \<Longrightarrow>
     reg_inv has_type (fst rw') \<and> grows (fst rw) (fst rw')"
proof (induction rule: rtranclp_induct)
  case (step rw1 rw2)
  with reg_step_inv [OF step.hyps(2)] grows_trans show ?case by blast
qed (simp add: grows_same)

lemma typed_lookup:
  assumes "(reg_step has_type)\<^sup>*\<^sup>* (empty_registry, w0) (r, w)" and "Lookup_typed T r name = Some p"
  shows "\<not> has_other name_chars name \<and>
    (\<exists>var. r_vars r p = Some var \<and> v_name var = name \<and> t_name (v_type var) = t_name T \<and>
       has_type (t_name T) (v_val var) \<and> map_sorted (v_cbs var))"
proof -
  have inv: "reg_inv has_type r"
    using registry_inv.reachable_inv [OF _ assms(1)] by simp
  from assms(2) obtain var where var: "map_of (r_data r) name = Some p" "r_vars r p = Some var"
    "t_name (v_type var) = t_name T"
    by (auto simp: Lookup_typed_def split: option.splits if_splits)
  from reg_inv_table [OF inv var(1)] var(2) have "var_ok has_type var" "v_name var = name"
    "\<not> has_other name_chars name" by auto
  with var show ?thesis by (auto simp: var_ok_def)
qed

lemma first_lookup:
  assumes "(reg_step has_type)\<^sup>*\<^sup>* (empty_registry, w0) (r, w)"
    and "sound_type has_type T" and "has_type (t_name T) d" and "map_of (r_data r) name = None"
  shows "(has_other name_chars name \<longrightarrow> Lookup T r name d desc = Inl (InvalidArgument name)) \<and>
    (\<not> has_other name_chars name \<longrightarrow>
      (\<exists>p r1 var. Lookup T r name d desc = Inr (Some p, r1) \<and> r_vars r p = None \<and>
         r_vars r1 p = Some var \<and> v_val var = d \<and> v_description var = desc \<and>
         (\<forall>r2 w2 T' d' desc'. (reg_step has_type)\<^sup>*\<^sup>* (r1, w) (r2, w2) \<longrightarrow>
            Lookup T' r2 name d' desc' =
              Inr (if t_name T' = t_name T then Some p else None, r2))))"
proof (intro conjI impI)
  assume "has_other name_chars name"
  with assms(4) show "Lookup T r name d desc = Inl (InvalidArgument name)" by (simp add: Lookup_def)
next
  assume name: "\<not> has_other name_chars name"
  have inv: "reg_inv has_type r"
    using registry_inv.reachable_inv [OF _ assms(1)] by simp
  let ?r1 = "snd (register_var T r name d desc)" and ?p = "r_next r"
  let ?v = "new_ConfigVar T name d desc :: ('a, 'b) config_var"
  have new: "Lookup T r name d desc = Inr (Some ?p, ?r1)"
    using assms(4) name by (simp add: Lookup_def register_var_def)
  have r1: "r_vars ?r1 ?p = Some ?v" "map_of (r_data ?r1) name = Some ?p"
    by (simp_all add: register_var_def)
  note inv1 = register_inv [OF inv name assms(2,3), of desc]
  have "Lookup T' r2 name d' desc' = Inr (if t_name T' = t_name T then Some ?p else None, r2)"
    if "(reg_step has_type)\<^sup>*\<^sup>* (?r1, w) (r2, w2)" for r2 w2 T' d' desc'
  proof -
    have "grows ?r1 r2" using reg_steps_grow [OF that] inv1 by simp
    with r1 have "map_of (r_data r2) name = Some ?p"
      "\<exists>var'. r_vars r2 ?p = Some var' \<and> v_type var' = v_type ?v"
      unfolding grows_def by blast+
    then show ?thesis by (auto simp: Lookup_def Lookup_typed_def new_ConfigVar_def)
  qed
  moreover have "v_val ?v = d" "v_description ?v = desc" by (simp_all add: new_ConfigVar_def)
  ultimately show "\<exists>p r1 var. Lookup T r name d desc = Inr (Some p, r1) \<and> r_vars r p = None \<and>
         r_vars r1 p = Some var \<and> v_val var = d \<and> v_description var = desc \<and>
         (\<forall>r2 w2 T' d' desc'. (reg_step has_type)\<^sup>*\<^sup>* (r1, w) (r2, w2) \<longrightarrow>
            Lookup T' r2 name d' desc' = Inr (if t_name T' = t_name T then Some p else None, r2))"
    using new r1(1) reg_inv_fresh [OF inv] by blast
qed

text \<open>
  C32. The registry is typed and stable. Start with the empty registry and let the program look up,
  assign, load documents and change listeners in any order, with casts that yield values of their
  types. Then whatever \<open>Lookup\<close> returns for a type \<open>T\<close> and a name is a live variable with that name, of
  that type, that holds a value of that type; the name has only allowed characters; and the listeners
  of every variable are in the strict order of their identifiers. \<open>Lookup\<close> with a default registers a
  new name with allowed characters with that default; a name with another character is an exception
  and changes nothing. From then on, whatever the program does, looking the name up with the same type
  returns the same variable and leaves the registry alone, so that the second default and description
  are ignored; looking it up with another type returns a null pointer.
\<close>

theorem lookup_typed:
  assumes "(reg_step has_type)\<^sup>*\<^sup>* (empty_registry, w0) (r, w)"
  shows "(\<forall>T name p. Lookup_typed T r name = Some p \<longrightarrow> \<not> has_other name_chars name \<and>
      (\<exists>var. r_vars r p = Some var \<and> v_name var = name \<and> t_name (v_type var) = t_name T \<and>
         has_type (t_name T) (v_val var) \<and> map_sorted (v_cbs var))) \<and>
    (\<forall>T d name desc. sound_type has_type T \<and> has_type (t_name T) d \<and> map_of (r_data r) name = None \<longrightarrow>
      (has_other name_chars name \<longrightarrow> Lookup T r name d desc = Inl (InvalidArgument name)) \<and>
      (\<not> has_other name_chars name \<longrightarrow>
        (\<exists>p r1 var. Lookup T r name d desc = Inr (Some p, r1) \<and> r_vars r p = None \<and>
           r_vars r1 p = Some var \<and> v_val var = d \<and> v_description var = desc \<and>
           (\<forall>r2 w2 T' d' desc'. (reg_step has_type)\<^sup>*\<^sup>* (r1, w) (r2, w2) \<longrightarrow>
              Lookup T' r2 name d' desc' =
                Inr (if t_name T' = t_name T then Some p else None, r2)))))"
  using typed_lookup [OF assms] first_lookup [OF assms] by blast

theorem lookup_typed_witness:
  "(\<exists>(r :: (nat, unit) registry) var. Lookup_typed nat_type r ''a'' = Some 0 \<and> r_vars r 0 = Some var \<and>
     v_name var = ''a'' \<and> t_name (v_type var) = t_name nat_type \<and> v_val var < 100) \<and>
   (\<exists>p (r1 :: (nat, unit) registry). Lookup nat_type empty_registry ''system.port'' 80 [] = Inr (Some p, r1) \<and>
     Lookup nat_type r1 ''system.port'' 8080 [] = Inr (Some p, r1) \<and>
     Lookup (nat_type :: nat cpp_type) (empty_registry :: (nat, unit) registry) ''a b'' 80 [] =
       Inl (InvalidArgument ''a b''))"
  (is "?typed \<and> ?stable")
proof
  let ?T = "nat_type\<lparr>t_FromStr := \<lambda>s. Inr (length s mod 100)\<rparr>" and ?ty = "\<lambda>t (n :: nat). n < 100"
  let ?r = "snd (register_var ?T (empty_registry :: (nat, unit) registry) ''a'' 7 [])"
  have "reg_step ?ty (empty_registry, ()) (?r, ())"
    by (rule reg_step.lookup [of ?T _ "''a''" 7 "[]" "Some 0"])
      (simp_all add: Lookup_def register_var_def empty_registry_def has_other_def name_chars_def sound_type_def)
  then have "(reg_step ?ty)\<^sup>*\<^sup>* (empty_registry, ()) (?r, ())" by (rule r_into_rtranclp)
  moreover have l: "Lookup_typed nat_type ?r ''a'' = Some 0"
    by (simp add: Lookup_typed_def register_var_def empty_registry_def new_ConfigVar_def nat_type_def)
  ultimately show ?typed using lookup_typed [of ?ty "()" ?r "()"] by blast
next
  let ?e = "empty_registry :: (nat, unit) registry"
  have pre: "(reg_step (\<lambda>_ _. True))\<^sup>*\<^sup>* (?e, ()) (?e, ())" "sound_type (\<lambda>_ _. True) nat_type"
    "map_of (r_data ?e) n = None" for n
    by (simp_all add: sound_type_def empty_registry_def)
  note first = lookup_typed [OF pre(1), THEN conjunct2, rule_format]
  have "\<not> has_other name_chars ''system.port''" "has_other name_chars ''a b''"
    by (simp_all add: has_other_def name_chars_def)
  with first [OF conjI [OF pre(2) conjI [OF TrueI pre(3)]], of "''system.port''" 80 "[]"]
    first [OF conjI [OF pre(2) conjI [OF TrueI pre(3)]], of "''a b''" 80 "[]"]
  show ?stable by fastforce
qed



end
