(* ===== verification/Config_Load.thy ===== *)
theory Config_Load
  imports Config_Registry
begin

text \<open>
  Loading a document: the accumulating, pruning recursion of \<open>ListAllMember\<close> against the plain
  enumeration of all paths of the document, and what ends up in which variable.
\<close>

subsection \<open>The reference: all paths of a document\<close>

text \<open>\<open>fits Y k n\<close>: the maps below \<open>n\<close> are nested less than \<open>k\<close> deep.\<close>

fun fits :: "'n yaml \<Rightarrow> nat \<Rightarrow> 'n \<Rightarrow> bool" where
  "fits Y 0 n = False"
| "fits Y (Suc k) n = (y_IsMap Y n \<longrightarrow> (\<forall>e \<in> set (y_entries Y n). fits Y k (snd e)))"

fun all_paths :: "'n yaml \<Rightarrow> nat \<Rightarrow> 'n \<Rightarrow> (string list \<times> 'n) list" where
  "all_paths Y 0 n = []"
| "all_paths Y (Suc k) n =
     ([], n) #
     (if y_IsMap Y n
      then concat (map (\<lambda>e. map (\<lambda>(ks, l). (y_Scalar Y (fst e) # ks, l)) (all_paths Y k (snd e))) (y_entries Y n))
      else [])"

definition join :: "string \<Rightarrow> string \<Rightarrow> string" where
  "join prefix k = (if prefix = [] then k else prefix @ ''.'' @ k)"

definition extend :: "string \<Rightarrow> string list \<Rightarrow> string" where
  "extend prefix ks = foldl join prefix ks"

definition loadable :: "string \<Rightarrow> bool" where
  "loadable name \<longleftrightarrow> \<not> has_other member_chars name"

definition members_of :: "'n yaml \<Rightarrow> nat \<Rightarrow> 'n \<Rightarrow> (string \<times> 'n) list" where
  "members_of Y k root =
     filter (\<lambda>m. loadable (fst m)) (map (\<lambda>(ks, l). (extend [] ks, l)) (all_paths Y k root))"

lemma extend_simps [simp]: "extend prefix [] = prefix" "extend prefix (k # ks) = extend (join prefix k) ks"
  by (simp_all add: extend_def)

text \<open>A name that is not loadable has no loadable extension: pruning below it loses nothing.\<close>

lemma loadable_extend: "loadable (extend prefix ks) \<Longrightarrow> loadable prefix"
proof (induction ks arbitrary: prefix)
  case (Cons k ks)
  from Cons.IH [of "join prefix k"] Cons.prems have "loadable (join prefix k)" by simp
  then show ?case by (auto simp: loadable_def has_other_def join_def list_ex_iff split: if_splits)
qed simp

definition below :: "'n yaml \<Rightarrow> nat \<Rightarrow> string \<Rightarrow> 'n \<Rightarrow> (string \<times> 'n) list" where
  "below Y k prefix n =
     filter (\<lambda>m. loadable (fst m)) (map (\<lambda>(ks, l). (extend prefix ks, l)) (all_paths Y k n))"

lemma below_pruned: "\<not> loadable prefix \<Longrightarrow> below Y k prefix n = []"
  using loadable_extend [of prefix] by (auto simp: below_def filter_empty_conv)

lemma below_Suc:
  "loadable prefix \<Longrightarrow> below Y (Suc k) prefix n = (prefix, n) #
     (if y_IsMap Y n
      then concat (map (\<lambda>e. below Y k (join prefix (y_Scalar Y (fst e))) (snd e)) (y_entries Y n))
      else [])"
  by (simp add: below_def filter_concat map_concat comp_def case_prod_unfold)

lemma ListAllMember_below:
  "fits Y k node \<Longrightarrow> ListAllMember Y k prefix node output = Some (output @ below Y k prefix node)"
  "\<forall>e \<in> set es. fits Y k (snd e) \<Longrightarrow> list_members Y k prefix es output =
     Some (output @ concat (map (\<lambda>e. below Y k (join prefix (y_Scalar Y (fst e))) (snd e)) es))"
proof (induction Y k prefix node "output" and Y k prefix es "output" rule: ListAllMember_list_members.induct)
  case (2 Y k prefix node "output")
  show ?case
  proof (cases "has_other member_chars prefix")
    case True
    then have "below Y (Suc k) prefix node = []"
      by (intro below_pruned) (simp add: loadable_def)
    with True show ?thesis by simp
  next
    case False
    then have "loadable prefix" by (simp add: loadable_def)
    note step = below_Suc [OF this, of Y k node]
    show ?thesis
    proof (cases "y_IsMap Y node")
      case True
      with 2(2) have "\<forall>e \<in> set (y_entries Y node). fits Y k (snd e)" by simp
      from 2(1) [OF False True this] False True show ?thesis by (simp add: step)
    qed (simp add: False step)
  qed
next
  case (4 Y k prefix key n es "output")
  then have fits: "fits Y k n" "\<forall>e \<in> set es. fits Y k (snd e)" by simp_all
  note first = 4(1) [OF fits(1)]
  from 4(2) [OF first fits(2)] first show ?case by (simp add: join_def)
qed simp_all

text \<open>
  C34. Loading a document equals the reference: list every path of the document in preorder, name
  each node by its keys joined with dots, keep the names that have only lower-case letters,
  digits, dots and underscores, and give each kept node in this order to the variable of its name.
  The recursion that carries a list along and stops below a bad name computes just that, and
  every bound on the depth that is enough for the document gives this result: loading ends.
\<close>

theorem load_equals_reference:
  assumes "fits Y k root"
  shows "LoadFromYaml Y k root rw = Some (fold (load_member Y) (members_of Y k root) rw)"
  using ListAllMember_below(1) [OF assms, of "[]" "[]"]
  by (simp add: LoadFromYaml_def members_of_def below_def)

definition sample_doc :: ynode where
  "sample_doc = YMap [(''system'', YMap [(''port'', YScalar ''99''), (''Name'', YScalar ''x'')])]"

lemma sample_members:
  "fits yaml_tree 3 sample_doc \<and>
   members_of yaml_tree 3 sample_doc =
     [([], sample_doc), (''system'', YMap [(''port'', YScalar ''99''), (''Name'', YScalar ''x'')]),
      (''system.port'', YScalar ''99'')]"
  by (simp add: sample_doc_def yaml_tree_def members_of_def numeral_3_eq_3 join_def loadable_def
      has_other_def member_chars_def)

theorem load_equals_reference_witness:
  "LoadFromYaml yaml_tree 3 sample_doc (empty_registry :: (nat, unit) registry, ()) =
     Some (fold (load_member yaml_tree)
       [([], sample_doc), (''system'', YMap [(''port'', YScalar ''99''), (''Name'', YScalar ''x'')]),
        (''system.port'', YScalar ''99'')] (empty_registry, ()))"
  using load_equals_reference [OF conjunct1 [OF sample_members], of "(empty_registry :: (nat, unit) registry, ())"]
  unfolding conjunct2 [OF sample_members] .

subsection \<open>What a variable gets\<close>

lemma tolower_member: "loadable name \<Longrightarrow> map tolower name = name"
proof (rule map_idI)
  fix c
  have chars: "\<forall>c \<in> set member_chars. tolower c = c"
    by (simp add: member_chars_def tolower_def)
  assume "loadable name" and "c \<in> set name"
  with chars show "tolower c = c" by (auto simp: loadable_def has_other_def list_ex_iff)
qed

definition member_text :: "'n yaml \<Rightarrow> 'n \<Rightarrow> string" where
  "member_text Y n = (if y_IsScalar Y n then y_Scalar Y n else y_dump Y n)"

lemma load_member_eq:
  "loadable (fst m) \<Longrightarrow> load_member Y m rw =
     (case (if fst m = [] then None else LookupBase (fst rw) (fst m)) of
        None \<Rightarrow> rw | Some p \<Rightarrow> load_var p (member_text Y (snd m)) rw)"
  by (auto simp: load_member_def member_text_def Let_def tolower_member split: option.splits)

lemma load_var_data: "r_data (fst (load_var p s rw)) = r_data (fst rw)"
  by (auto simp: load_var_def split: prod.splits option.splits)

lemma load_var_other: "q \<noteq> p \<Longrightarrow> r_vars (fst (load_var p s rw)) q = r_vars (fst rw) q"
  by (auto simp: load_var_def split: prod.splits option.splits)

lemma load_var_this:
  "r_vars (fst rw) p = Some var \<Longrightarrow>
     r_vars (fst (load_var p s rw)) p = Some (fst (fromString var s (snd rw)))"
  by (auto simp: load_var_def split: prod.splits)

lemma load_member_data: "loadable (fst m) \<Longrightarrow> r_data (fst (load_member Y m rw)) = r_data (fst rw)"
  by (simp add: load_member_eq load_var_data split: option.split)

lemma load_fold_data:
  "\<forall>m \<in> set ms. loadable (fst m) \<Longrightarrow> r_data (fst (fold (load_member Y) ms rw)) = r_data (fst rw)"
  by (induction ms arbitrary: rw) (simp_all add: load_member_data)

text \<open>A variable whose name does not occur is left alone.\<close>

lemma load_fold_other:
  assumes "reg_inv has_type (fst rw)" and "map_of (r_data (fst rw)) name = Some p"
    and "\<forall>m \<in> set ms. loadable (fst m)" and "name \<notin> fst ` set ms"
  shows "r_vars (fst (fold (load_member Y) ms rw)) p = r_vars (fst rw) p"
  using assms
proof (induction ms arbitrary: rw)
  case (Cons m ms)
  let ?rw = "load_member Y m rw"
  have "r_vars (fst ?rw) p = r_vars (fst rw) p"
  proof (cases "if fst m = [] then None else LookupBase (fst rw) (fst m)")
    case None
    with Cons.prems(3) show ?thesis by (simp add: load_member_eq del: if_split)
  next
    case (Some q)
    then have "map_of (r_data (fst rw)) (fst m) = Some q" by (simp add: LookupBase_def split: if_splits)
    from reg_inv_table [OF Cons.prems(1) this] reg_inv_table [OF Cons.prems(1,2)] Cons.prems(4)
    have "p \<noteq> q" by auto
    with Some Cons.prems(3) show ?thesis by (simp add: load_member_eq load_var_other del: if_split)
  qed
  moreover have "reg_inv has_type (fst ?rw)"
    using reg_steps_grow [OF load_member_step] Cons.prems(1) by blast
  moreover have "map_of (r_data (fst ?rw)) name = Some p"
    using Cons.prems(2,3) by (simp add: load_member_data)
  ultimately show ?case
    using Cons.IH [of ?rw] Cons.prems(3,4) by simp
qed simp

lemma members_loadable: "\<forall>m \<in> set (members_of Y k root). loadable (fst m)"
  by (simp add: members_of_def)

text \<open>
  C35. What loading does to each variable. A registered variable whose name does not occur among
  the loadable paths of the document is not touched: in particular none whose name has an
  upper-case letter, although \<open>Lookup\<close> accepts such names and the loader lowers the case of the
  keys before the search. A variable whose name occurs gets the text of the last such node (the
  scalar itself, or the printed node): if the cast accepts the text and the listeners return, this
  is its value afterwards.
\<close>

theorem load_assigns:
  assumes "(reg_step has_type)\<^sup>*\<^sup>* (empty_registry, w0) (r, w)" and "fits Y k root"
    and "LoadFromYaml Y k root (r, w) = Some (r', w')" and "LookupBase r name = Some p"
  shows "(name \<notin> fst ` set (members_of Y k root) \<or> \<not> loadable name \<longrightarrow> r_vars r' p = r_vars r p) \<and>
    (\<forall>before node after var x. members_of Y k root = before @ (name, node) # after \<and>
        name \<noteq> [] \<and> name \<notin> fst ` set after \<and>
        r_vars (fst (fold (load_member Y) before (r, w))) p = Some var \<and>
        t_FromStr (v_type var) (member_text Y node) = Inr x \<and> returns (v_val var) x (v_cbs var) \<longrightarrow>
        map_option v_val (r_vars r' p) = Some x)"
proof (intro conjI allI impI)
  have inv: "reg_inv has_type r"
    using registry_inv.reachable_inv [OF _ assms(1)] by simp
  have r': "(r', w') = fold (load_member Y) (members_of Y k root) (r, w)"
    using assms(3) load_equals_reference [OF assms(2), of "(r, w)"] by simp
  have p: "map_of (r_data r) name = Some p" using assms(4) by (simp add: LookupBase_def)
  {
    assume "name \<notin> fst ` set (members_of Y k root) \<or> \<not> loadable name"
    then have "name \<notin> fst ` set (members_of Y k root)" using members_loadable [of Y k root] by auto
    from load_fold_other [of has_type "(r, w)" name p, OF _ _ members_loadable this, of Y] inv p
    show "r_vars r' p = r_vars r p" by (simp flip: r')
  }
  fix before node after var x
  assume last: "members_of Y k root = before @ (name, node) # after \<and> name \<noteq> [] \<and> name \<notin> fst ` set after \<and>
      r_vars (fst (fold (load_member Y) before (r, w))) p = Some var \<and>
      t_FromStr (v_type var) (member_text Y node) = Inr x \<and> returns (v_val var) x (v_cbs var)"
  let ?rw = "fold (load_member Y) before (r, w)"
  have load: "\<forall>m \<in> set before. loadable (fst m)" "loadable name" "\<forall>m \<in> set after. loadable (fst m)"
    using members_loadable [of Y k root] last by auto
  have "r_data (fst ?rw) = r_data r" using load_fold_data [OF load(1), of Y "(r, w)"] by simp
  then have base: "map_of (r_data (fst ?rw)) name = Some p" using p by simp
  then have step: "load_member Y (name, node) ?rw = load_var p (member_text Y node) ?rw"
    using load(2) last by (simp add: load_member_eq LookupBase_def)
  have "v_val (fst (fromString var (member_text Y node) (snd ?rw))) = x"
    using last by (auto simp: fromString_def setValue_def run_listeners_all)
  then have stored: "map_option v_val (r_vars (fst (load_member Y (name, node) ?rw)) p) = Some x"
    using load_var_this [of ?rw p var] last by (simp add: step)
  have "reg_inv has_type (fst (load_member Y (name, node) ?rw))"
    using reg_steps_grow [OF rtranclp_trans [OF load_fold_steps load_member_step]] inv by (metis fst_conv)
  moreover have "map_of (r_data (fst (load_member Y (name, node) ?rw))) name = Some p"
    using base by (simp add: step load_var_data)
  ultimately have "r_vars (fst (fold (load_member Y) after (load_member Y (name, node) ?rw))) p =
      r_vars (fst (load_member Y (name, node) ?rw)) p"
    using load_fold_other load(3) last by blast
  moreover have "(r', w') = fold (load_member Y) after (load_member Y (name, node) ?rw)"
    using r' last by simp
  ultimately show "map_option v_val (r_vars r' p) = Some x" using stored by (metis fst_conv)
qed

theorem load_assigns_witness:
  "\<exists>(r :: (nat, unit) registry) r' w'. LookupBase r ''system.port'' = Some 0 \<and>
     LoadFromYaml yaml_tree 3 sample_doc (r, ()) = Some (r', w') \<and>
     map_option v_val (r_vars r 0) = Some 80 \<and> map_option v_val (r_vars r' 0) = Some 2"
proof -
  let ?e = "empty_registry :: (nat, unit) registry" and ?ty = "\<lambda>_ _. True"
  let ?r = "snd (register_var nat_type ?e ''system.port'' 80 [])"
  have "reg_step ?ty (?e, ()) (?r, ())"
    by (rule reg_step.lookup [of nat_type _ "''system.port''" 80 "[]" "Some 0"])
      (simp_all add: Lookup_def register_var_def empty_registry_def has_other_def name_chars_def sound_type_def)
  then have reach: "(reg_step ?ty)\<^sup>*\<^sup>* (?e, ()) (?r, ())" by (rule r_into_rtranclp)
  have base: "LookupBase ?r ''system.port'' = Some 0"
    by (simp add: LookupBase_def register_var_def empty_registry_def)
  let ?before = "[([], sample_doc), (''system'', YMap [(''port'', YScalar ''99''), (''Name'', YScalar ''x'')])]"
  have before: "fold (load_member yaml_tree) ?before (?r, ()) = (?r, ())"
    by (simp add: load_member_def LookupBase_def register_var_def empty_registry_def tolower_def)
  obtain r' w' where "fold (load_member yaml_tree) (members_of yaml_tree 3 sample_doc) (?r, ()) = (r', w')"
    by (rule prod.exhaust)
  with load_equals_reference [OF conjunct1 [OF sample_members], of "(?r, ())"]
  have load: "LoadFromYaml yaml_tree 3 sample_doc (?r, ()) = Some (r', w')" by (simp only:)
  have var: "r_vars ?r 0 = Some (new_ConfigVar nat_type ''system.port'' 80 [])"
    by (simp add: register_var_def empty_registry_def)
  have ready: "t_FromStr (v_type (new_ConfigVar nat_type ''system.port'' 80 [])) (member_text yaml_tree (YScalar ''99'')) = Inr 2"
    "returns (80 :: nat) 2 (v_cbs (new_ConfigVar nat_type ''system.port'' 80 [] :: (nat, unit) config_var))"
    by (simp_all add: new_ConfigVar_def nat_type_def member_text_def yaml_tree_def returns_def)
  have old: "v_val (new_ConfigVar nat_type ''system.port'' 80 [] :: (nat, unit) config_var) = 80"
    by (simp add: new_ConfigVar_def)
  have split: "members_of yaml_tree 3 sample_doc = ?before @ (''system.port'', YScalar ''99'') # []"
    using conjunct2 [OF sample_members] by simp
  have "map_option v_val (r_vars r' 0) = Some 2"
  proof (rule load_assigns [OF reach conjunct1 [OF sample_members] load base, THEN conjunct2, THEN spec,
        of ?before, THEN spec, of "YScalar ''99''", THEN spec, of "[]", THEN spec,
        of "new_ConfigVar nat_type ''system.port'' 80 []", THEN spec, of 2, THEN mp], intro conjI)
    show "r_vars (fst (fold (load_member yaml_tree) ?before (?r, ()))) 0 =
        Some (new_ConfigVar nat_type ''system.port'' 80 [])"
      unfolding before using var by simp
  qed (use split ready old in simp_all)
  with base load var show ?thesis by (intro exI [of _ ?r] exI) (simp add: new_ConfigVar_def)
qed

end
