(* ===== verification/Config_Logging.thy ===== *)
theory Config_Logging
  imports Log_Config_Apply Log_Macros Config_Load
begin

text \<open>
  The configuration and the log of one process: the static objects of \<open>log.cpp\<close> and \<open>fiber.cpp\<close>, the
  listener that the variable \<open>logs\<close> has from the start, and what the program does afterwards: load
  documents, assign variables, use and change the loggers.
\<close>

subsection \<open>The process\<close>

text \<open>
  The values of the variables: those of the two types the library itself uses, and those of the types of
  the program. The names stand for \<open>typeid\<close>; \<open>boost\<close>'s cast of \<open>uint32_t\<close> is an argument.
\<close>

datatype 'a config_value =
    Uint32 u32
  | LogDefines "log_define list"
  | UserValue 'a

definition uint32_type :: "u32 from_str \<Rightarrow> u32 to_str \<Rightarrow> 'a config_value cpp_type" where
  "uint32_type from to =
     \<lparr>t_name = ''uint32_t'', t_FromStr = (\<lambda>s. map_sum id Uint32 (from s)),
      t_ToStr = (\<lambda>v. case v of Uint32 n \<Rightarrow> to n | _ \<Rightarrow> Inr [])\<rparr>"

definition logs_type :: "'n yaml \<Rightarrow> 'a config_value cpp_type" where
  "logs_type Y =
     \<lparr>t_name = ''std::set<LogDefine>'',
      t_FromStr = (\<lambda>s. map_sum id LogDefines (set_from define_lt Y (LogDefine_from Y) s)),
      t_ToStr = (\<lambda>v. case v of LogDefines ds \<Rightarrow> set_to Y (LogDefine_to Y) ds | _ \<Rightarrow> Inr [])\<rparr>"

text \<open>A \<open>std::set\<close> is sorted.\<close>

definition value_of_type :: "string \<Rightarrow> 'a config_value \<Rightarrow> bool" where
  "value_of_type t v =
     (if t = ''uint32_t'' then (\<exists>n. v = Uint32 n)
      else if t = ''std::set<LogDefine>'' then (\<exists>ds. v = LogDefines ds \<and> sorted_wrt define_lt ds)
      else (\<exists>x. v = UserValue x))"

text \<open>
  The process outside the registry: the singleton of the logger manager, what has been written, and
  whether the listener went through a null pointer or did not return.
\<close>

record process =
  p_mgr :: "logs option"
  p_out :: "log_action list"
  p_crashed :: bool

text \<open>The listener as the variable calls it; \<open>event\<close> makes the event of its own message.\<close>

definition logs_listener ::
  "(string \<Rightarrow> u64 \<Rightarrow> string) \<Rightarrow> (process \<Rightarrow> log_event) \<Rightarrow> ('a config_value, process) on_change_cb" where
  "logs_listener strftime event old_value new_value w =
     (case (old_value, new_value, GetInstance LoggerManager_ctor (p_mgr w)) of
        (LogDefines old, LogDefines new, Inr s) \<Rightarrow>
          (case on_logger_conf_changed strftime (event w) old new s of
             Some (Inr (acts, s')) \<Rightarrow> (w\<lparr>p_mgr := Some s', p_out := p_out w @ acts\<rparr>, None)
           | _ \<Rightarrow> (w\<lparr>p_crashed := True\<rparr>, None))
      | _ \<Rightarrow> (w\<lparr>p_crashed := True\<rparr>, None))"

text \<open>The static objects, in one of the orders the linker may choose.\<close>

definition g_logger :: "logs option \<Rightarrow> (ptr \<times> logs) logresult" where
  "g_logger mgr = WILLE_LOG_NAME mgr ''system''"

definition g_fiber_stack_size ::
  "'a config_value cpp_type \<Rightarrow> ('a config_value, process) registry \<Rightarrow>
     (ptr option \<times> ('a config_value, process) registry) throws" where
  "g_fiber_stack_size U r = Lookup U r ''fiber.stack_size'' (Uint32 (128 * 1024)) ''fiber stack size''"

definition g_log_defines ::
  "'n yaml \<Rightarrow> ('a config_value, process) registry \<Rightarrow> (ptr option \<times> ('a config_value, process) registry) throws"
where
  "g_log_defines Y r = Lookup (logs_type Y) r ''logs'' (LogDefines []) ''logs config''"

definition LogIniter ::
  "(string \<Rightarrow> u64 \<Rightarrow> string) \<Rightarrow> (process \<Rightarrow> log_event) \<Rightarrow> ptr \<Rightarrow> ('a config_value, process) registry \<Rightarrow>
     ('a config_value, process) registry" where
  "LogIniter strftime event p r = add_listener p (logs_listener strftime event) r"

definition static_init ::
  "'n yaml \<Rightarrow> 'a config_value cpp_type \<Rightarrow> (string \<Rightarrow> u64 \<Rightarrow> string) \<Rightarrow> (process \<Rightarrow> log_event) \<Rightarrow>
     (('a config_value, process) registry \<times> process) option" where
  "static_init Y U strftime event =
     (case g_logger None of
        Inl e \<Rightarrow> None
      | Inr (g, s) \<Rightarrow>
          (case g_fiber_stack_size U empty_registry of
             Inl e \<Rightarrow> None
           | Inr (_, r1) \<Rightarrow>
               (case g_log_defines Y r1 of
                  Inr (Some p, r2) \<Rightarrow>
                    Some (LogIniter strftime event p r2, \<lparr>p_mgr = Some s, p_out = [], p_crashed = False\<rparr>)
                | _ \<Rightarrow> None)))"

text \<open>
  What the program does after that. Other variables may have listeners, which do not change loggers (they
  may throw); the logs change by the operations of \<open>log_step\<close>.
\<close>

definition harmless :: "('a config_value, process) on_change_cb \<Rightarrow> bool" where
  "harmless cb \<longleftrightarrow> (\<forall>old new w. fst (cb old new w) = w)"

inductive prog_step ::
  "'n yaml \<Rightarrow> (string \<Rightarrow> u64 \<Rightarrow> string) \<Rightarrow> ('a config_value, process) registry \<times> process \<Rightarrow>
     ('a config_value, process) registry \<times> process \<Rightarrow> bool" for Y strftime where
  load: "fits Y k root \<Longrightarrow> LoadFromYaml Y k root rw = Some rw' \<Longrightarrow> prog_step Y strftime rw rw'"
| log: "p_mgr w = Some s \<Longrightarrow> log_step strftime s s' \<Longrightarrow>
    prog_step Y strftime (r, w) (r, w\<lparr>p_mgr := Some s', p_out := p_out w @ acts\<rparr>)"
| lookup: "Lookup T r name d desc = Inr (res, r') \<Longrightarrow> sound_type value_of_type T \<Longrightarrow> value_of_type (t_name T) d \<Longrightarrow>
    prog_step Y strftime (r, w) (r', w)"
| assign: "r_vars r p = Some var \<Longrightarrow> value_of_type (t_name (v_type var)) v \<Longrightarrow> setValue var v w = (var', w', e) \<Longrightarrow>
    prog_step Y strftime (r, w) (update_var p (\<lambda>_. var') r, w')"
| listen: "LookupBase r ''logs'' \<noteq> Some p \<Longrightarrow> harmless cb \<Longrightarrow> prog_step Y strftime (r, w) (add_listener p cb r, w)"

subsection \<open>The invariant\<close>

text \<open>The variable \<open>logs\<close> is at \<open>p\<close> with the value \<open>ds\<close> and its listener; the manager is \<open>s\<close>.\<close>

definition prog_at ::
  "'n yaml \<Rightarrow> (string \<Rightarrow> u64 \<Rightarrow> string) \<Rightarrow> (process \<Rightarrow> log_event) \<Rightarrow>
     ('a config_value, process) registry \<times> process \<Rightarrow> ptr \<Rightarrow> log_define list \<Rightarrow> logs \<Rightarrow> bool" where
  "prog_at Y strftime event rw p ds s \<longleftrightarrow>
     reg_inv value_of_type (fst rw) \<and> LookupBase (fst rw) ''logs'' = Some p \<and>
     (\<exists>var. r_vars (fst rw) p = Some var \<and> v_type var = logs_type Y \<and> v_val var = LogDefines ds \<and>
        (\<exists>k. v_cbs var = [(k, logs_listener strftime event)])) \<and>
     (\<forall>q var. q \<noteq> p \<and> r_vars (fst rw) q = Some var \<longrightarrow> (\<forall>(k, cb) \<in> set (v_cbs var). harmless cb)) \<and>
     p_mgr (snd rw) = Some s \<and> log_inv s \<and> \<not> p_crashed (snd rw)"

lemma prog_atD:
  assumes "prog_at Y strftime event rw p ds s"
  shows "p_mgr (snd rw) = Some s" and "LookupBase (fst rw) ''logs'' = Some p"
    and "map_option v_val (r_vars (fst rw) p) = Some (LogDefines ds)" and "\<not> p_crashed (snd rw)"
  using assms by (auto simp: prog_at_def)

lemma sorted_fold_insert:
  "sorted_wrt define_lt ds \<Longrightarrow> sorted_wrt define_lt (fold (\<lambda>x s. fst (set_insert define_lt x s)) xs ds)"
  by (induction xs arbitrary: ds) (simp_all add: define_order.sorted_insert)

lemma set_from_sorted: "set_from define_lt Y (LogDefine_from Y) s = Inr ds \<Longrightarrow> sorted_wrt define_lt ds"
  unfolding set_from_def
  by (cases "y_Load Y s"; simp) (auto simp: sorted_fold_insert split: sum.splits elim!: try_then.elims)

lemma logs_type_sound: "sound_type value_of_type (logs_type Y)"
proof -
  have "value_of_type ''std::set<LogDefine>'' x" if "map_sum id LogDefines (set_from define_lt Y (LogDefine_from Y) s) = Inr x"
    for s and x :: "'a config_value"
    using that set_from_sorted [of Y s]
    by (cases "set_from define_lt Y (LogDefine_from Y) s") (auto simp: value_of_type_def)
  then show ?thesis by (simp add: sound_type_def logs_type_def)
qed

lemma uint32_type_sound: "sound_type value_of_type (uint32_type from to)"
proof -
  have "value_of_type ''uint32_t'' x" if "map_sum id Uint32 (from s) = Inr x" for s and x :: "'a config_value"
    using that by (cases "from s") (auto simp: value_of_type_def)
  then show ?thesis by (simp add: sound_type_def uint32_type_def)
qed

lemma prog_sorted: "prog_at Y strftime event rw p ds s \<Longrightarrow> sorted_wrt define_lt ds"
  unfolding prog_at_def reg_inv_def var_ok_def value_of_type_def logs_type_def by fastforce

subsection \<open>One assignment\<close>

lemma harmless_run:
  "\<forall>(k, cb) \<in> set cbs. harmless cb \<Longrightarrow> fst (run_listeners cbs old new w) = w"
proof (induction cbs)
  case (Cons e cbs)
  obtain k cb where e: "e = (k, cb)" by fastforce
  with Cons.prems have "fst (cb old new w) = w" by (simp add: harmless_def)
  then obtain x where "cb old new w = (w, x)" by (metis prod.collapse)
  with Cons e show ?case by (simp split: option.split)
qed simp

lemma harmless_set:
  assumes "setValue var v w = (var', w', e)" and "\<forall>(k, cb) \<in> set (v_cbs var). harmless cb"
  shows "w' = w"
  using assms(1) harmless_run [OF assms(2), of "v_val var" v w]
  by (auto simp: setValue_def split: if_splits prod.splits option.splits)

lemma fromString_cases:
  assumes "fromString var txt w = (var', w', ok)"
  obtains (bad) e where "t_FromStr (v_type var) txt = Inl e" "var' = var" "w' = w"
  | (assigned) v e where "t_FromStr (v_type var) txt = Inr v" "setValue var v w = (var', w', e)"
  using assms by (auto simp: fromString_def split: sum.splits prod.splits option.splits)

text \<open>Assigning to \<open>logs\<close>: the listener ends and the loggers follow.\<close>

lemma listener_returns:
  assumes "log_inv s" and "p_mgr w = Some s" and "sorted_wrt define_lt old" and "sorted_wrt define_lt new"
  shows "\<exists>s' acts. logs_listener strftime event (LogDefines old) (LogDefines new) w =
      (w\<lparr>p_mgr := Some s', p_out := p_out w @ acts\<rparr>, None) \<and> log_inv s' \<and> reconfigured s old new s'"
proof -
  from log_conf_applied [OF assms(1,3,4), of strftime "event w"] obtain acts s' where
    "on_logger_conf_changed strftime (event w) old new s = Some (Inr (acts, s'))"
    "log_inv s'" "reconfigured s old new s'" by blast
  then show ?thesis by (intro exI [of _ s'] exI [of _ acts]) (simp add: logs_listener_def GetInstance_def assms(2))
qed

lemma assign_logs:
  fixes r :: "('a config_value, process) registry"
  assumes at: "prog_at Y strftime event (r, w) p ds s" and var: "r_vars r p = Some var"
    and new: "sorted_wrt define_lt new" and set: "setValue var (LogDefines new) w = (var', w', e)"
  shows "\<exists>s'. e = None \<and> var' = var\<lparr>v_val := LogDefines new\<rparr> \<and> p_mgr w' = Some s' \<and> log_inv s' \<and>
    \<not> p_crashed w' \<and> reconfigured s ds new s'"
proof -
  from at var obtain k where v: "v_val var = LogDefines ds" "v_cbs var = [(k, logs_listener strftime event)]"
    and w: "p_mgr w = Some s" "log_inv s" "\<not> p_crashed w"
    by (auto simp: prog_at_def)
  show ?thesis
  proof (cases "new = ds")
    case True
    with set v w show ?thesis by (auto simp: setValue_def)
  next
    case False
    have "\<exists>s' acts. logs_listener strftime event (LogDefines ds :: 'a config_value) (LogDefines new) w =
        (w\<lparr>p_mgr := Some s', p_out := p_out w @ acts\<rparr>, None) \<and> log_inv s' \<and> reconfigured s ds new s'"
      by (rule listener_returns [OF w(2,1) prog_sorted [OF at] new])
    with set v w False show ?thesis by (auto simp: setValue_def)
  qed
qed

text \<open>What an assignment to the variable at \<open>q\<close> leaves.\<close>

lemma assign_prog:
  assumes at: "prog_at Y strftime event (r, w) p ds s" and var: "r_vars r q = Some var"
    and v: "value_of_type (t_name (v_type var)) v" and set: "setValue var v w = (var', w', e)"
    and inv: "reg_inv value_of_type r'" and r': "r_data r' = r_data r" "r_vars r' = (r_vars r)(q \<mapsto> var')"
  shows "\<exists>ds' s'. prog_at Y strftime event (r', w') p ds' s' \<and>
    (if q = p then v = LogDefines ds' \<and> reconfigured s ds ds' s' else ds' = ds \<and> s' = s \<and> w' = w)"
proof (cases "q = p")
  case True
  from at var True have "v_type var = logs_type Y" by (auto simp: prog_at_def)
  with v obtain new where new: "v = LogDefines new" "sorted_wrt define_lt new"
    by (auto simp: value_of_type_def logs_type_def)
  from assign_logs [OF at _ new(2)] var set True new(1) obtain s' where
    s': "var' = var\<lparr>v_val := LogDefines new\<rparr>" "p_mgr w' = Some s'" "log_inv s'" "\<not> p_crashed w'"
      "reconfigured s ds new s'" by blast
  with at inv r' var True have "prog_at Y strftime event (r', w') p new s'"
    by (auto simp: prog_at_def LookupBase_def)
  with True new(1) s'(5) show ?thesis by auto
next
  case False
  with at var have "\<forall>(k, cb) \<in> set (v_cbs var). harmless cb" by (auto simp: prog_at_def)
  from harmless_set [OF set this] setValue_type [OF set] False at inv r' var
  have "w' = w" "prog_at Y strftime event (r', w') p ds s"
    by (auto simp: prog_at_def LookupBase_def)
  with False show ?thesis by auto
qed

subsection \<open>Loading a document\<close>

lemma load_var_prog:
  assumes at: "prog_at Y strftime event rw p ds s"
  shows "\<exists>ds' s'. prog_at Y strftime event (load_var q txt rw) p ds' s' \<and>
    (q \<noteq> p \<longrightarrow> ds' = ds \<and> s' = s \<and> snd (load_var q txt rw) = snd rw) \<and>
    (\<forall>new. q = p \<and> set_from define_lt Y (LogDefine_from Y) txt = Inr new \<longrightarrow> ds' = new \<and> reconfigured s ds new s')"
proof -
  obtain r w where rw: "rw = (r, w)" by fastforce
  show ?thesis
  proof (cases "r_vars r q")
    case None
    with at have "q \<noteq> p" by (auto simp: prog_at_def rw)
    with None at show ?thesis by (auto simp: rw load_var_def)
  next
    case (Some var)
    obtain var' w' ok where fs: "fromString var txt w = (var', w', ok)" by (rule prod_cases3)
    let ?r = "r\<lparr>r_vars := (r_vars r)(q \<mapsto> var')\<rparr>"
    have load: "load_var q txt rw = (?r, w')" using Some fs by (simp add: rw load_var_def)
    have inv: "reg_inv value_of_type r" using at by (simp add: prog_at_def rw)
    from load_var_inv [OF this load [unfolded rw]] have inv': "reg_inv value_of_type ?r" by simp
    from fs show ?thesis
    proof (cases rule: fromString_cases)
      case (bad e)
      have "?r = r" using bad(2) Some by (simp add: fun_upd_idem)
      then have "prog_at Y strftime event (?r, w') p ds s" using at bad(3) by (simp add: rw)
      moreover have "set_from define_lt Y (LogDefine_from Y) txt \<noteq> Inr new" if "q = p" for new
        using at that bad(1) Some by (auto simp: prog_at_def rw logs_type_def)
      ultimately show ?thesis unfolding load using bad(3) rw by auto
    next
      case (assigned v e)
      have "value_of_type (t_name (v_type var)) v"
        using inv Some assigned(1) unfolding reg_inv_def var_ok_def sound_type_def by blast
      from assign_prog [OF at [unfolded rw] Some this assigned(2) inv'] obtain ds' s' where
        a: "prog_at Y strftime event (?r, w') p ds' s'"
        "if q = p then v = LogDefines ds' \<and> reconfigured s ds ds' s' else ds' = ds \<and> s' = s \<and> w' = w" by auto
      moreover have "ds' = new" if "q = p" "set_from define_lt Y (LogDefine_from Y) txt = Inr new" for new
        using at that assigned(1) a(2) Some by (auto simp: prog_at_def rw logs_type_def)
      ultimately show ?thesis by (auto simp: rw load [unfolded rw] split: if_splits)
    qed
  qed
qed

lemma load_member_prog:
  assumes at: "prog_at Y strftime event rw p ds s" and m: "loadable (fst m)"
  shows "\<exists>ds' s'. prog_at Y strftime event (load_member Y m rw) p ds' s' \<and>
    (fst m \<noteq> ''logs'' \<longrightarrow> ds' = ds \<and> s' = s \<and> snd (load_member Y m rw) = snd rw) \<and>
    (\<forall>new. fst m = ''logs'' \<and> set_from define_lt Y (LogDefine_from Y) (member_text Y (snd m)) = Inr new \<longrightarrow>
       ds' = new \<and> reconfigured s ds new s')"
proof (cases "if fst m = [] then None else LookupBase (fst rw) (fst m)")
  case None
  then have "fst m \<noteq> ''logs''" using at by (auto simp: prog_at_def)
  with None at m show ?thesis by (auto simp: load_member_eq split: if_splits)
next
  case (Some q)
  then have load: "load_member Y m rw = load_var q (member_text Y (snd m)) rw"
    using m by (simp add: load_member_eq del: if_split)
  have q: "map_of (r_data (fst rw)) (fst m) = Some q"
    using Some by (simp add: LookupBase_def split: if_splits)
  have "q = p \<longleftrightarrow> fst m = ''logs''"
    using at q reg_inv_table [of value_of_type "fst rw" "fst m" q] reg_inv_table [of value_of_type "fst rw" "''logs''" p]
    unfolding prog_at_def LookupBase_def by auto
  with load_var_prog [OF at, of q "member_text Y (snd m)"] show ?thesis unfolding load by metis
qed

lemma load_fold_prog:
  assumes "prog_at Y strftime event rw p ds s" and "\<forall>m \<in> set ms. loadable (fst m)"
  shows "\<exists>ds' s'. prog_at Y strftime event (fold (load_member Y) ms rw) p ds' s' \<and>
    (''logs'' \<notin> fst ` set ms \<longrightarrow> ds' = ds \<and> s' = s \<and> snd (fold (load_member Y) ms rw) = snd rw)"
  using assms
proof (induction ms arbitrary: rw ds s)
  case (Cons m ms)
  from load_member_prog [OF Cons.prems(1), of m] Cons.prems(2) obtain ds1 s1 where
    one: "prog_at Y strftime event (load_member Y m rw) p ds1 s1"
    "fst m \<noteq> ''logs'' \<longrightarrow> ds1 = ds \<and> s1 = s \<and> snd (load_member Y m rw) = snd rw" by auto
  from Cons.IH [OF one(1)] Cons.prems(2) obtain ds2 s2 where
    two: "prog_at Y strftime event (fold (load_member Y) ms (load_member Y m rw)) p ds2 s2"
    "''logs'' \<notin> fst ` set ms \<longrightarrow> ds2 = ds1 \<and> s2 = s1 \<and>
       snd (fold (load_member Y) ms (load_member Y m rw)) = snd (load_member Y m rw)" by auto
  have "''logs'' \<notin> fst ` set (m # ms) \<Longrightarrow> fst m \<noteq> ''logs'' \<and> ''logs'' \<notin> fst ` set ms" by auto
  with one two show ?case by (intro exI [of _ ds2] exI [of _ s2]) auto
qed auto

subsection \<open>Every run of the program\<close>

lemma load_prog:
  assumes "prog_at Y strftime event rw p ds s" and "fits Y k root" and "LoadFromYaml Y k root rw = Some rw'"
  shows "\<exists>ds' s'. prog_at Y strftime event rw' p ds' s'"
proof -
  from assms(3) load_equals_reference [OF assms(2), of rw]
  have "rw' = fold (load_member Y) (members_of Y k root) rw" by simp
  with load_fold_prog [OF assms(1) members_loadable] show ?thesis by blast
qed

lemma lookup_prog:
  assumes at: "prog_at Y strftime event (r, w) p ds s" and look: "Lookup T r name d desc = Inr (res, r')"
    and T: "sound_type value_of_type T" "value_of_type (t_name T) d"
  shows "prog_at Y strftime event (r', w) p ds s"
proof -
  have inv: "reg_inv value_of_type r" using at by (simp add: prog_at_def)
  then have inv': "reg_inv value_of_type r'"
    using reg_step_inv [OF reg_step.lookup [OF look T, of w]] by simp
  from look show ?thesis
  proof (cases rule: Lookup_cases)
    case (old q)
    with at show ?thesis by simp
  next
    case new
    from at have name: "name \<noteq> ''logs''" using new(1) by (auto simp: prog_at_def LookupBase_def)
    from new(3) have r': "r_vars r' = (r_vars r)(r_next r \<mapsto> new_ConfigVar T name d desc)"
      "map_of (r_data r') = (map_of (r_data r))(name \<mapsto> r_next r)"
      by (auto simp: register_var_def)
    have "p \<noteq> r_next r" using at reg_inv_fresh [OF inv] by (auto simp: prog_at_def)
    with at name inv' show ?thesis
      unfolding prog_at_def LookupBase_def fst_conv snd_conv r' by (auto simp: new_ConfigVar_def)
  qed
qed

lemma listen_prog:
  assumes at: "prog_at Y strftime event (r, w) p ds s" and q: "q \<noteq> p" and cb: "harmless cb"
  shows "prog_at Y strftime event (add_listener q cb r, w) p ds s"
proof (cases "r_vars r q")
  case None
  with at show ?thesis by (simp add: add_listener_def)
next
  case (Some var)
  let ?k = "r_fun_id r (t_name (v_type var)) + 1"
  have cbs: "\<forall>(k, cb) \<in> set (v_cbs var). harmless cb" using at q Some by (auto simp: prog_at_def)
  have r': "r_vars (add_listener q cb r) = (r_vars r)(q \<mapsto> var\<lparr>v_cbs := map_put ?k cb (v_cbs var)\<rparr>)"
    "r_data (add_listener q cb r) = r_data r"
    using Some by (simp_all add: add_listener_def addListener_def Let_def)
  have inv: "reg_inv value_of_type (add_listener q cb r)" using at by (simp add: prog_at_def add_listener_inv)
  have "\<forall>(k, cb) \<in> set (map_put ?k cb (v_cbs var)). harmless cb"
    using cbs cb set_map_put [of ?k cb "v_cbs var"] by fastforce
  with at inv q show ?thesis unfolding prog_at_def LookupBase_def fst_conv snd_conv r' by auto
qed

lemma prog_step_at:
  assumes "prog_step Y strftime rw rw'" and "prog_at Y strftime event rw p ds s"
  shows "\<exists>ds' s'. prog_at Y strftime event rw' p ds' s'"
  using assms
proof (induction rule: prog_step.induct)
  case (load k root rw rw')
  then show ?case by (intro load_prog)
next
  case (log w s1 s2 r acts)
  then have "prog_at Y strftime event (r, w\<lparr>p_mgr := Some s2, p_out := p_out w @ acts\<rparr>) p ds s2"
    by (auto simp: prog_at_def dest: log_step_inv)
  then show ?case by blast
next
  case (lookup T r name d desc res r' w)
  then show ?case by (blast intro: lookup_prog)
next
  case (assign r q var v w var' w' e)
  have inv: "reg_inv value_of_type r" using assign.prems by (simp add: prog_at_def)
  have "reg_step value_of_type (r, w) (update_var q (\<lambda>_. var') r, w')"
    by (rule reg_step.set_value) (rule assign.hyps)+
  from reg_step_inv [OF this] inv have "reg_inv value_of_type (update_var q (\<lambda>_. var') r)" by simp
  moreover have "r_data (update_var q (\<lambda>_. var') r) = r_data r"
    "r_vars (update_var q (\<lambda>_. var') r) = (r_vars r)(q \<mapsto> var')"
    using assign.hyps(1) by (simp_all add: update_var_def)
  ultimately show ?case
    using assign_prog [OF assign.prems assign.hyps] by blast
next
  case (listen r q cb w)
  then have "q \<noteq> p" by (auto simp: prog_at_def)
  with listen show ?case by (blast intro: listen_prog)
qed

text \<open>The static initialisation succeeds and establishes the listener.\<close>

lemma static_names: "\<not> has_other name_chars ''fiber.stack_size''" "\<not> has_other name_chars ''logs''"
  by (simp_all add: has_other_def name_chars_def)

lemma static_defaults:
  "value_of_type (t_name (uint32_type from to)) (Uint32 n)" "value_of_type (t_name (logs_type Y)) (LogDefines [])"
  by (simp_all add: value_of_type_def uint32_type_def logs_type_def)

lemma static_init_at:
  "\<exists>rw p s. static_init Y (uint32_type from to) strftime event = Some rw \<and> prog_at Y strftime event rw p [] s"
proof -
  let ?U = "uint32_type from to :: 'a config_value cpp_type"
  let ?v = "new_ConfigVar ?U ''fiber.stack_size'' (Uint32 (128 * 1024)) ''fiber stack size''"
  let ?x = "new_ConfigVar (logs_type Y) ''logs'' (LogDefines []) ''logs config''"
  let ?cb = "logs_listener strftime event"
  let ?r1 = "\<lparr>r_vars = [0 \<mapsto> ?v], r_data = [(''fiber.stack_size'', 0)], r_fun_id = (\<lambda>_. 0), r_next = 1\<rparr>
    :: ('a config_value, process) registry"
  let ?r2 = "\<lparr>r_vars = [0 \<mapsto> ?v, 1 \<mapsto> ?x], r_data = [(''fiber.stack_size'', 0), (''logs'', 1)], r_fun_id = (\<lambda>_. 0), r_next = 2\<rparr>
    :: ('a config_value, process) registry"
  let ?s = "snd (getLogger fresh_logs ''system'')"
  let ?w = "\<lparr>p_mgr = Some ?s, p_out = [], p_crashed = False\<rparr>"
  have one: "g_fiber_stack_size ?U empty_registry = Inr (Some 0, ?r1)"
    by (simp add: g_fiber_stack_size_def Lookup_def empty_registry_def register_var_def static_names)
  have two: "g_log_defines Y ?r1 = Inr (Some 1, ?r2)"
    by (simp add: g_log_defines_def Lookup_def register_var_def static_names numeral_2_eq_2)
  have zero: "g_logger None = Inr (fst (getLogger fresh_logs ''system''), ?s)"
    by (simp add: g_logger_def WILLE_LOG_NAME_def GetInstance_def LoggerManager_ctor_eq)
  have inv0: "reg_inv value_of_type (empty_registry :: ('a config_value, process) registry)"
    by (rule empty_registry_inv)
  have inv1: "reg_inv value_of_type ?r1"
    using reg_step_inv [OF reg_step.lookup [OF one [unfolded g_fiber_stack_size_def] uint32_type_sound static_defaults(1)]] inv0
    by simp
  have inv2: "reg_inv value_of_type ?r2"
    using reg_step_inv [OF reg_step.lookup [OF two [unfolded g_log_defines_def] logs_type_sound static_defaults(2)]] inv1
    by simp
  let ?r3 = "LogIniter strftime event 1 ?r2"
  have inv3: "reg_inv value_of_type ?r3"
    unfolding LogIniter_def by (rule add_listener_inv [OF inv2])
  have vars: "r_vars ?r3 = [0 \<mapsto> ?v, 1 \<mapsto> ?x\<lparr>v_cbs := [(1, ?cb)]\<rparr>]" "r_data ?r3 = r_data ?r2"
    by (simp_all add: LogIniter_def add_listener_def addListener_def new_ConfigVar_def Let_def)
  have "log_inv ?s" by (rule getLogger_inv [OF fresh_logs_inv])
  then have "prog_at Y strftime event (?r3, ?w) 1 [] ?s"
    unfolding prog_at_def LookupBase_def fst_conv snd_conv vars using inv3
    by (auto simp: new_ConfigVar_def split: if_splits)
  moreover have "static_init Y ?U strftime event = Some (?r3, ?w)"
    by (simp only: static_init_def zero one two sum.case prod.case option.case)
  ultimately show ?thesis by blast
qed

interpretation prog_inv: transition_inv "\<lambda>rw. static_init Y (uint32_type from to) strftime event = Some rw"
  "prog_step Y strftime" "\<lambda>rw. \<exists>p ds s. prog_at Y strftime event rw p ds s" for Y strftime event "from" to
proof
  fix rw :: "('a config_value, process) registry \<times> process"
  assume "static_init Y (uint32_type from to) strftime event = Some rw"
  moreover have "\<exists>rw p s. static_init Y (uint32_type from to :: 'a config_value cpp_type) strftime event = Some rw \<and>
      prog_at Y strftime event rw p [] s" by (rule static_init_at)
  ultimately show "\<exists>p ds s. prog_at Y strftime event rw p ds s" by auto
qed (use prog_step_at in blast)

subsection \<open>What a configured logger writes\<close>

definition appender_line ::
  "(string \<Rightarrow> u64 \<Rightarrow> string) \<Rightarrow> formatter option \<Rightarrow> level \<Rightarrow> log_event \<Rightarrow> log_appender_define \<Rightarrow> string option \<times> string"
where
  "appender_line strftime f lv ev a =
     (fst (want_appender f a), formatter_format strftime (the (snd (snd (want_appender f a)))) lv ev)"

definition define_lines ::
  "(string \<Rightarrow> u64 \<Rightarrow> string) \<Rightarrow> formatter option \<Rightarrow> log_define \<Rightarrow> level \<Rightarrow> log_event \<Rightarrow> (string option \<times> string) list"
where
  "define_lines strftime f i lv ev =
     (if lv < ld_level i then []
      else map (appender_line strftime (want_formatter f i) lv ev) (filter (\<lambda>a. ad_level a \<le> lv) (ld_appenders i)))"

lemma app_view_line:
  assumes "app_view s q = Some (want_appender f a)"
  shows "admits s lv q \<longleftrightarrow> ad_level a \<le> lv" and "line_of strftime s lv ev q = appender_line strftime f lv ev a"
  using assms by (auto simp: app_view_def admits_def line_of_def appender_line_def want_appender_def)

lemma delivery_defines:
  "map (app_view s) qs = map (\<lambda>a. Some (want_appender f a)) as \<Longrightarrow>
     delivery strftime s qs lv ev = map (appender_line strftime f lv ev) (filter (\<lambda>a. ad_level a \<le> lv) as)"
proof (induction qs arbitrary: "as")
  case (Cons q qs)
  then obtain a as' where as': "as = a # as'" "app_view s q = Some (want_appender f a)"
    "map (app_view s) qs = map (\<lambda>a. Some (want_appender f a)) as'" by (cases "as") auto
  with Cons.IH [OF as'(3)] app_view_line [OF as'(2)] show ?case by (simp add: delivery_def)
qed (simp add: delivery_def)

lemma shows_define_delivered:
  assumes "shows_define s f i l" and "ld_appenders i \<noteq> []"
  shows "delivered strftime s l lv ev = define_lines strftime f i lv ev"
proof -
  from assms(1) have l: "l_level l = ld_level i" "l_formatter l = want_formatter f i"
    and views: "map (app_view s) (l_appenders l) = map (\<lambda>a. Some (want_appender (l_formatter l) a)) (ld_appenders i)"
    by (auto simp: shows_define_def)
  from views assms(2) have "l_appenders l \<noteq> []" by auto
  with delivery_defines [OF views] l show ?thesis by (simp add: delivered_def define_lines_def)
qed

lemma configured_writes:
  assumes inv: "log_inv s'" and "configured s s' i" and "ld_appenders i \<noteq> []"
  shows "\<exists>q acts s2. getLogger s' (ld_name i) = (q, s') \<and>
    WILLE_LOG_LEVEL strftime 2 s' q lv c text = Some (Inr (acts, s2)) \<and>
    emitted acts = define_lines strftime (old_formatter s (ld_name i)) i lv
      ((site_event c (ld_name i) lv)\<lparr>e_content := text\<rparr>)"
proof -
  let ?ev = "(site_event c (ld_name i) lv)\<lparr>e_content := text\<rparr>"
  from assms(2) obtain l where l: "logger_named s' (ld_name i) = Some l"
    "shows_define s' (old_formatter s (ld_name i)) i l" by (auto simp: configured_def)
  then obtain q where q: "map_of (m_loggers s') (ld_name i) = Some q" "log_heap s' q = Some l"
    by (auto simp: logger_named_def split: option.splits)
  with inv have name: "l_name l = ld_name i" unfolding log_inv_def by fastforce
  from statement_delivers [OF inv q(2), of strftime lv ?ev] obtain acts s2 where
    "log_statement strftime 2 s' q lv ?ev = Some (Inr (acts, s2))"
    "emitted acts = delivered strftime s' l lv ?ev" by blast
  then have "WILLE_LOG_LEVEL strftime 2 s' q lv c text = Some (Inr (acts, s2))"
    "emitted acts = define_lines strftime (old_formatter s (ld_name i)) i lv ?ev"
    using shows_define_delivered [OF l(2) assms(3)] name
    by (simp_all add: WILLE_LOG_LEVEL_statement [OF q(2)])
  with q(1) show ?thesis by (simp add: getLogger_def)
qed

text \<open>
  C37. From the configuration file to the log files. The static initialisation of the process succeeds;
  after it, whatever the program does (loading documents, looking up and assigning variables, adding
  listeners that do not touch the loggers, changing loggers and logging), loading a document whose
  \<open>logs\<close> member reads as a set of definitions ends, the variable \<open>logs\<close> has this value, and the listener
  has brought the loggers from the old to the new definitions without an error: every definition that is
  new or differs is in force with its level, pattern and appenders, every logger whose name was removed
  is dropped, and all other loggers are as before. From then on a log statement on a logger configured
  with appenders writes exactly the lines of its definition: if its level admits the event, one line to
  each appender that admits it, to its file or the standard output, in the pattern of the appender,
  or else of the logger.
\<close>

theorem config_file_configures_loggers:
  assumes "static_init Y (uint32_type from to) strftime event = Some rw0" and "(prog_step Y strftime)\<^sup>*\<^sup>* rw0 rw"
    and "fits Y k root" and "members_of Y k root = before @ (''logs'', node) # after"
    and "''logs'' \<notin> fst ` set (before @ after)"
    and "set_from define_lt Y (LogDefine_from Y) (member_text Y node) = Inr new"
  shows "\<exists>rw' p old s s'. LoadFromYaml Y k root rw = Some rw' \<and>
    p_mgr (snd rw) = Some s \<and> p_mgr (snd rw') = Some s' \<and> \<not> p_crashed (snd rw') \<and>
    LookupBase (fst rw) ''logs'' = Some p \<and> map_option v_val (r_vars (fst rw) p) = Some (LogDefines old) \<and>
    map_option v_val (r_vars (fst rw') p) = Some (LogDefines new) \<and> reconfigured s old new s' \<and>
    (\<forall>i \<in> set new - set old. ld_appenders i \<noteq> [] \<longrightarrow> (\<forall>lv c text. \<exists>q acts s2.
       getLogger s' (ld_name i) = (q, s') \<and> WILLE_LOG_LEVEL strftime 2 s' q lv c text = Some (Inr (acts, s2)) \<and>
       emitted acts = define_lines strftime (old_formatter s (ld_name i)) i lv
         ((site_event c (ld_name i) lv)\<lparr>e_content := text\<rparr>)))"
proof -
  from prog_inv.reachable_inv [OF assms(1,2)] obtain p old s where at: "prog_at Y strftime event rw p old s"
    by blast
  let ?rw1 = "fold (load_member Y) before rw" and ?rw2 = "load_member Y (''logs'', node) (fold (load_member Y) before rw)"
  have run: "LoadFromYaml Y k root rw = Some (fold (load_member Y) after ?rw2)"
    using load_equals_reference [OF assms(3), of rw] by (simp add: assms(4))
  have names: "''logs'' \<notin> fst ` set before" "''logs'' \<notin> fst ` set after" using assms(5) by auto
  have load: "\<forall>m \<in> set before. loadable (fst m)" "loadable (fst (''logs'', node))" "\<forall>m \<in> set after. loadable (fst m)"
    using members_loadable [of Y k root] by (simp_all add: assms(4))
  from load_fold_prog [OF at load(1)] names(1) have at1: "prog_at Y strftime event ?rw1 p old s" by blast
  from load_member_prog [OF at1 load(2)] assms(6) obtain s' where
    s': "prog_at Y strftime event ?rw2 p new s'" "reconfigured s old new s'" by auto
  from load_fold_prog [OF s'(1) load(3)] names(2)
  have at3: "prog_at Y strftime event (fold (load_member Y) after ?rw2) p new s'" by blast
  have inv: "log_inv s'" using at3 by (simp add: prog_at_def)
  have writes: "\<exists>q acts s2. getLogger s' (ld_name i) = (q, s') \<and>
       WILLE_LOG_LEVEL strftime 2 s' q lv c msg = Some (Inr (acts, s2)) \<and>
       emitted acts = define_lines strftime (old_formatter s (ld_name i)) i lv
         ((site_event c (ld_name i) lv)\<lparr>e_content := msg\<rparr>)"
    if "i \<in> set new - set old" "ld_appenders i \<noteq> []" for i lv c msg
  proof -
    have "configured s s' i" using s'(2) that(1) unfolding reconfigured_def by blast
    from configured_writes [OF inv this that(2)] show ?thesis .
  qed
  note before_load = prog_atD [OF at] and after_load = prog_atD [OF at3]
  from writes have all_write: "\<forall>i \<in> set new - set old. ld_appenders i \<noteq> [] \<longrightarrow> (\<forall>lv c text. \<exists>q acts s2.
       getLogger s' (ld_name i) = (q, s') \<and> WILLE_LOG_LEVEL strftime 2 s' q lv c text = Some (Inr (acts, s2)) \<and>
       emitted acts = define_lines strftime (old_formatter s (ld_name i)) i lv
         ((site_event c (ld_name i) lv)\<lparr>e_content := text\<rparr>))" by blast
  show ?thesis
    by (intro exI conjI) (rule run before_load(1,2,3) after_load(1,3,4) s'(2) all_write)+
qed

text \<open>A file that configures one logger with a file appender for errors.\<close>

definition sample_define :: log_define where
  "sample_define = \<lparr>ld_name = ''b'', ld_level = WARN, ld_formatter = ''%m%n'',
     ld_appenders = [\<lparr>ad_type = 1, ad_level = ERROR, ad_formatter = [], ad_file = ''b.txt''\<rparr>]\<rparr>"

lemma sample_logs_doc:
  "\<exists>yml. set_from define_lt yaml_tree (LogDefine_from yaml_tree) yml = Inr [sample_define] \<and>
     fits yaml_tree 3 (YMap [(''logs'', YScalar yml)]) \<and>
     members_of yaml_tree 3 (YMap [(''logs'', YScalar yml)]) =
       [([], YMap [(''logs'', YScalar yml)])] @ (''logs'', YScalar yml) # [] \<and>
     member_text yaml_tree (YScalar yml) = yml"
proof -
  have "\<forall>d \<in> set [sample_define]. define_ok d" "sorted_wrt define_lt [sample_define]"
    by (simp_all add: sample_define_def define_ok_def appender_define_ok_def)
  then have "cast_ok yaml_tree (set_to yaml_tree (LogDefine_to yaml_tree))
      (set_from define_lt yaml_tree (LogDefine_from yaml_tree)) [sample_define]"
    by (intro set_cast_ok [OF yaml_tree_laws]) (simp_all add: LogDefine_cast_ok [OF yaml_tree_laws])
  then obtain yml where "set_from define_lt yaml_tree (LogDefine_from yaml_tree) yml = Inr [sample_define]"
    by (auto simp: cast_ok_def)
  then show ?thesis
    by (intro exI [of _ yml]) (simp add: yaml_tree_def members_of_def member_text_def numeral_3_eq_3 join_def
        loadable_def has_other_def member_chars_def)
qed

theorem config_file_configures_loggers_witness:
  "\<exists>(rw0 :: (unit config_value, process) registry \<times> process) rw' doc s' q acts s2.
     static_init yaml_tree (uint32_type (\<lambda>s. Inl BadLexicalCast) (\<lambda>n. Inr [])) (\<lambda>fmt t. fmt) (\<lambda>w. sample_event) = Some rw0 \<and>
     LoadFromYaml yaml_tree 3 doc rw0 = Some rw' \<and> p_mgr (snd rw') = Some s' \<and>
     getLogger s' ''b'' = (q, s') \<and>
     WILLE_LOG_LEVEL (\<lambda>fmt t. fmt) 2 s' q ERROR sample_site ''hi'' = Some (Inr (acts, s2)) \<and>
     map fst (emitted acts) = [Some ''b.txt'']"
proof -
  let ?f = "\<lambda>fmt t. fmt" and ?U = "uint32_type (\<lambda>s. Inl BadLexicalCast) (\<lambda>n. Inr []) :: unit config_value cpp_type"
  have "\<exists>rw p s. static_init yaml_tree ?U ?f (\<lambda>w. sample_event) = Some rw \<and>
      prog_at yaml_tree ?f (\<lambda>w. sample_event) rw p [] s" by (rule static_init_at)
  then obtain rw0 p s where init: "static_init yaml_tree ?U ?f (\<lambda>w. sample_event) = Some rw0"
    and at: "prog_at yaml_tree ?f (\<lambda>w. sample_event) rw0 p [] s" by blast
  obtain yml where doc: "set_from define_lt yaml_tree (LogDefine_from yaml_tree) yml = Inr [sample_define]"
    "fits yaml_tree 3 (YMap [(''logs'', YScalar yml)])"
    "members_of yaml_tree 3 (YMap [(''logs'', YScalar yml)]) =
       [([], YMap [(''logs'', YScalar yml)])] @ (''logs'', YScalar yml) # []"
    "member_text yaml_tree (YScalar yml) = yml"
    using sample_logs_doc by blast
  have names: "''logs'' \<notin> fst ` set ([([], YMap [(''logs'', YScalar yml)])] @ [])" by simp
  from config_file_configures_loggers [OF init rtranclp.rtrancl_refl doc(2,3) names, unfolded doc(4), OF doc(1)]
  obtain rw' old s0 s' where run: "LoadFromYaml yaml_tree 3 (YMap [(''logs'', YScalar yml)]) rw0 = Some rw'"
    "p_mgr (snd rw') = Some s'" and old: "LookupBase (fst rw0) ''logs'' = Some p"
      "map_option v_val (r_vars (fst rw0) p) = Some (LogDefines old)"
    and writes: "\<forall>i \<in> set [sample_define] - set old. ld_appenders i \<noteq> [] \<longrightarrow> (\<forall>lv c text. \<exists>q acts s2.
       getLogger s' (ld_name i) = (q, s') \<and> WILLE_LOG_LEVEL ?f 2 s' q lv c text = Some (Inr (acts, s2)) \<and>
       emitted acts = define_lines ?f (old_formatter s0 (ld_name i)) i lv
         ((site_event c (ld_name i) lv)\<lparr>e_content := text\<rparr>))"
    using prog_atD(2) [OF at] by auto
  have "old = []" using old(2) prog_atD(3) [OF at] by simp
  with writes obtain q acts s2 where q: "getLogger s' ''b'' = (q, s')"
    "WILLE_LOG_LEVEL ?f 2 s' q ERROR sample_site ''hi'' = Some (Inr (acts, s2))"
    "emitted acts = define_lines ?f (old_formatter s0 ''b'') sample_define ERROR
         ((site_event sample_site ''b'' ERROR)\<lparr>e_content := ''hi''\<rparr>)"
    by (fastforce simp: sample_define_def)
  from q(3) have lines: "map fst (emitted acts) = [Some ''b.txt'']"
    by (simp add: define_lines_def sample_define_def appender_line_def want_appender_def less_level_def less_eq_level_def)
  show ?thesis
    by (intro exI conjI) (rule init run q(1) q(2) lines)+
qed

end
