(* ===== verification/Scoped_Threads.thy ===== *)
theory Scoped_Threads
  imports Prelude
begin

text \<open>
  Threads that run code with scoped locks, over any shared state. A statement is a block that holds a
  mutex to its end, an atomic access, or a call. An access can take a mutex of its own for its duration
  (a member that locks, works and unlocks without locking anything else), and it yields the code that
  goes on from it. The locale \<open>lock_order\<close> is the discipline under which nothing blocks for ever: mutexes
  are taken in the order of their ranks, and every access succeeds in every state the others can bring
  about.
\<close>

datatype ('s, 'm, 'a, 'e, 'c) stmt =
    Locked 'm "('s, 'm, 'a, 'e, 'c) stmt list"
  | Atom "'m option" "'s \<Rightarrow> 'e + ('a list \<times> 's \<times> ('s, 'm, 'a, 'e, 'c) stmt list)"
  | Call 'c

text \<open>A thread is its open blocks, the innermost first; the outermost one is the call itself.\<close>

type_synonym ('s, 'm, 'a, 'e, 'c) frame = "'m option \<times> ('s, 'm, 'a, 'e, 'c) stmt list"

record ('s, 'm, 'a, 'e, 'c) lock_pool =
  lp_shared :: 's
  lp_owner :: "'m \<Rightarrow> nat option"
  lp_stacks :: "('s, 'm, 'a, 'e, 'c) frame list list"
  lp_out :: "(nat \<times> 'a) list"

definition can_take :: "('m \<Rightarrow> nat option) \<Rightarrow> 'm option \<Rightarrow> bool" where
  "can_take ow l = (case l of None \<Rightarrow> True | Some m \<Rightarrow> ow m = None)"

definition give_back :: "('m \<Rightarrow> nat option) \<Rightarrow> 'm option \<Rightarrow> 'm \<Rightarrow> nat option" where
  "give_back ow l = (case l of None \<Rightarrow> ow | Some m \<Rightarrow> ow(m := None))"

text \<open>One step of thread \<open>i\<close>: an error, or nothing (idle or blocked), or what it did.\<close>

fun stack_step ::
  "('c \<Rightarrow> ('s, 'm, 'a, 'e, 'c) stmt list) \<Rightarrow> nat \<Rightarrow> 's \<Rightarrow> ('m \<Rightarrow> nat option) \<Rightarrow> ('s, 'm, 'a, 'e, 'c) frame list \<Rightarrow>
     'e + ('a list \<times> 's \<times> ('m \<Rightarrow> nat option) \<times> ('s, 'm, 'a, 'e, 'c) frame list) option" where
  "stack_step body i s ow [] = Inr None"
| "stack_step body i s ow ((mo, []) # fs) = Inr (Some ([], s, give_back ow mo, fs))"
| "stack_step body i s ow ((mo, Locked m b # q) # fs) =
     (if ow m = None then Inr (Some ([], s, ow(m \<mapsto> i), (Some m, b) # (mo, q) # fs)) else Inr None)"
| "stack_step body i s ow ((mo, Atom l f # q) # fs) =
     (if can_take ow l
      then case f s of
             Inl e \<Rightarrow> Inl e
           | Inr (acts, s', nx) \<Rightarrow> Inr (Some (acts, s', ow, (mo, nx @ q) # fs))
      else Inr None)"
| "stack_step body i s ow ((mo, Call c # q) # fs) = Inr (Some ([], s, ow, (mo, body c @ q) # fs))"

definition pool_after ::
  "('s, 'm, 'a, 'e, 'c) lock_pool \<Rightarrow> nat \<Rightarrow> 'a list \<times> 's \<times> ('m \<Rightarrow> nat option) \<times> ('s, 'm, 'a, 'e, 'c) frame list \<Rightarrow>
     ('s, 'm, 'a, 'e, 'c) lock_pool" where
  "pool_after \<sigma> i = (\<lambda>(acts, s, ow, st).
     \<sigma>\<lparr>lp_shared := s, lp_owner := ow, lp_stacks := (lp_stacks \<sigma>)[i := st], lp_out := lp_out \<sigma> @ map (Pair i) acts\<rparr>)"

inductive pool_run ::
  "('c \<Rightarrow> ('s, 'm, 'a, 'e, 'c) stmt list) \<Rightarrow> ('s, 'm, 'a, 'e, 'c) lock_pool \<Rightarrow> ('s, 'm, 'a, 'e, 'c) lock_pool \<Rightarrow> bool"
  for body where
  advance: "\<lbrakk>i < length (lp_stacks \<sigma>);
      stack_step body i (lp_shared \<sigma>) (lp_owner \<sigma>) (lp_stacks \<sigma> ! i) = Inr (Some r)\<rbrakk> \<Longrightarrow>
    pool_run body \<sigma> (pool_after \<sigma> i r)"

text \<open>Steps of the threads and, by idle threads, new calls; \<open>ok\<close> says what may be called.\<close>

inductive pool_step ::
  "('c \<Rightarrow> ('s, 'm, 'a, 'e, 'c) stmt list) \<Rightarrow> ('s \<Rightarrow> ('s, 'm, 'a, 'e, 'c) stmt list \<Rightarrow> bool) \<Rightarrow>
     ('s, 'm, 'a, 'e, 'c) lock_pool \<Rightarrow> ('s, 'm, 'a, 'e, 'c) lock_pool \<Rightarrow> bool"
  for body ok where
  run: "pool_run body \<sigma> \<sigma>' \<Longrightarrow> pool_step body ok \<sigma> \<sigma>'"
| call: "\<lbrakk>i < length (lp_stacks \<sigma>); lp_stacks \<sigma> ! i = []; ok (lp_shared \<sigma>) q\<rbrakk> \<Longrightarrow>
    pool_step body ok \<sigma> (\<sigma>\<lparr>lp_stacks := (lp_stacks \<sigma>)[i := [(None, q)]]\<rparr>)"

definition holds_mutex :: "('s, 'm, 'a, 'e, 'c) frame list \<Rightarrow> 'm \<Rightarrow> bool" where
  "holds_mutex st m \<longleftrightarrow> Some m \<in> fst ` set st"

lemma holds_mutex_simps [simp]:
  "\<not> holds_mutex [] m" "holds_mutex ((mo, q) # fs) m \<longleftrightarrow> mo = Some m \<or> holds_mutex fs m"
  by (auto simp: holds_mutex_def)

definition at_rest :: "'s \<Rightarrow> nat \<Rightarrow> ('s, 'm, 'a, 'e, 'c) lock_pool" where
  "at_rest s n = \<lparr>lp_shared = s, lp_owner = \<lambda>m. None, lp_stacks = replicate n [], lp_out = []\<rparr>"

definition resting :: "('s, 'm, 'a, 'e, 'c) lock_pool \<Rightarrow> bool" where
  "resting \<sigma> \<longleftrightarrow> (\<forall>st \<in> set (lp_stacks \<sigma>). st = []) \<and> (\<forall>m. lp_owner \<sigma> m = None)"

subsection \<open>What a block computes when nobody interferes\<close>

inductive computes ::
  "('c \<Rightarrow> ('s, 'm, 'a, 'e, 'c) stmt list) \<Rightarrow> 's \<Rightarrow> ('s, 'm, 'a, 'e, 'c) stmt list \<Rightarrow> 'a list \<Rightarrow> 's \<Rightarrow> bool"
  for body where
  none: "computes body s [] [] s"
| locked: "computes body s b acts s1 \<Longrightarrow> computes body s1 q acts' s2 \<Longrightarrow>
    computes body s (Locked m b # q) (acts @ acts') s2"
| atom: "f s = Inr (acts, s1, nx) \<Longrightarrow> computes body s1 (nx @ q) acts' s2 \<Longrightarrow>
    computes body s (Atom l f # q) (acts @ acts') s2"
| call: "computes body s (body c @ q) acts s1 \<Longrightarrow> computes body s (Call c # q) acts s1"

lemma computes_append:
  "computes body s q acts s1 \<Longrightarrow> computes body s1 q' acts' s2 \<Longrightarrow> computes body s (q @ q') (acts @ acts') s2"
  by (induction rule: computes.induct) (auto intro: computes.intros)

subsection \<open>The discipline\<close>

inductive fine ::
  "('c \<Rightarrow> ('s, 'm, 'a, 'e, 'c) stmt list) \<Rightarrow> ('m \<Rightarrow> nat) \<Rightarrow> ('s \<Rightarrow> 's \<Rightarrow> bool) \<Rightarrow> 's \<Rightarrow> nat \<Rightarrow>
     ('s, 'm, 'a, 'e, 'c) stmt \<Rightarrow> bool"
  for body rank le where
  locked: "\<lbrakk>k \<le> rank m; \<And>x. x \<in> set b \<Longrightarrow> fine body rank le s (Suc (rank m)) x\<rbrakk> \<Longrightarrow>
    fine body rank le s k (Locked m b)"
| atom: "\<lbrakk>\<And>m. l = Some m \<Longrightarrow> k \<le> rank m;
    \<And>s'. le s s' \<Longrightarrow> \<exists>acts s'' nx. f s' = Inr (acts, s'', nx) \<and> le s' s'' \<and>
      (\<forall>x \<in> set nx. fine body rank le s'' k x)\<rbrakk> \<Longrightarrow>
    fine body rank le s k (Atom l f)"
| call: "(\<And>x. x \<in> set (body c) \<Longrightarrow> fine body rank le s k x) \<Longrightarrow> fine body rank le s k (Call c)"

inductive_simps fine_Locked: "fine body rank le s k (Locked m b)"
inductive_simps fine_Atom: "fine body rank le s k (Atom l f)"
inductive_simps fine_Call: "fine body rank le s k (Call c)"

fun level :: "('m \<Rightarrow> nat) \<Rightarrow> ('s, 'm, 'a, 'e, 'c) frame list \<Rightarrow> nat" where
  "level rank ((Some m, q) # fs) = Suc (rank m)"
| "level rank fs = 0"

locale lock_order =
  fixes body :: "'c \<Rightarrow> ('s, 'm, 'a, 'e, 'c) stmt list"
    and rank :: "'m \<Rightarrow> nat"
    and le :: "'s \<Rightarrow> 's \<Rightarrow> bool"
  assumes le_trans: "le s t \<Longrightarrow> le t u \<Longrightarrow> le s u"
    and le_self: "le s t \<Longrightarrow> le t t"
begin

abbreviation fine_stmt where "fine_stmt \<equiv> fine body rank le"

fun stack_ok where
  "stack_ok s [] = True"
| "stack_ok s ((mo, q) # fs) =
     ((\<forall>x \<in> set q. fine_stmt s (level rank ((mo, q) # fs)) x) \<and>
      (case mo of None \<Rightarrow> fs = [] | Some m \<Rightarrow> fs \<noteq> [] \<and> level rank fs \<le> rank m) \<and> stack_ok s fs)"

definition pool_ok where
  "pool_ok \<sigma> \<longleftrightarrow> le (lp_shared \<sigma>) (lp_shared \<sigma>) \<and>
     (\<forall>i < length (lp_stacks \<sigma>). stack_ok (lp_shared \<sigma>) (lp_stacks \<sigma> ! i)) \<and>
     (\<forall>m i. lp_owner \<sigma> m = Some i \<longleftrightarrow> i < length (lp_stacks \<sigma>) \<and> holds_mutex (lp_stacks \<sigma> ! i) m)"

lemma fine_mono: "fine_stmt s k x \<Longrightarrow> le s s' \<Longrightarrow> fine_stmt s' k x"
proof (induction arbitrary: s' rule: fine.induct)
  case (atom l k s f)
  show ?case by (rule fine.atom) (use atom.hyps atom.IH atom.prems le_trans in blast)+
qed (auto intro: fine.intros)

lemma fine_all_mono: "\<forall>x \<in> set q. fine_stmt s k x \<Longrightarrow> le s s' \<Longrightarrow> \<forall>x \<in> set q. fine_stmt s' k x"
  by (blast intro: fine_mono)

lemma stack_mono: "stack_ok s st \<Longrightarrow> le s s' \<Longrightarrow> stack_ok s' st"
proof (induction st)
  case (Cons f fs)
  then show ?case by (cases f) (simp, blast intro: fine_mono)
qed simp

lemma held_below: "stack_ok s st \<Longrightarrow> holds_mutex st m \<Longrightarrow> rank m < level rank st"
proof (induction st)
  case (Cons f fs)
  then show ?case by (cases f; cases "fst f") (fastforce simp: holds_mutex_def)+
qed (simp add: holds_mutex_def)

lemma stack_step_ok:
  assumes "stack_ok s st" and "le s s"
  shows "stack_step body i s ow st \<noteq> Inl e \<and>
    (stack_step body i s ow st = Inr (Some (acts, s', ow', st')) \<longrightarrow> le s s' \<and> stack_ok s' st')"
proof (cases st)
  case (Cons f fs)
  obtain mo q where f: "f = (mo, q)" by (cases f)
  have ok: "stack_ok s fs" "case mo of None \<Rightarrow> fs = [] | Some m \<Rightarrow> fs \<noteq> [] \<and> level rank fs \<le> rank m"
    "\<forall>x \<in> set q. fine_stmt s (level rank ((mo, q) # fs)) x"
    using assms(1) by (simp_all add: Cons f)
  obtain k where k: "\<And>(q' :: ('s, 'm, 'a, 'e, 'c) stmt list) fs'. level rank ((mo, q') # fs') = k" by (cases mo) auto
  show ?thesis
  proof (cases q)
    case Nil
    with Cons f ok(1) assms(2) show ?thesis by auto
  next
    case q: (Cons x q')
    have x: "fine_stmt s k x"
      and rest: "\<forall>y \<in> set q'. fine_stmt s k y" using ok(3) q by (simp_all add: k)
    show ?thesis
    proof (cases x)
      case (Locked m b)
      from x have "k \<le> rank m" "\<forall>y \<in> set b. fine_stmt s (Suc (rank m)) y"
        by (simp_all add: Locked fine_Locked)
      then show ?thesis using ok(1,2) rest assms(2) by (auto simp add: Cons f q Locked k)
    next
      case (Atom l g)
      from x assms(2) obtain acts1 s1 nx where g: "g s = Inr (acts1, s1, nx)" "le s s1"
        "\<forall>y \<in> set nx. fine_stmt s1 k y"
        unfolding Atom fine_Atom by blast
      moreover have "\<forall>y \<in> set q'. fine_stmt s1 k y"
        using rest g(2) fine_mono by blast
      ultimately show ?thesis using ok(2) stack_mono [OF ok(1) g(2)] by (auto simp add: Cons f q Atom k)
    next
      case (Call c)
      from x have "\<forall>y \<in> set (body c). fine_stmt s k y"
        by (simp add: Call fine_Call)
      then show ?thesis using ok(1,2) rest assms(2) by (auto simp add: Cons f q Call k)
    qed
  qed
qed simp

text \<open>Who owns a mutex afterwards.\<close>

lemma stack_step_owner:
  assumes "stack_ok s st" and own: "\<forall>m. ow m = Some i \<longleftrightarrow> holds_mutex st m"
    and step: "stack_step body i s ow st = Inr (Some (acts, s', ow', st'))"
  shows "(\<forall>m. ow' m = Some i \<longleftrightarrow> holds_mutex st' m) \<and> (\<forall>m j. j \<noteq> i \<longrightarrow> (ow' m = Some j \<longleftrightarrow> ow m = Some j))"
proof (cases st)
  case Nil
  with step show ?thesis by simp
next
  case (Cons f fs)
  obtain mo q where f: "f = (mo, q)" by (cases f)
  show ?thesis
  proof (cases q)
    case Nil
    have fresh: "\<not> holds_mutex fs m" if "mo = Some m" for m
      using assms(1) held_below [of s fs m] that by (auto simp add: Cons f)
    show ?thesis
    proof (cases mo)
      case None
      with step own show ?thesis by (simp add: Cons f Nil give_back_def)
    next
      case (Some m)
      then have own': "ow m' = Some i \<longleftrightarrow> m' = m \<or> holds_mutex fs m'" for m'
        using own by (auto simp: Cons f)
      have after: "ow' = ow(m := None)" "st' = fs" using step Some by (simp_all add: Cons f Nil give_back_def)
      have "ow m = Some i" using own' by simp
      then have "ow' m' = Some j \<longleftrightarrow> ow m' = Some j" if "j \<noteq> i" for m' j using that by (simp add: after)
      moreover have "ow' m' = Some i \<longleftrightarrow> holds_mutex st' m'" for m'
        using own' fresh [OF Some] by (simp add: after)
      ultimately show ?thesis by blast
    qed
  next
    case q: (Cons x q')
    show ?thesis
    proof (cases x)
      case (Locked m b)
      with step have after: "ow m = None" "ow' = ow(m \<mapsto> i)" "st' = (Some m, b) # (mo, q') # fs"
        by (simp_all add: Cons f q split: if_splits)
      have "ow m' = Some i \<longleftrightarrow> holds_mutex ((mo, q) # fs) m'" for m' using own by (simp add: Cons f)
      with after show ?thesis by simp
    next
      case (Atom l g)
      with step obtain nx where "ow' = ow" "st' = (mo, nx @ q') # fs"
        by (auto simp: Cons f q split: if_splits sum.splits)
      then show ?thesis using own by (simp add: Cons f)
    next
      case (Call c)
      with step have after: "ow' = ow" "st' = (mo, body c @ q') # fs" by (simp_all add: Cons f q)
      then show ?thesis using own by (simp add: Cons f)
    qed
  qed
qed

lemma pool_after_sel [simp]:
  "lp_shared (pool_after \<sigma> i (acts, s, ow, st)) = s" "lp_owner (pool_after \<sigma> i (acts, s, ow, st)) = ow"
  "lp_stacks (pool_after \<sigma> i (acts, s, ow, st)) = (lp_stacks \<sigma>)[i := st]"
  "lp_out (pool_after \<sigma> i (acts, s, ow, st)) = lp_out \<sigma> @ map (Pair i) acts"
  by (simp_all add: pool_after_def)

lemma pool_run_ok: "pool_run body \<sigma> \<sigma>' \<Longrightarrow> pool_ok \<sigma> \<Longrightarrow> pool_ok \<sigma>' \<and> le (lp_shared \<sigma>) (lp_shared \<sigma>')"
proof (induction rule: pool_run.induct)
  case (advance i \<sigma> r)
  obtain acts s ow st where r: "r = (acts, s, ow, st)" by (cases r)
  note step = advance.hyps(2) [unfolded r]
  have i: "stack_ok (lp_shared \<sigma>) (lp_stacks \<sigma> ! i)" "le (lp_shared \<sigma>) (lp_shared \<sigma>)"
    "\<forall>m. lp_owner \<sigma> m = Some i \<longleftrightarrow> holds_mutex (lp_stacks \<sigma> ! i) m"
    using advance.hyps(1) advance.prems by (simp_all add: pool_ok_def)
  from stack_step_ok [OF i(1,2)] step have ok: "le (lp_shared \<sigma>) s" "stack_ok s st" by blast+
  from stack_step_owner [OF i(1,3) step] have ow: "\<forall>m. ow m = Some i \<longleftrightarrow> holds_mutex st m"
    "\<forall>m j. j \<noteq> i \<longrightarrow> (ow m = Some j \<longleftrightarrow> lp_owner \<sigma> m = Some j)" by blast+
  have "stack_ok s ((lp_stacks \<sigma>)[i := st] ! j)" if "j < length (lp_stacks \<sigma>)" for j
    using that advance.prems ok stack_mono by (cases "j = i") (auto simp: pool_ok_def)
  moreover have "ow m = Some j \<longleftrightarrow> j < length (lp_stacks \<sigma>) \<and> holds_mutex ((lp_stacks \<sigma>)[i := st] ! j) m" for m j
    using advance.hyps(1) advance.prems ow by (cases "j = i") (auto simp: pool_ok_def)
  ultimately show ?case
    using ok(1) le_self by (simp add: r pool_ok_def)
qed

lemma pool_call_ok:
  assumes "pool_ok \<sigma>" and "i < length (lp_stacks \<sigma>)" and "lp_stacks \<sigma> ! i = []"
    and "\<forall>x \<in> set q. fine_stmt (lp_shared \<sigma>) 0 x"
  shows "pool_ok (\<sigma>\<lparr>lp_stacks := (lp_stacks \<sigma>)[i := [(None, q)]]\<rparr>)"
  using assms unfolding pool_ok_def by (auto simp: nth_list_update)

lemma pool_ok_safe: "pool_ok \<sigma> \<Longrightarrow> i < length (lp_stacks \<sigma>) \<Longrightarrow>
    stack_step body i (lp_shared \<sigma>) (lp_owner \<sigma>) (lp_stacks \<sigma> ! i) \<noteq> Inl e"
  using stack_step_ok unfolding pool_ok_def by blast

subsection \<open>Blocks run to their end\<close>

lemma computes_list:
  assumes "\<forall>x \<in> set q. \<forall>t. le s t \<longrightarrow> (\<exists>acts t'. computes body t [x] acts t' \<and> le t t')" and "le s t"
  shows "\<exists>acts t'. computes body t q acts t' \<and> le t t'"
  using assms
proof (induction q arbitrary: t)
  case Nil
  from le_self [OF Nil.prems(2)] show ?case
    by (intro exI [of _ "[]"] exI [of _ t] conjI computes.none)
next
  case (Cons x q)
  from Cons.prems(1) have x: "\<exists>acts t'. computes body t [x] acts t' \<and> le t t'"
    and q: "\<forall>x \<in> set q. \<forall>t. le s t \<longrightarrow> (\<exists>acts t'. computes body t [x] acts t' \<and> le t t')"
    using Cons.prems(2) by simp_all
  from x obtain acts1 t1 where 1: "computes body t [x] acts1 t1" "le t t1" by blast
  from Cons.IH [OF q le_trans [OF Cons.prems(2) 1(2)]] obtain acts2 t2
    where 2: "computes body t1 q acts2 t2" "le t1 t2" by blast
  from computes_append [OF 1(1) 2(1)] le_trans [OF 1(2) 2(2)] show ?case by auto
qed

lemma fine_computes1: "fine_stmt s k x \<Longrightarrow> le s t \<Longrightarrow> \<exists>acts t'. computes body t [x] acts t' \<and> le t t'"
proof (induction arbitrary: t rule: fine.induct)
  case (locked k m b s)
  from computes_list [of b s t] locked.IH locked.prems obtain acts t' where "computes body t b acts t'" "le t t'" by blast
  with computes.locked [OF this(1) computes.none] show ?case by blast
next
  case (atom l k s f)
  from atom.IH(1) [OF atom.prems] obtain acts s1 nx where f: "f t = Inr (acts, s1, nx)" "le t s1"
    and nx: "\<forall>x \<in> set nx. \<forall>u. le s1 u \<longrightarrow> (\<exists>acts u'. computes body u [x] acts u' \<and> le u u')" by blast
  from computes_list [OF nx le_self [OF f(2)]] obtain acts' t' where "computes body s1 nx acts' t'" "le s1 t'" by blast
  with computes.atom [of f t acts s1 nx body "[]"] f le_trans show ?case by fastforce
next
  case (call c s k)
  from computes_list [of "body c" s t] call.IH call.prems obtain acts t' where "computes body t (body c) acts t'" "le t t'"
    by blast
  with computes.call [of body t c "[]"] show ?case by auto
qed

lemma fine_computes:
  "\<forall>x \<in> set q. fine_stmt s k x \<Longrightarrow> le s s \<Longrightarrow> \<exists>acts s'. computes body s q acts s' \<and> le s s'"
  by (rule computes_list [of q s s]) (blast intro: fine_computes1)+

lemma computes_le: "computes body s q acts s' \<Longrightarrow> \<forall>x \<in> set q. fine_stmt s k x \<Longrightarrow> le s s \<Longrightarrow> le s s'"
proof (induction arbitrary: k rule: computes.induct)
  case (locked s b acts s1 q acts' s2 m)
  then have b: "le s s1" by (fastforce simp: fine_Locked)
  have "\<forall>x \<in> set q. fine_stmt s1 k x" by (rule fine_all_mono [OF _ b]) (use locked.prems(1) in simp)
  with locked.IH(2) le_self [OF b] b le_trans show ?case by blast
next
  case (atom f s acts s1 nx q acts' s2 l)
  from atom.prems have "fine_stmt s k (Atom l f)" by simp
  then have f: "le s s1" "\<forall>x \<in> set nx. fine_stmt s1 k x"
    using atom.prems(2) atom.hyps(1) by (fastforce simp: fine_Atom)+
  have "\<forall>x \<in> set q. fine_stmt s1 k x" by (rule fine_all_mono [OF _ f(1)]) (use atom.prems(1) in simp)
  with f(2) have "\<forall>x \<in> set (nx @ q). fine_stmt s1 k x" by auto
  with atom.IH le_self [OF f(1)] f(1) le_trans show ?case by blast
next
  case (call s c q acts s1)
  then show ?case by (fastforce simp: fine_Call)
qed simp

lemma pool_after_twice:
  "pool_after (pool_after \<sigma> i (acts, s, ow, st)) i (acts', s', ow', st') = pool_after \<sigma> i (acts @ acts', s', ow', st')"
  by (simp add: pool_after_def)

lemma computes_runs:
  "\<lbrakk>computes body s q acts s'; i < length (lp_stacks \<sigma>); lp_stacks \<sigma> ! i = (mo, q @ q') # fs; lp_shared \<sigma> = s;
    \<forall>x \<in> set q. fine_stmt s k x; le s s; \<forall>m. k \<le> rank m \<longrightarrow> lp_owner \<sigma> m = None\<rbrakk> \<Longrightarrow>
   (pool_run body)\<^sup>*\<^sup>* \<sigma> (pool_after \<sigma> i (acts, s', lp_owner \<sigma>, (mo, q') # fs))"
proof (induction arbitrary: \<sigma> mo fs q' k rule: computes.induct)
  case (none s)
  have "(lp_stacks \<sigma>)[i := (mo, q') # fs] = lp_stacks \<sigma>"
    using list_update_id [of "lp_stacks \<sigma>" i] none.prems(2) by simp
  then have "pool_after \<sigma> i ([], s, lp_owner \<sigma>, (mo, q') # fs) = \<sigma>"
    using none.prems(3) by (simp add: pool_after_def)
  then show ?case by simp
next
  case (locked s b acts s1 q acts' s2 m)
  have k: "k \<le> rank m" and b: "\<forall>x \<in> set b. fine_stmt s (Suc (rank m)) x"
    using locked.prems(4) by (simp_all add: fine_Locked)
  have free: "lp_owner \<sigma> m = None" using k locked.prems(6) by simp
  obtain \<sigma>1 where 1: "\<sigma>1 = pool_after \<sigma> i ([], s, (lp_owner \<sigma>)(m \<mapsto> i), (Some m, b) # (mo, q @ q') # fs)" by blast
  have s1: "pool_run body \<sigma> \<sigma>1"
    unfolding 1 by (rule pool_run.advance [OF locked.prems(1)]) (simp add: locked.prems(2,3) free)
  have le1: "le s s1" by (rule computes_le [OF locked.hyps(1) b locked.prems(5)])
  obtain \<sigma>2 where 2: "\<sigma>2 = pool_after \<sigma>1 i (acts, s1, lp_owner \<sigma>1, (Some m, []) # (mo, q @ q') # fs)" by blast
  have s2: "(pool_run body)\<^sup>*\<^sup>* \<sigma>1 \<sigma>2"
    unfolding 2 by (rule locked.IH(1) [OF _ _ _ b locked.prems(5)]) (use locked.prems(1,6) k in \<open>auto simp: 1\<close>)
  obtain \<sigma>3 where 3: "\<sigma>3 = pool_after \<sigma>2 i ([], s1, lp_owner \<sigma>, (mo, q @ q') # fs)" by blast
  have s3: "pool_run body \<sigma>2 \<sigma>3"
    unfolding 3 by (rule pool_run.advance) (use locked.prems(1) free in \<open>auto simp: 1 2 give_back_def fun_upd_idem\<close>)
  have q: "\<forall>x \<in> set q. fine_stmt s1 k x" by (rule fine_all_mono [OF _ le1]) (use locked.prems(4) in simp)
  have s4: "(pool_run body)\<^sup>*\<^sup>* \<sigma>3 (pool_after \<sigma>3 i (acts', s2, lp_owner \<sigma>3, (mo, q') # fs))"
    by (rule locked.IH(2) [OF _ _ _ q le_self [OF le1]]) (use locked.prems(1,6) in \<open>auto simp: 1 2 3\<close>)
  have "pool_after \<sigma>3 i (acts', s2, lp_owner \<sigma>3, (mo, q') # fs) = pool_after \<sigma> i (acts @ acts', s2, lp_owner \<sigma>, (mo, q') # fs)"
    by (simp add: 3 2 1 pool_after_twice)
  with s1 s2 s3 s4 show ?case
    by (metis (no_types, lifting) converse_rtranclp_into_rtranclp rtranclp_trans)
next
  case (atom f s acts s1 nx q acts' s2 l)
  from atom.prems have "fine_stmt s k (Atom l f)" by simp
  then have f: "\<And>m. l = Some m \<Longrightarrow> k \<le> rank m" "le s s1" "\<forall>x \<in> set nx. fine_stmt s1 k x"
    using atom.prems(5) atom.hyps(1) by (fastforce simp: fine_Atom)+
  obtain \<sigma>1 where 1: "\<sigma>1 = pool_after \<sigma> i (acts, s1, lp_owner \<sigma>, (mo, nx @ q @ q') # fs)" by blast
  have "can_take (lp_owner \<sigma>) l" using f(1) atom.prems(6) by (simp add: can_take_def split: option.splits)
  then have s1: "pool_run body \<sigma> \<sigma>1"
    unfolding 1 by (intro pool_run.advance [OF atom.prems(1)]) (simp add: atom.prems(2,3) atom.hyps(1))
  have "\<forall>x \<in> set q. fine_stmt s1 k x" by (rule fine_all_mono [OF _ f(2)]) (use atom.prems(4) in simp)
  with f(3) have q: "\<forall>x \<in> set (nx @ q). fine_stmt s1 k x" by (simp add: ball_Un)
  have s2: "(pool_run body)\<^sup>*\<^sup>* \<sigma>1 (pool_after \<sigma>1 i (acts', s2, lp_owner \<sigma>1, (mo, q') # fs))"
    by (rule atom.IH [OF _ _ _ q le_self [OF f(2)]]) (use atom.prems(1,6) in \<open>auto simp: 1\<close>)
  with s1 show ?case by (simp add: 1 pool_after_twice converse_rtranclp_into_rtranclp)
next
  case (call s c q acts s1)
  obtain \<sigma>1 where 1: "\<sigma>1 = pool_after \<sigma> i ([], s, lp_owner \<sigma>, (mo, body c @ q @ q') # fs)" by blast
  have s1: "pool_run body \<sigma> \<sigma>1"
    unfolding 1 by (rule pool_run.advance [OF call.prems(1)]) (simp add: call.prems(2,3))
  have q: "\<forall>x \<in> set (body c @ q). fine_stmt s k x" using call.prems(4) by (auto simp: fine_Call)
  have s2: "(pool_run body)\<^sup>*\<^sup>* \<sigma>1 (pool_after \<sigma>1 i (acts, s1, lp_owner \<sigma>1, (mo, q') # fs))"
    by (rule call.IH [OF _ _ _ q call.prems(5)]) (use call.prems(1,6) in \<open>auto simp: 1\<close>)
  with s1 show ?case by (simp add: 1 pool_after_twice converse_rtranclp_into_rtranclp)
qed

text \<open>
  The thread whose innermost mutex has the highest rank is never blocked: everything it still wants is
  free. So it reaches the end of that block, and in turn all threads come to rest.
\<close>

lemma block_ends:
  assumes ok: "pool_ok \<sigma>" and busy: "i < length (lp_stacks \<sigma>)" "lp_stacks \<sigma> ! i = (mo, q) # fs"
    and top: "\<forall>j < length (lp_stacks \<sigma>). level rank (lp_stacks \<sigma> ! j) \<le> level rank (lp_stacks \<sigma> ! i)"
  shows "\<exists>\<sigma>'. (pool_run body)\<^sup>*\<^sup>* \<sigma> \<sigma>' \<and> lp_stacks \<sigma>' = (lp_stacks \<sigma>)[i := fs]"
proof -
  let ?k = "level rank ((mo, q) # fs)"
  have le: "le (lp_shared \<sigma>) (lp_shared \<sigma>)" and fine: "\<forall>x \<in> set q. fine_stmt (lp_shared \<sigma>) ?k x"
    using ok busy by (auto simp: pool_ok_def)
  have free: "lp_owner \<sigma> m = None" if "?k \<le> rank m" for m
  proof (rule ccontr)
    assume "lp_owner \<sigma> m \<noteq> None"
    then obtain j where "j < length (lp_stacks \<sigma>)" "holds_mutex (lp_stacks \<sigma> ! j) m"
      using ok unfolding pool_ok_def by blast
    with held_below [of "lp_shared \<sigma>" "lp_stacks \<sigma> ! j" m] ok top busy(2) that show False
      unfolding pool_ok_def by fastforce
  qed
  obtain acts s where c: "computes body (lp_shared \<sigma>) q acts s" using fine_computes [OF fine le] by blast
  let ?t = "pool_after \<sigma> i (acts, s, lp_owner \<sigma>, (mo, []) # fs)"
  have run: "(pool_run body)\<^sup>*\<^sup>* \<sigma> ?t"
    by (rule computes_runs [OF c busy(1) _ refl fine le]) (use free busy(2) in simp_all)
  have "pool_run body ?t (pool_after ?t i ([], s, give_back (lp_owner \<sigma>) mo, fs))"
    by (rule pool_run.advance) (use busy(1) in simp_all)
  with run have "(pool_run body)\<^sup>*\<^sup>* \<sigma> (pool_after ?t i ([], s, give_back (lp_owner \<sigma>) mo, fs))"
    by (rule rtranclp.rtrancl_into_rtrancl)
  then show ?thesis
    by (rule exI [where x = "pool_after ?t i ([], s, give_back (lp_owner \<sigma>) mo, fs)", OF conjI]) simp
qed

lemma pool_runs_ok: "(pool_run body)\<^sup>*\<^sup>* \<sigma> \<sigma>' \<Longrightarrow> pool_ok \<sigma> \<Longrightarrow> pool_ok \<sigma>'"
  by (induction rule: rtranclp_induct) (auto dest: pool_run_ok)

lemma all_come_to_rest: "pool_ok \<sigma> \<Longrightarrow> \<exists>\<sigma>'. (pool_run body)\<^sup>*\<^sup>* \<sigma> \<sigma>' \<and> resting \<sigma>'"
proof (induction "sum_list (map length (lp_stacks \<sigma>))" arbitrary: \<sigma> rule: less_induct)
  case less
  let ?busy = "\<lambda>i. i < length (lp_stacks \<sigma>) \<and> lp_stacks \<sigma> ! i \<noteq> []"
  let ?level = "\<lambda>i. level rank (lp_stacks \<sigma> ! i)"
  show ?case
  proof (cases "\<exists>i. ?busy i")
    case True
    then obtain i0 where i0: "?busy i0" ..
    have "\<forall>i. ?busy i \<longrightarrow> ?level i < Suc (Max (set (map (level rank) (lp_stacks \<sigma>))))"
      by (simp add: less_Suc_eq_le)
    from ex_has_greatest_nat [of ?busy, OF i0 this] obtain i where i: "?busy i" "\<forall>j. ?busy j \<longrightarrow> ?level j \<le> ?level i"
      by blast
    then have top: "\<forall>j < length (lp_stacks \<sigma>). ?level j \<le> ?level i"
      by (metis level.simps(2) zero_le)
    obtain mo q fs where f: "lp_stacks \<sigma> ! i = (mo, q) # fs" using i(1) by (cases "lp_stacks \<sigma> ! i") auto
    from block_ends [OF less.prems _ f top] i(1) obtain \<sigma>1
      where run: "(pool_run body)\<^sup>*\<^sup>* \<sigma> \<sigma>1" and s1: "lp_stacks \<sigma>1 = (lp_stacks \<sigma>)[i := fs]" by blast
    have "sum_list (map length (lp_stacks \<sigma>1)) < sum_list (map length (lp_stacks \<sigma>))"
      using sum_list_map_update [of i "lp_stacks \<sigma>" length fs] i(1) f by (simp add: s1)
    from less.hyps [OF this pool_runs_ok [OF run less.prems]] obtain \<sigma>'
      where "(pool_run body)\<^sup>*\<^sup>* \<sigma>1 \<sigma>'" "resting \<sigma>'" by blast
    with run show ?thesis using rtranclp_trans [of "pool_run body" \<sigma> \<sigma>1 \<sigma>'] by blast
  next
    case False
    then have idle: "\<forall>i < length (lp_stacks \<sigma>). lp_stacks \<sigma> ! i = []" by blast
    then have "lp_owner \<sigma> m = None" for m
      using less.prems unfolding pool_ok_def by (metis holds_mutex_simps(1) not_None_eq)
    with idle have "resting \<sigma>" by (auto simp: resting_def in_set_conv_nth)
    then show ?thesis by blast
  qed
qed

lemma one_holder: "pool_ok \<sigma> \<Longrightarrow> i < length (lp_stacks \<sigma>) \<Longrightarrow> j < length (lp_stacks \<sigma>) \<Longrightarrow>
    holds_mutex (lp_stacks \<sigma> ! i) m \<Longrightarrow> holds_mutex (lp_stacks \<sigma> ! j) m \<Longrightarrow> i = j"
  unfolding pool_ok_def by (metis option.inject)

lemma at_rest_ok: "le s s \<Longrightarrow> pool_ok (at_rest s n)"
  by (simp add: pool_ok_def at_rest_def)

text \<open>A call that is left alone does what its block computes.\<close>

lemma call_alone:
  assumes "pool_ok \<sigma>" and "i < length (lp_stacks \<sigma>)" and "lp_stacks \<sigma> ! i = []" and free: "\<forall>m. lp_owner \<sigma> m = None"
    and fine: "\<forall>x \<in> set q. fine_stmt (lp_shared \<sigma>) 0 x" and c: "computes body (lp_shared \<sigma>) q acts s'"
  shows "(pool_run body)\<^sup>*\<^sup>* (\<sigma>\<lparr>lp_stacks := (lp_stacks \<sigma>)[i := [(None, q)]]\<rparr>)
    (\<sigma>\<lparr>lp_shared := s', lp_out := lp_out \<sigma> @ map (Pair i) acts\<rparr>)"
proof -
  let ?s = "\<sigma>\<lparr>lp_stacks := (lp_stacks \<sigma>)[i := [(None, q)]]\<rparr>"
  let ?t = "pool_after ?s i (acts, s', lp_owner \<sigma>, [(None, [])])"
  have le: "le (lp_shared \<sigma>) (lp_shared \<sigma>)" using assms(1) by (simp add: pool_ok_def)
  have run: "(pool_run body)\<^sup>*\<^sup>* ?s ?t"
    using computes_runs [OF c, of i ?s None "[]" "[]" 0] assms(2,5) free le by simp
  have "pool_run body ?t (pool_after ?t i ([], s', lp_owner \<sigma>, []))"
    by (rule pool_run.advance) (use assms(2) in \<open>simp_all add: give_back_def\<close>)
  moreover have "pool_after ?t i ([], s', lp_owner \<sigma>, []) = \<sigma>\<lparr>lp_shared := s', lp_out := lp_out \<sigma> @ map (Pair i) acts\<rparr>"
    using list_update_id [of "lp_stacks \<sigma>" i] assms(3) by (simp add: pool_after_def)
  ultimately have "pool_run body ?t (\<sigma>\<lparr>lp_shared := s', lp_out := lp_out \<sigma> @ map (Pair i) acts\<rparr>)" by simp
  with run show ?thesis by (rule rtranclp.rtrancl_into_rtrancl)
qed

end

end
