(* ===== verification/Log_Threads.thy ===== *)
theory Log_Threads
  imports Scoped_Threads Log_Config
begin

text \<open>
  The methods of \<open>Logger\<close>, \<open>LogAppender\<close> and \<open>LoggerManager\<close> (\<open>wille/log.cpp\<close>) taken apart at their
  mutexes, as code for the threads of \<open>Scoped_Threads\<close>. A logger keeps its mutex while it calls its
  appenders or the root logger, each of which has a mutex of its own; \<open>FileLogAppender::log\<close> reads its
  level and \<open>m_lastTime\<close> without the mutex and takes it twice; the listener of the logs variable holds
  nothing between its calls. A list that is read under the mutex of its owner is iterated as it was
  read, since all its writers take that mutex.
\<close>

datatype log_mutex = ManagerMutex | LoggerMutex ptr | AppenderMutex ptr

text \<open>The one call that can recur is that of \<open>Logger::log\<close>.\<close>

type_synonym log_call = "ptr \<times> level \<times> log_event"

type_synonym log_code = "(logs, log_mutex, log_action, log_error, log_call) stmt"

type_synonym log_access = "logs \<Rightarrow> log_error + (log_action list \<times> logs \<times> log_code list)"

definition quietly :: "(logs \<Rightarrow> logs logresult) \<Rightarrow> log_access" where
  "quietly f s = (case f s of Inl e \<Rightarrow> Inl e | Inr s' \<Rightarrow> Inr ([], s', []))"

definition at_logger :: "ptr \<Rightarrow> (logs \<Rightarrow> logger \<Rightarrow> log_error + (log_action list \<times> logs \<times> log_code list)) \<Rightarrow> log_access" where
  "at_logger p k s = (case log_heap s p of None \<Rightarrow> Inl NullLogger | Some l \<Rightarrow> k s l)"

definition at_appender :: "ptr \<Rightarrow> (logs \<Rightarrow> appender \<Rightarrow> log_error + (log_action list \<times> logs \<times> log_code list)) \<Rightarrow> log_access"
where
  "at_appender a k s = (case app_heap s a of None \<Rightarrow> Inl NullAppender | Some ap \<Rightarrow> k s ap)"

definition put_appender :: "logs \<Rightarrow> ptr \<Rightarrow> appender \<Rightarrow> logs" where
  "put_appender s a ap = s\<lparr>app_heap := (app_heap s)(a \<mapsto> ap)\<rparr>"

subsection \<open>Appenders\<close>

definition StdoutLogAppender_log_code :: "(string \<Rightarrow> u64 \<Rightarrow> string) \<Rightarrow> ptr \<Rightarrow> level \<Rightarrow> log_event \<Rightarrow> log_code list" where
  "StdoutLogAppender_log_code strftime a lv ev =
     [Atom (Some (AppenderMutex a)) (at_appender a (\<lambda>s ap.
        if lv \<ge> a_level ap
        then case a_formatter ap of
               None \<Rightarrow> Inl NullFormatter
             | Some f \<Rightarrow> Inr ([Emit None (formatter_format strftime f lv ev)], s, [])
        else Inr ([], s, [])))]"

definition reopen_code :: "string \<Rightarrow> ptr \<Rightarrow> log_code" where
  "reopen_code filename a = Atom (Some (AppenderMutex a)) (\<lambda>s. Inr ([Reopen filename], s, []))"

definition FileLogAppender_log_code ::
  "(string \<Rightarrow> u64 \<Rightarrow> string) \<Rightarrow> string \<Rightarrow> ptr \<Rightarrow> level \<Rightarrow> log_event \<Rightarrow> log_code list" where
  "FileLogAppender_log_code strftime filename a lv ev =
     [Atom None (at_appender a (\<lambda>s ap. Inr ([], s,
        if lv \<ge> a_level ap
        then [Atom None (at_appender a (\<lambda>s ap. Inr ([], s,
                if e_time ev \<ge> a_lastTime ap + 3
                then [reopen_code filename a,
                      Atom None (at_appender a (\<lambda>s ap.
                        Inr ([], put_appender s a (ap\<lparr>a_lastTime := e_time ev\<rparr>), [])))]
                else []))),
              Atom (Some (AppenderMutex a)) (at_appender a (\<lambda>s ap.
                case a_formatter ap of
                  None \<Rightarrow> Inl NullFormatter
                | Some f \<Rightarrow> Inr ([Emit (Some filename) (formatter_format strftime f lv ev)], s, [])))]
        else [])))]"

definition appender_log_code :: "(string \<Rightarrow> u64 \<Rightarrow> string) \<Rightarrow> ptr \<Rightarrow> level \<Rightarrow> log_event \<Rightarrow> log_code" where
  "appender_log_code strftime a lv ev =
     Atom None (at_appender a (\<lambda>s ap. Inr ([], s,
       case a_file ap of
         None \<Rightarrow> StdoutLogAppender_log_code strftime a lv ev
       | Some filename \<Rightarrow> FileLogAppender_log_code strftime filename a lv ev)))"

definition appender_setFormatter_code :: "ptr \<Rightarrow> formatter option \<Rightarrow> log_code" where
  "appender_setFormatter_code a val = Atom (Some (AppenderMutex a)) (quietly (\<lambda>s. appender_setFormatter s a val))"

text \<open>\<open>getFormatter\<close>: the value read decides how its caller goes on.\<close>

definition appender_getFormatter_code :: "ptr \<Rightarrow> (formatter option \<Rightarrow> log_code list) \<Rightarrow> log_code" where
  "appender_getFormatter_code a k =
     Atom (Some (AppenderMutex a)) (at_appender a (\<lambda>s ap. Inr ([], s, k (a_formatter ap))))"

definition appender_toYamlString_code :: "ptr \<Rightarrow> log_code" where
  "appender_toYamlString_code a = Atom (Some (AppenderMutex a)) (at_appender a (\<lambda>s ap. Inr ([], s, [])))"

subsection \<open>Loggers\<close>

fun Logger_log_code :: "(string \<Rightarrow> u64 \<Rightarrow> string) \<Rightarrow> log_call \<Rightarrow> log_code list" where
  "Logger_log_code strftime (p, lv, ev) =
     [Locked (LoggerMutex p)
       [Atom None (at_logger p (\<lambda>s l. Inr ([], s,
          if lv \<ge> l_level l
          then if l_appenders l \<noteq> [] then map (\<lambda>a. appender_log_code strftime a lv ev) (l_appenders l)
               else case l_root l of
                      Some r \<Rightarrow> [Call (r, lv, ev)]
                    | None \<Rightarrow> []
          else [])))]]"

definition statement_code :: "ptr \<Rightarrow> level \<Rightarrow> log_event \<Rightarrow> log_code" where
  "statement_code p lv ev = Atom None (at_logger p (\<lambda>s l. Inr ([], s, if l_level l \<le> lv then [Call (p, lv, ev)] else [])))"

definition logger_setLevel_code :: "ptr \<Rightarrow> level \<Rightarrow> log_code" where
  "logger_setLevel_code p val = Atom None (quietly (\<lambda>s. logger_setLevel s p val))"

definition addAppender_code :: "ptr \<Rightarrow> ptr \<Rightarrow> log_code" where
  "addAppender_code p a =
     Locked (LoggerMutex p)
       [appender_getFormatter_code a (\<lambda>f.
          let push = Atom None (at_logger p (\<lambda>s l.
                Inr ([], put_logger s p (l\<lparr>l_appenders := l_appenders l @ [a]\<rparr>), [])))
          in if f = None
             then [Atom None (at_logger p (\<lambda>s l. Inr ([], s,
                     [Atom (Some (AppenderMutex a)) (\<lambda>s.
                        case appender_setFormatter s a (l_formatter l) of
                          Inl e \<Rightarrow> Inl e
                        | Inr s' \<Rightarrow> Inr ([], s', [push]))])))]
             else [push])]"

definition delAppender_code :: "ptr \<Rightarrow> ptr \<Rightarrow> log_code" where
  "delAppender_code p a = Atom (Some (LoggerMutex p)) (quietly (\<lambda>s. delAppender s p a))"

definition clearAppenders_code :: "ptr \<Rightarrow> log_code" where
  "clearAppenders_code p = Atom (Some (LoggerMutex p)) (quietly (\<lambda>s. clearAppenders s p))"

definition logger_setFormatter_code :: "ptr \<Rightarrow> formatter option \<Rightarrow> log_code" where
  "logger_setFormatter_code p val =
     Locked (LoggerMutex p)
       [Atom None (at_logger p (\<lambda>s l. Inr ([], put_logger s p (l\<lparr>l_formatter := val\<rparr>),
          map (\<lambda>a. appender_setFormatter_code a val) (l_appenders l))))]"

definition logger_getFormatter_code :: "ptr \<Rightarrow> (formatter option \<Rightarrow> log_code list) \<Rightarrow> log_code" where
  "logger_getFormatter_code p k = Atom (Some (LoggerMutex p)) (at_logger p (\<lambda>s l. Inr ([], s, k (l_formatter l))))"

definition logger_setPattern_code :: "ptr \<Rightarrow> string \<Rightarrow> log_code list" where
  "logger_setPattern_code p val =
     (let new_val = new_LogFormatter val
      in if m_error new_val then [Atom None (at_logger p (\<lambda>s l. Inr ([], s, [])))]
         else [logger_setFormatter_code p (Some new_val)])"

definition logger_toYamlString_code :: "ptr \<Rightarrow> log_code" where
  "logger_toYamlString_code p =
     Locked (LoggerMutex p)
       [Atom None (at_logger p (\<lambda>s l. Inr ([], s, map appender_toYamlString_code (l_appenders l))))]"

subsection \<open>The manager and the listener\<close>

definition getLogger_code :: "string \<Rightarrow> (ptr \<Rightarrow> log_code list) \<Rightarrow> log_code" where
  "getLogger_code name k =
     Atom (Some ManagerMutex) (\<lambda>s. let (p, s') = getLogger s name in Inr ([], s', k p))"

definition manager_toYamlString_code :: log_code where
  "manager_toYamlString_code =
     Locked ManagerMutex [Atom None (\<lambda>s. Inr ([], s, map (\<lambda>(name, p). logger_toYamlString_code p) (m_loggers s)))]"

text \<open>Nobody else can see an appender before it is added, so its construction is one step.\<close>

definition new_appender_code :: "appender \<times> log_action list \<Rightarrow> (ptr \<Rightarrow> log_code list) \<Rightarrow> log_code" where
  "new_appender_code made k =
     Atom None (\<lambda>s. let (q, s') = alloc_appender s (fst made) in Inr (snd made, s', k q))"

definition conf_appender_code :: "ptr \<Rightarrow> log_appender_define \<Rightarrow> log_code" where
  "conf_appender_code p a = new_appender_code (make_appender a) (\<lambda>q. [addAppender_code p q])"

definition conf_logger_code :: "log_define \<Rightarrow> log_code" where
  "conf_logger_code i =
     getLogger_code (ld_name i) (\<lambda>p.
       [logger_setLevel_code p (ld_level i)] @
       (if ld_formatter i \<noteq> [] then logger_setPattern_code p (ld_formatter i) else []) @
       [clearAppenders_code p] @ map (conf_appender_code p) (ld_appenders i))"

definition drop_logger_code :: "string \<Rightarrow> log_code" where
  "drop_logger_code name = getLogger_code name (\<lambda>p. [logger_setLevel_code p UNKNOW, clearAppenders_code p])"

definition listener_code :: "log_event \<Rightarrow> log_define list \<Rightarrow> log_define list \<Rightarrow> log_code list" where
  "listener_code ev old_value new_value =
     [Atom None (\<lambda>s. Inr ([], s, [statement_code (m_rootLogger s) INFO ev]))] @
     map conf_logger_code (filter (changed old_value) new_value) @
     map (\<lambda>i. drop_logger_code (ld_name i)) (filter (\<lambda>i. set_find define_lt i new_value = None) old_value)"

subsection \<open>What a thread may call\<close>

datatype log_op =
    Statement ptr level log_event
  | LogTo ptr level log_event
  | AddAppender ptr ptr
  | DelAppender ptr ptr
  | ClearAppenders ptr
  | SetLevel ptr level
  | SetFormatter ptr formatter
  | SetPattern ptr string
  | GetFormatter ptr
  | ToYamlString ptr
  | AppenderSetFormatter ptr formatter
  | AppenderSetLevel ptr level
  | AppenderGetFormatter ptr
  | NewStdout
  | NewFile string
  | GetLogger string
  | AllToYamlString
  | ConfChanged log_event "log_define list" "log_define list"

fun op_code :: "(string \<Rightarrow> u64 \<Rightarrow> string) \<Rightarrow> log_op \<Rightarrow> log_code list" where
  "op_code strftime (Statement p lv ev) = [statement_code p lv ev]"
| "op_code strftime (LogTo p lv ev) = Logger_log_code strftime (p, lv, ev)"
| "op_code strftime (AddAppender p a) = [addAppender_code p a]"
| "op_code strftime (DelAppender p a) = [delAppender_code p a]"
| "op_code strftime (ClearAppenders p) = [clearAppenders_code p]"
| "op_code strftime (SetLevel p lv) = [logger_setLevel_code p lv]"
| "op_code strftime (SetFormatter p f) = [logger_setFormatter_code p (Some f)]"
| "op_code strftime (SetPattern p val) = logger_setPattern_code p val"
| "op_code strftime (GetFormatter p) = [logger_getFormatter_code p (\<lambda>f. [])]"
| "op_code strftime (ToYamlString p) = [logger_toYamlString_code p]"
| "op_code strftime (AppenderSetFormatter a f) = [appender_setFormatter_code a (Some f)]"
| "op_code strftime (AppenderSetLevel a lv) = [Atom None (quietly (\<lambda>s. appender_setLevel s a lv))]"
| "op_code strftime (AppenderGetFormatter a) = [appender_getFormatter_code a (\<lambda>f. [])]"
| "op_code strftime NewStdout = [new_appender_code (new_StdoutLogAppender, []) (\<lambda>q. [])]"
| "op_code strftime (NewFile filename) = [new_appender_code (new_FileLogAppender filename) (\<lambda>q. [])]"
| "op_code strftime (GetLogger name) = [getLogger_code name (\<lambda>p. [])]"
| "op_code strftime AllToYamlString = [manager_toYamlString_code]"
| "op_code strftime (ConfChanged ev old_value new_value) = listener_code ev old_value new_value"

text \<open>A pointer that is passed is not null. (The listener gets its pointers itself.)\<close>

fun op_valid :: "logs \<Rightarrow> log_op \<Rightarrow> bool" where
  "op_valid s (AddAppender p a) = (log_heap s p \<noteq> None \<and> app_heap s a \<noteq> None)"
| "op_valid s (AppenderSetFormatter a f) = (app_heap s a \<noteq> None)"
| "op_valid s (AppenderSetLevel a lv) = (app_heap s a \<noteq> None)"
| "op_valid s (AppenderGetFormatter a) = (app_heap s a \<noteq> None)"
| "op_valid s (Statement p lv ev) = (log_heap s p \<noteq> None)"
| "op_valid s (LogTo p lv ev) = (log_heap s p \<noteq> None)"
| "op_valid s (DelAppender p a) = (log_heap s p \<noteq> None)"
| "op_valid s (ClearAppenders p) = (log_heap s p \<noteq> None)"
| "op_valid s (SetLevel p lv) = (log_heap s p \<noteq> None)"
| "op_valid s (SetFormatter p f) = (log_heap s p \<noteq> None)"
| "op_valid s (SetPattern p val) = (log_heap s p \<noteq> None)"
| "op_valid s (GetFormatter p) = (log_heap s p \<noteq> None)"
| "op_valid s (ToYamlString p) = (log_heap s p \<noteq> None)"
| "op_valid s op = True"

definition callable :: "(string \<Rightarrow> u64 \<Rightarrow> string) \<Rightarrow> logs \<Rightarrow> log_code list \<Rightarrow> bool" where
  "callable strftime s q \<longleftrightarrow> (\<exists>op. op_valid s op \<and> q = op_code strftime op)"

text \<open>What the same operation does in the sequential model.\<close>

fun op_result :: "(string \<Rightarrow> u64 \<Rightarrow> string) \<Rightarrow> log_op \<Rightarrow> logs \<Rightarrow> (log_action list \<times> logs) logresult option" where
  "op_result strftime (Statement p lv ev) s = log_statement strftime 2 s p lv ev"
| "op_result strftime (LogTo p lv ev) s = logger_log strftime 2 s p lv ev"
| "op_result strftime (AddAppender p a) s = Some (silent (addAppender s p a))"
| "op_result strftime (DelAppender p a) s = Some (silent (delAppender s p a))"
| "op_result strftime (ClearAppenders p) s = Some (silent (clearAppenders s p))"
| "op_result strftime (SetLevel p lv) s = Some (silent (logger_setLevel s p lv))"
| "op_result strftime (SetFormatter p f) s = Some (silent (logger_setFormatter s p (Some f)))"
| "op_result strftime (SetPattern p val) s = Some (silent (logger_setPattern s p val))"
| "op_result strftime (AppenderSetFormatter a f) s = Some (silent (appender_setFormatter s a (Some f)))"
| "op_result strftime (AppenderSetLevel a lv) s = Some (silent (appender_setLevel s a lv))"
| "op_result strftime NewStdout s = Some (Inr ([], snd (alloc_appender s new_StdoutLogAppender)))"
| "op_result strftime (NewFile filename) s =
     (let (ap, acts) = new_FileLogAppender filename in Some (Inr (acts, snd (alloc_appender s ap))))"
| "op_result strftime (GetLogger name) s = Some (Inr ([], snd (getLogger s name)))"
| "op_result strftime (ConfChanged ev old_value new_value) s =
     on_logger_conf_changed strftime ev old_value new_value s"
| "op_result strftime op s = Some (Inr ([], s))"

end
