(* ===== verification/Log_Lock_Order.thy ===== *)
theory Log_Lock_Order
  imports Log_Threads Log_Config_Apply
begin

text \<open>
  The discipline of the mutexes of the log: they are taken in the order manager, logger, root logger,
  appender, and every access succeeds whatever other threads do before it. This interprets the locale
  \<open>lock_order\<close> of \<open>Scoped_Threads\<close> on the code of \<open>Log_Threads\<close>.
\<close>

subsection \<open>The order of the mutexes and the growth of the state\<close>

fun log_rank :: "ptr \<Rightarrow> log_mutex \<Rightarrow> nat" where
  "log_rank r ManagerMutex = 0"
| "log_rank r (LoggerMutex p) = (if p = r then 2 else 1)"
| "log_rank r (AppenderMutex a) = 3"

definition grown :: "ptr \<Rightarrow> logs \<Rightarrow> logs \<Rightarrow> bool" where
  "grown r s s' \<longleftrightarrow> log_inv s' \<and> m_rootLogger s' = r \<and>
     (\<forall>a ap. app_heap s a = Some ap \<longrightarrow>
        (\<exists>ap'. app_heap s' a = Some ap' \<and> (a_formatter ap \<noteq> None \<longrightarrow> a_formatter ap' \<noteq> None))) \<and>
     (\<forall>p l. log_heap s p = Some l \<longrightarrow> log_heap s' p \<noteq> None)"

lemma grown_self: "log_inv s \<Longrightarrow> m_rootLogger s = r \<Longrightarrow> grown r s s"
  by (simp add: grown_def)

lemma grownD:
  assumes "grown r s s'"
  shows "log_inv s'" and "m_rootLogger s' = r" and "has_formatter s a \<Longrightarrow> has_formatter s' a"
    and "app_heap s a \<noteq> None \<Longrightarrow> app_heap s' a \<noteq> None" and "log_heap s p \<noteq> None \<Longrightarrow> log_heap s' p \<noteq> None"
    and "grown r s' s'"
  using assms by (fastforce simp: grown_def has_formatter_def)+

lemma grown_trans: "grown r s t \<Longrightarrow> grown r t u \<Longrightarrow> grown r s u"
  unfolding grown_def by (elim conjE, intro conjI) (blast+)

interpretation log_order: lock_order "Logger_log_code strftime" "log_rank r" "grown r" for strftime r
proof
  show "grown r s t \<Longrightarrow> grown r t u \<Longrightarrow> grown r s u" for s t u by (rule grown_trans)
  show "grown r s t \<Longrightarrow> grown r t t" for s t by (rule grownD(6))
qed

lemma grown_put_logger:
  assumes "grown r s t" and "log_heap t p = Some l" and "logger_ok t l'" and "l_name l' = l_name l" and "l_root l' = l_root l"
  shows "grown r t (put_logger t p l')"
  using log_inv_put [OF grownD(1) [OF assms(1)] assms(2-5)] grownD(2) [OF assms(1)]
  by (auto simp: grown_def put_logger_def)

lemma grown_put_appender:
  assumes "grown r s t" and "app_heap t a = Some ap" and "a_formatter ap' \<noteq> None \<or> a_formatter ap = None"
  shows "grown r t (put_appender t a ap')"
  using log_inv_appender [OF grownD(1) [OF assms(1)] assms(2,3)] grownD(2) [OF assms(1)] assms(2,3)
  by (auto simp: grown_def put_appender_def)

abbreviation log_fine :: "(string \<Rightarrow> u64 \<Rightarrow> string) \<Rightarrow> ptr \<Rightarrow> logs \<Rightarrow> nat \<Rightarrow> log_code \<Rightarrow> bool" where
  "log_fine strftime r \<equiv> fine (Logger_log_code strftime) (log_rank r) (grown r)"

text \<open>An access to an appender or a logger that exists.\<close>

lemma fine_at_appender:
  assumes "app_heap s a \<noteq> None" and "\<And>m. l = Some m \<Longrightarrow> k \<le> log_rank r m"
    and "\<And>t ap. grown r s t \<Longrightarrow> app_heap t a = Some ap \<Longrightarrow>
      \<exists>acts u nx. f t ap = Inr (acts, u, nx) \<and> grown r t u \<and> (\<forall>x \<in> set nx. log_fine strftime r u k x)"
  shows "log_fine strftime r s k (Atom l (at_appender a f))"
proof (rule fine.atom [OF assms(2)])
  fix t
  assume t: "grown r s t"
  then obtain ap where ap: "app_heap t a = Some ap" using grownD(4) assms(1) by blast
  with assms(3) [OF t ap] show "\<exists>acts u nx. at_appender a f t = Inr (acts, u, nx) \<and> grown r t u \<and>
      (\<forall>x \<in> set nx. log_fine strftime r u k x)"
    by (simp add: at_appender_def)
qed

lemma fine_at_logger:
  assumes "log_heap s p \<noteq> None" and "\<And>m. l = Some m \<Longrightarrow> k \<le> log_rank r m"
    and "\<And>t lg. grown r s t \<Longrightarrow> log_heap t p = Some lg \<Longrightarrow> logger_ok t lg \<Longrightarrow>
      \<exists>acts u nx. f t lg = Inr (acts, u, nx) \<and> grown r t u \<and> (\<forall>x \<in> set nx. log_fine strftime r u k x)"
  shows "log_fine strftime r s k (Atom l (at_logger p f))"
proof (rule fine.atom [OF assms(2)])
  fix t
  assume t: "grown r s t"
  then obtain lg where lg: "log_heap t p = Some lg" using grownD(5) assms(1) by blast
  with assms(3) [OF t lg log_inv_logger [OF grownD(1) [OF t] lg]]
  show "\<exists>acts u nx. at_logger p f t = Inr (acts, u, nx) \<and> grown r t u \<and> (\<forall>x \<in> set nx. log_fine strftime r u k x)"
    by (simp add: at_logger_def)
qed

lemma fine_quietly:
  assumes "\<And>m. l = Some m \<Longrightarrow> k \<le> log_rank r m"
    and "\<And>t. grown r s t \<Longrightarrow> \<exists>u. f t = Inr u \<and> grown r t u"
  shows "log_fine strftime r s k (Atom l (quietly f))"
  by (rule fine.atom [OF assms(1)]) (use assms(2) in \<open>fastforce simp: quietly_def\<close>)+

lemma fine_block:
  "k \<le> log_rank r m \<Longrightarrow> log_fine strftime r s (Suc (log_rank r m)) x \<Longrightarrow> log_fine strftime r s k (Locked m [x])"
  by (rule fine.locked) simp_all

subsection \<open>Every operation keeps the discipline\<close>

lemma has_formatter_some: "has_formatter s a \<Longrightarrow> app_heap s a \<noteq> None"
  by (auto simp: has_formatter_def)

lemma grown_formatter:
  "grown r s t \<Longrightarrow> has_formatter s a \<Longrightarrow> app_heap t a = Some ap \<Longrightarrow> \<exists>f. a_formatter ap = Some f"
  using grownD(3) [of r s t a] by (auto simp: has_formatter_def)

lemma fine_emit:
  assumes "has_formatter s a" and "k \<le> 3"
  shows "log_fine strftime r s k (Atom (Some (AppenderMutex a)) (at_appender a (\<lambda>s ap.
      case a_formatter ap of None \<Rightarrow> Inl NullFormatter | Some f \<Rightarrow> Inr (acts f, s, []))))"
proof (rule fine_at_appender [OF has_formatter_some [OF assms(1)]])
  fix t ap
  assume t: "grown r s t" "app_heap t a = Some ap"
  with grown_formatter [OF t(1) assms(1) t(2)] grownD(6) [OF t(1)]
  show "\<exists>acts' u nx. (case a_formatter ap of None \<Rightarrow> Inl NullFormatter | Some f \<Rightarrow> Inr (acts f, t, [])) = Inr (acts', u, nx) \<and>
      grown r t u \<and> (\<forall>x \<in> set nx. log_fine strftime r u k x)" by auto
qed (use assms(2) in simp)

lemma fine_stdout_log:
  assumes "has_formatter s a" and "k \<le> 3" and "x \<in> set (StdoutLogAppender_log_code strftime a lv ev)"
  shows "log_fine strftime r s k x"
proof -
  have "log_fine strftime r s k (Atom (Some (AppenderMutex a)) (at_appender a (\<lambda>s ap.
      if lv \<ge> a_level ap
      then case a_formatter ap of
             None \<Rightarrow> Inl NullFormatter
           | Some f \<Rightarrow> Inr ([Emit None (formatter_format strftime f lv ev)], s, [])
      else Inr ([], s, []))))"
  proof (rule fine_at_appender [OF has_formatter_some [OF assms(1)]])
    fix t ap
    assume t: "grown r s t" "app_heap t a = Some ap"
    obtain f where "a_formatter ap = Some f" using grown_formatter [OF t(1) assms(1) t(2)] ..
    with grownD(6) [OF t(1)] show "\<exists>acts u nx. (if lv \<ge> a_level ap
        then case a_formatter ap of
               None \<Rightarrow> Inl NullFormatter
             | Some f \<Rightarrow> Inr ([Emit None (formatter_format strftime f lv ev)], t, [])
        else Inr ([], t, [])) = Inr (acts, u, nx) \<and> grown r t u \<and> (\<forall>x \<in> set nx. log_fine strftime r u k x)"
      by simp
  qed (use assms(2) in simp)
  with assms(3) show ?thesis by (simp add: StdoutLogAppender_log_code_def)
qed

lemma fine_file_log:
  assumes a: "has_formatter s a" and k: "k \<le> 3" and x: "x \<in> set (FileLogAppender_log_code strftime filename a lv ev)"
  shows "log_fine strftime r s k x"
proof -
  have some: "app_heap t a \<noteq> None" if "grown r s t" for t
    using grownD(3) [OF that a] by (rule has_formatter_some)
  have stamp: "log_fine strftime r t k (Atom None (at_appender a (\<lambda>s ap.
      Inr ([], put_appender s a (ap\<lparr>a_lastTime := e_time ev\<rparr>), []))))" if "grown r s t" for t
    by (rule fine_at_appender [OF some [OF that]]) (auto intro!: grown_put_appender)
  have reopen: "log_fine strftime r t k (reopen_code filename a)" for t
    unfolding reopen_code_def by (rule fine.atom) (use k grownD(6) in auto)
  have check: "log_fine strftime r t k (Atom None (at_appender a (\<lambda>s ap. Inr ([], s,
      if e_time ev \<ge> a_lastTime ap + 3
      then [reopen_code filename a,
            Atom None (at_appender a (\<lambda>s ap. Inr ([], put_appender s a (ap\<lparr>a_lastTime := e_time ev\<rparr>), [])))]
      else []))))" if "grown r s t" for t
    by (rule fine_at_appender [OF some [OF that]]) (use stamp reopen grownD(6) grown_trans [OF that] in auto)
  have "log_fine strftime r s k (hd (FileLogAppender_log_code strftime filename a lv ev))"
    unfolding FileLogAppender_log_code_def list.sel
    by (rule fine_at_appender [OF has_formatter_some [OF a]])
       (use check fine_emit [OF grownD(3) [OF _ a] k] grownD(6) in auto)
  with x show ?thesis by (simp add: FileLogAppender_log_code_def)
qed

lemma fine_appender_log:
  assumes a: "has_formatter s a" and k: "k \<le> 3"
  shows "log_fine strftime r s k (appender_log_code strftime a lv ev)"
  unfolding appender_log_code_def
proof (rule fine_at_appender [OF has_formatter_some [OF a]])
  fix t ap
  assume t: "grown r s t" "app_heap t a = Some ap"
  have "log_fine strftime r t k x" if "x \<in> set (case a_file ap of None \<Rightarrow> StdoutLogAppender_log_code strftime a lv ev
      | Some filename \<Rightarrow> FileLogAppender_log_code strftime filename a lv ev)" for x
    using that fine_stdout_log [OF grownD(3) [OF t(1) a] k] fine_file_log [OF grownD(3) [OF t(1) a] k]
    by (cases "a_file ap") simp_all
  with grownD(6) [OF t(1)] show "\<exists>acts u nx. Inr ([], t, case a_file ap of
      None \<Rightarrow> StdoutLogAppender_log_code strftime a lv ev
    | Some filename \<Rightarrow> FileLogAppender_log_code strftime filename a lv ev) = Inr (acts, u, nx) \<and>
      grown r t u \<and> (\<forall>x \<in> set nx. log_fine strftime r u k x)" by blast
qed simp

text \<open>\<open>Logger::log\<close>: the root logger has no root, every other logger has this one.\<close>

lemma fine_root_log:
  assumes s: "grown r s0 s" and k: "k \<le> 2"
  shows "\<forall>x \<in> set (Logger_log_code strftime (r, lv, ev)). log_fine strftime r s k x"
proof -
  have root: "\<exists>l. log_heap t r = Some l \<and> l_root l = None" if "grown r s' t" for s' t
    using grownD(1,2) [OF that] unfolding log_inv_def by blast
  have "log_fine strftime r s 3 (Atom None (at_logger r (\<lambda>s l. Inr ([], s,
      if lv \<ge> l_level l
      then if l_appenders l \<noteq> [] then map (\<lambda>a. appender_log_code strftime a lv ev) (l_appenders l)
           else case l_root l of Some r \<Rightarrow> [Call (r, lv, ev)] | None \<Rightarrow> []
      else []))))"
  proof (rule fine_at_logger)
    show "log_heap s r \<noteq> None" using root [OF s] by auto
    fix t l
    assume t: "grown r s t" "log_heap t r = Some l" "logger_ok t l"
    have "l_root l = None" using root [OF t(1)] t(2) by simp
    moreover have "\<forall>a \<in> set (l_appenders l). log_fine strftime r t 3 (appender_log_code strftime a lv ev)"
      using t(3) by (simp add: logger_ok_def fine_appender_log)
    ultimately show "\<exists>acts u nx. Inr ([], t, if lv \<ge> l_level l
        then if l_appenders l \<noteq> [] then map (\<lambda>a. appender_log_code strftime a lv ev) (l_appenders l)
             else case l_root l of Some r \<Rightarrow> [Call (r, lv, ev)] | None \<Rightarrow> []
        else []) = Inr (acts, u, nx) \<and> grown r t u \<and> (\<forall>x \<in> set nx. log_fine strftime r u 3 x)"
      using grownD(6) [OF t(1)] by auto
  qed simp
  with k show ?thesis by (auto intro!: fine.locked simp: numeral_3_eq_3 numeral_2_eq_2)
qed

lemma fine_log:
  assumes s: "grown r s0 s" and p: "log_heap s p \<noteq> None" and k: "k \<le> log_rank r (LoggerMutex p)"
  shows "\<forall>x \<in> set (Logger_log_code strftime (p, lv, ev)). log_fine strftime r s k x"
proof (cases "p = r")
  case True
  with fine_root_log [OF s] k show ?thesis by simp
next
  case False
  have "log_fine strftime r s 2 (Atom None (at_logger p (\<lambda>s l. Inr ([], s,
      if lv \<ge> l_level l
      then if l_appenders l \<noteq> [] then map (\<lambda>a. appender_log_code strftime a lv ev) (l_appenders l)
           else case l_root l of Some r \<Rightarrow> [Call (r, lv, ev)] | None \<Rightarrow> []
      else []))))"
  proof (rule fine_at_logger [OF p])
    fix t l
    assume t: "grown r s t" "log_heap t p = Some l" "logger_ok t l"
    have apps: "\<forall>a \<in> set (l_appenders l). log_fine strftime r t 2 (appender_log_code strftime a lv ev)"
      using t(3) by (simp add: logger_ok_def fine_appender_log)
    have "log_fine strftime r t 2 (Call (q, lv, ev))" if "l_root l = Some q" for q
    proof -
      have "q = r" using that t(3) grownD(2) [OF t(1)] by (simp add: logger_ok_def)
      then show ?thesis by (intro fine.call) (use fine_root_log [OF t(1)] in blast)
    qed
    with apps show "\<exists>acts u nx. Inr ([], t, if lv \<ge> l_level l
        then if l_appenders l \<noteq> [] then map (\<lambda>a. appender_log_code strftime a lv ev) (l_appenders l)
             else case l_root l of Some r \<Rightarrow> [Call (r, lv, ev)] | None \<Rightarrow> []
        else []) = Inr (acts, u, nx) \<and> grown r t u \<and> (\<forall>x \<in> set nx. log_fine strftime r u 2 x)"
      using grownD(6) [OF t(1)] by (auto split: option.splits)
  qed simp
  with k False show ?thesis by (auto intro!: fine.locked simp: numeral_2_eq_2)
qed

lemma fine_statement:
  assumes "grown r s0 s" and "log_heap s p \<noteq> None" and "k \<le> log_rank r (LoggerMutex p)"
  shows "log_fine strftime r s k (statement_code p lv ev)"
  unfolding statement_code_def
proof (rule fine_at_logger [OF assms(2)])
  fix t l
  assume t: "grown r s t" "log_heap t p = Some l"
  have "log_fine strftime r t k (Call (p, lv, ev))"
    by (rule fine.call) (use fine_log [OF t(1) _ assms(3)] t(2) in blast)
  with grownD(6) [OF t(1)] show "\<exists>acts u nx. Inr ([], t, if l_level l \<le> lv then [Call (p, lv, ev)] else []) = Inr (acts, u, nx) \<and>
      grown r t u \<and> (\<forall>x \<in> set nx. log_fine strftime r u k x)" by simp
qed simp

text \<open>The members that change a logger or an appender.\<close>

lemma grown_logger_update:
  assumes "grown r s t" and "log_heap t p \<noteq> None"
    and "\<And>l. logger_ok t l \<Longrightarrow> logger_ok t (g l)" "\<And>l. l_name (g l) = l_name l" "\<And>l. l_root (g l) = l_root l"
  shows "\<exists>u. with_logger t p (\<lambda>l. Inr (put_logger t p (g l))) = Inr u \<and> grown r t u"
proof -
  obtain l where l: "log_heap t p = Some l" using assms(2) by blast
  from grown_put_logger [OF assms(1) l assms(3) [OF log_inv_logger [OF grownD(1) [OF assms(1)] l]] assms(4,5)] l
  show ?thesis by simp
qed

lemma fine_setLevel: "log_heap s p \<noteq> None \<Longrightarrow> log_fine strftime r s k (logger_setLevel_code p lv)"
  unfolding logger_setLevel_code_def logger_setLevel_def
  by (rule fine_quietly) (auto intro!: grown_logger_update dest: grownD(5) simp del: with_logger.simps simp: logger_ok_def)

lemma fine_clearAppenders:
  "log_heap s p \<noteq> None \<Longrightarrow> k \<le> log_rank r (LoggerMutex p) \<Longrightarrow> log_fine strftime r s k (clearAppenders_code p)"
  unfolding clearAppenders_code_def clearAppenders_def
  by (rule fine_quietly) (auto intro!: grown_logger_update dest: grownD(5) simp del: with_logger.simps simp: logger_ok_def)

lemma logger_ok_remove1: "logger_ok t l \<Longrightarrow> logger_ok t (l\<lparr>l_appenders := remove1 a (l_appenders l)\<rparr>)"
  by (auto simp: logger_ok_def dest: subsetD [OF set_remove1_subset])

lemma fine_delAppender:
  "log_heap s p \<noteq> None \<Longrightarrow> k \<le> log_rank r (LoggerMutex p) \<Longrightarrow> log_fine strftime r s k (delAppender_code p a)"
  unfolding delAppender_code_def delAppender_def
  by (rule fine_quietly)
     (auto intro!: grown_logger_update logger_ok_remove1 dest: grownD(5) simp del: with_logger.simps)

lemma grown_setFormatter:
  assumes "grown r s t" and "app_heap t a \<noteq> None"
  shows "\<exists>u. appender_setFormatter t a (Some f) = Inr u \<and> grown r t u \<and> has_formatter u a"
proof -
  obtain ap where ap: "app_heap t a = Some ap" using assms(2) by blast
  with grown_put_appender [OF assms(1) ap, of "ap\<lparr>a_formatter := Some f\<rparr>"] show ?thesis
    by (auto simp: appender_setFormatter_def put_appender_def has_formatter_def)
qed

lemma fine_appender_setFormatter:
  assumes "app_heap s a \<noteq> None" and "k \<le> 3"
  shows "log_fine strftime r s k (appender_setFormatter_code a (Some f))"
  unfolding appender_setFormatter_code_def
  by (rule fine_quietly) (use assms grown_setFormatter grownD(4) in \<open>auto, blast\<close>)

lemma fine_appender_setLevel:
  assumes "app_heap s a \<noteq> None"
  shows "log_fine strftime r s k (Atom None (quietly (\<lambda>s. appender_setLevel s a lv)))"
proof (rule fine_quietly)
  fix t
  assume t: "grown r s t"
  then obtain ap where ap: "app_heap t a = Some ap" using grownD(4) assms by blast
  with grown_put_appender [OF t ap, of "ap\<lparr>a_level := lv\<rparr>"]
  show "\<exists>u. appender_setLevel t a lv = Inr u \<and> grown r t u"
    by (auto simp: appender_setLevel_def put_appender_def)
qed simp

lemma fine_logger_setFormatter:
  assumes "log_heap s p \<noteq> None" and "k \<le> log_rank r (LoggerMutex p)"
  shows "log_fine strftime r s k (logger_setFormatter_code p (Some f))"
  unfolding logger_setFormatter_code_def
proof (rule fine_block, rule assms(2))
  let ?k = "Suc (log_rank r (LoggerMutex p))"
  show "log_fine strftime r s ?k (Atom None (at_logger p (\<lambda>s l. Inr ([], put_logger s p (l\<lparr>l_formatter := Some f\<rparr>),
      map (\<lambda>a. appender_setFormatter_code a (Some f)) (l_appenders l)))))"
  proof (rule fine_at_logger [OF assms(1)])
    fix t l
    assume t: "grown r s t" "log_heap t p = Some l" "logger_ok t l"
    let ?u = "put_logger t p (l\<lparr>l_formatter := Some f\<rparr>)"
    have u: "grown r t ?u" by (rule grown_put_logger [OF t(1,2)]) (use t(3) in \<open>simp_all add: logger_ok_def\<close>)
    have "\<forall>a \<in> set (l_appenders l). log_fine strftime r ?u ?k (appender_setFormatter_code a (Some f))"
      using t(3) grownD(3) [OF u] has_formatter_some
      by (auto simp: logger_ok_def intro!: fine_appender_setFormatter split: if_splits)
    with u show "\<exists>acts u nx. Inr ([], ?u, map (\<lambda>a. appender_setFormatter_code a (Some f)) (l_appenders l)) = Inr (acts, u, nx) \<and>
        grown r t u \<and> (\<forall>x \<in> set nx. log_fine strftime r u ?k x)" by auto
  qed simp
qed

lemma fine_logger_setPattern:
  assumes "log_heap s p \<noteq> None" and "k \<le> log_rank r (LoggerMutex p)"
  shows "\<forall>x \<in> set (logger_setPattern_code p val). log_fine strftime r s k x"
proof -
  have "log_fine strftime r s k (Atom None (at_logger p (\<lambda>s l. Inr ([], s, []))))"
    by (rule fine_at_logger [OF assms(1)]) (auto dest: grownD(6))
  with fine_logger_setFormatter [OF assms] show ?thesis by (simp add: logger_setPattern_code_def Let_def)
qed

lemma fine_appender_getFormatter:
  assumes "app_heap s a \<noteq> None" and "k \<le> 3"
    and "\<And>t ap x. grown r s t \<Longrightarrow> app_heap t a = Some ap \<Longrightarrow> x \<in> set (h (a_formatter ap)) \<Longrightarrow> log_fine strftime r t k x"
  shows "log_fine strftime r s k (appender_getFormatter_code a h)"
  unfolding appender_getFormatter_code_def
  by (rule fine_at_appender [OF assms(1)]) (use assms(2,3) grownD(6) in auto)

lemma fine_logger_getFormatter:
  assumes "log_heap s p \<noteq> None" and "k \<le> log_rank r (LoggerMutex p)"
  shows "log_fine strftime r s k (logger_getFormatter_code p (\<lambda>f. []))"
  unfolding logger_getFormatter_code_def
  by (rule fine_at_logger [OF assms(1)]) (use assms(2) grownD(6) in auto)

text \<open>\<open>addAppender\<close>: the appender has a formatter when it is pushed.\<close>

lemma fine_push:
  assumes "log_heap s p \<noteq> None" and "has_formatter s a"
  shows "log_fine strftime r s k (Atom None (at_logger p (\<lambda>s l.
      Inr ([], put_logger s p (l\<lparr>l_appenders := l_appenders l @ [a]\<rparr>), []))))"
proof (rule fine_at_logger [OF assms(1)])
  fix t l
  assume t: "grown r s t" "log_heap t p = Some l" "logger_ok t l"
  have "grown r t (put_logger t p (l\<lparr>l_appenders := l_appenders l @ [a]\<rparr>))"
    by (rule grown_put_logger [OF t(1,2)]) (use t(3) grownD(3) [OF t(1) assms(2)] in \<open>auto simp: logger_ok_def\<close>)
  then show "\<exists>acts u nx. Inr ([], put_logger t p (l\<lparr>l_appenders := l_appenders l @ [a]\<rparr>), []) = Inr (acts, u, nx) \<and>
      grown r t u \<and> (\<forall>x \<in> set nx. log_fine strftime r u k x)" by simp
qed simp

lemma fine_first_formatter:
  assumes "log_heap s p \<noteq> None" and "app_heap s a \<noteq> None" and "k \<le> 3"
  shows "log_fine strftime r s k (Atom None (at_logger p (\<lambda>s l. Inr ([], s,
      [Atom (Some (AppenderMutex a)) (\<lambda>s.
         case appender_setFormatter s a (l_formatter l) of
           Inl e \<Rightarrow> Inl e
         | Inr s' \<Rightarrow> Inr ([], s', [Atom None (at_logger p (\<lambda>s l.
             Inr ([], put_logger s p (l\<lparr>l_appenders := l_appenders l @ [a]\<rparr>), [])))]))]))))"
proof (rule fine_at_logger [OF assms(1)])
  fix t l
  assume t: "grown r s t" "log_heap t p = Some l" "logger_ok t l"
  obtain f where f: "l_formatter l = Some f" using t(3) by (auto simp: logger_ok_def)
  have "log_fine strftime r t k (Atom (Some (AppenderMutex a)) (\<lambda>s.
         case appender_setFormatter s a (l_formatter l) of
           Inl e \<Rightarrow> Inl e
         | Inr s' \<Rightarrow> Inr ([], s', [Atom None (at_logger p (\<lambda>s l.
             Inr ([], put_logger s p (l\<lparr>l_appenders := l_appenders l @ [a]\<rparr>), [])))])))"
  proof (rule fine.atom)
    fix u
    assume u: "grown r t u"
    from grown_setFormatter [OF u grownD(4) [OF u grownD(4) [OF t(1) assms(2)]], of f] obtain v
      where v: "appender_setFormatter u a (Some f) = Inr v" "grown r u v" "has_formatter v a" by blast
    have "log_heap v p \<noteq> None" using grownD(5) [OF grown_trans [OF u v(2)]] t(2) by simp
    from fine_push [OF this v(3)] v(1,2)
    show "\<exists>acts s'' nx. (case appender_setFormatter u a (l_formatter l) of
           Inl e \<Rightarrow> Inl e
         | Inr s' \<Rightarrow> Inr ([], s', [Atom None (at_logger p (\<lambda>s l.
             Inr ([], put_logger s p (l\<lparr>l_appenders := l_appenders l @ [a]\<rparr>), [])))])) = Inr (acts, s'', nx) \<and>
         grown r u s'' \<and> (\<forall>x \<in> set nx. log_fine strftime r s'' k x)"
      by (simp add: f)
  qed (use assms(3) in simp)
  with grownD(6) [OF t(1)] show "\<exists>acts u nx. Inr ([], t,
      [Atom (Some (AppenderMutex a)) (\<lambda>s.
         case appender_setFormatter s a (l_formatter l) of
           Inl e \<Rightarrow> Inl e
         | Inr s' \<Rightarrow> Inr ([], s', [Atom None (at_logger p (\<lambda>s l.
             Inr ([], put_logger s p (l\<lparr>l_appenders := l_appenders l @ [a]\<rparr>), [])))]))]) = Inr (acts, u, nx) \<and>
      grown r t u \<and> (\<forall>x \<in> set nx. log_fine strftime r u k x)" by simp
qed simp

lemma fine_addAppender:
  assumes p: "log_heap s p \<noteq> None" and a: "app_heap s a \<noteq> None" and k: "k \<le> log_rank r (LoggerMutex p)"
  shows "log_fine strftime r s k (addAppender_code p a)"
proof -
  let ?k = "Suc (log_rank r (LoggerMutex p))"
  have k3: "?k \<le> 3" by simp
  show ?thesis
    unfolding addAppender_code_def
  proof (rule fine_block, rule k)
    show "log_fine strftime r s ?k (appender_getFormatter_code a (\<lambda>f.
          let push = Atom None (at_logger p (\<lambda>s l.
                Inr ([], put_logger s p (l\<lparr>l_appenders := l_appenders l @ [a]\<rparr>), [])))
          in if f = None
             then [Atom None (at_logger p (\<lambda>s l. Inr ([], s,
                     [Atom (Some (AppenderMutex a)) (\<lambda>s.
                        case appender_setFormatter s a (l_formatter l) of
                          Inl e \<Rightarrow> Inl e
                        | Inr s' \<Rightarrow> Inr ([], s', [push]))])))]
             else [push]))"
    proof (rule fine_appender_getFormatter [OF a k3])
      fix t ap x
      assume t: "grown r s t" "app_heap t a = Some ap"
        and x: "x \<in> set (let push = Atom None (at_logger p (\<lambda>s l.
                Inr ([], put_logger s p (l\<lparr>l_appenders := l_appenders l @ [a]\<rparr>), [])))
          in if a_formatter ap = None
             then [Atom None (at_logger p (\<lambda>s l. Inr ([], s,
                     [Atom (Some (AppenderMutex a)) (\<lambda>s.
                        case appender_setFormatter s a (l_formatter l) of
                          Inl e \<Rightarrow> Inl e
                        | Inr s' \<Rightarrow> Inr ([], s', [push]))])))]
             else [push])"
      have "log_heap t p \<noteq> None" "app_heap t a \<noteq> None" using grownD(5) [OF t(1) p] t(2) by simp_all
      from fine_first_formatter [OF this k3] fine_push [OF this(1), of a] x t(2)
      show "log_fine strftime r t ?k x"
        by (cases "a_formatter ap") (auto simp: Let_def has_formatter_def)
    qed
  qed
qed

text \<open>The manager and the listener.\<close>

lemma grown_getLogger:
  assumes "grown r s t"
  shows "grown r t (snd (getLogger t name)) \<and> log_heap (snd (getLogger t name)) (fst (getLogger t name)) \<noteq> None"
proof (cases "map_of (m_loggers t) name")
  case (Some p)
  with grownD(1) [OF assms] obtain l where "log_heap t p = Some l" unfolding log_inv_def by blast
  with Some grownD(6) [OF assms] show ?thesis by (simp add: getLogger_def)
next
  case None
  with getLogger_inv [OF grownD(1) [OF assms], of name] grownD(2) [OF assms] show ?thesis
    by (auto simp: getLogger_def alloc_logger_def grown_def)
qed

lemma fine_getLogger:
  assumes "k = 0" and "\<And>t p x. grown r s t \<Longrightarrow> log_heap t p \<noteq> None \<Longrightarrow> x \<in> set (h p) \<Longrightarrow> log_fine strftime r t k x"
  shows "log_fine strftime r s k (getLogger_code name h)"
  unfolding getLogger_code_def
proof (rule fine.atom)
  fix t
  assume t: "grown r s t"
  obtain p u where g: "getLogger t name = (p, u)" by fastforce
  with grown_getLogger [OF t, of name] have "grown r t u" "log_heap u p \<noteq> None" by simp_all
  with assms(2) [OF grown_trans [OF t]] show "\<exists>acts s'' nx. (let (p, s') = getLogger t name in Inr ([], s', h p)) = Inr (acts, s'', nx) \<and>
      grown r t s'' \<and> (\<forall>x \<in> set nx. log_fine strftime r s'' k x)" by (simp add: g)
qed (use assms(1) in simp)

lemma grown_alloc:
  assumes "grown r s t"
  shows "grown r t (snd (alloc_appender t ap)) \<and> app_heap (snd (alloc_appender t ap)) (fst (alloc_appender t ap)) \<noteq> None"
proof -
  have "app_heap t (log_next t) = None"
    using grownD(1) [OF assms] unfolding log_inv_def by (intro dom_less_fresh) simp
  with alloc_appender_inv [OF grownD(1) [OF assms], of ap] grownD(2) [OF assms] show ?thesis
    by (auto simp: alloc_appender_def grown_def)
qed

lemma fine_new_appender:
  assumes "\<And>t q x. grown r s t \<Longrightarrow> app_heap t q \<noteq> None \<Longrightarrow> x \<in> set (h q) \<Longrightarrow> log_fine strftime r t k x"
  shows "log_fine strftime r s k (new_appender_code made h)"
  unfolding new_appender_code_def
proof (rule fine.atom)
  fix t
  assume t: "grown r s t"
  obtain q u where g: "alloc_appender t (fst made) = (q, u)" by fastforce
  with grown_alloc [OF t, of "fst made"] have "grown r t u" "app_heap u q \<noteq> None" by simp_all
  with assms [OF grown_trans [OF t]]
  show "\<exists>acts s'' nx. (let (q, s') = alloc_appender t (fst made) in Inr (snd made, s', h q)) = Inr (acts, s'', nx) \<and>
      grown r t s'' \<and> (\<forall>x \<in> set nx. log_fine strftime r s'' k x)" by (simp add: g)
qed simp

lemma fine_conf_appender:
  assumes "log_heap s p \<noteq> None" and "k \<le> log_rank r (LoggerMutex p)"
  shows "log_fine strftime r s k (conf_appender_code p a)"
  unfolding conf_appender_code_def
  by (rule fine_new_appender) (use assms grownD(5) fine_addAppender in auto)

lemma fine_conf_logger: "log_fine strftime r s 0 (conf_logger_code i)"
  unfolding conf_logger_code_def
proof (rule fine_getLogger)
  fix t p x
  assume t: "grown r s t" "log_heap t p \<noteq> None"
    and x: "x \<in> set ([logger_setLevel_code p (ld_level i)] @
       (if ld_formatter i \<noteq> [] then logger_setPattern_code p (ld_formatter i) else []) @
       [clearAppenders_code p] @ map (conf_appender_code p) (ld_appenders i))"
  note fine_setLevel [OF t(2)] fine_logger_setPattern [OF t(2)] fine_clearAppenders [OF t(2)] fine_conf_appender [OF t(2)]
  with x show "log_fine strftime r t 0 x" by (auto split: if_splits)
qed simp

lemma fine_drop_logger: "log_fine strftime r s 0 (drop_logger_code name)"
  unfolding drop_logger_code_def
  by (rule fine_getLogger) (use fine_setLevel fine_clearAppenders in auto)

lemma fine_listener: "\<forall>x \<in> set (listener_code ev old_value new_value). log_fine strftime r s 0 x"
proof -
  have "log_fine strftime r s 0 (Atom None (\<lambda>s. Inr ([], s, [statement_code (m_rootLogger s) INFO ev])))"
  proof (rule fine.atom)
    fix t
    assume t: "grown r s t"
    have "log_heap t r \<noteq> None" using grownD(1,2) [OF t] unfolding log_inv_def by auto
    from fine_statement [OF t this] grownD(2,6) [OF t]
    show "\<exists>acts s'' nx. Inr ([], t, [statement_code (m_rootLogger t) INFO ev]) = Inr (acts, s'', nx) \<and>
        grown r t s'' \<and> (\<forall>x \<in> set nx. log_fine strftime r s'' 0 x)" by simp
  qed simp
  with fine_conf_logger fine_drop_logger show ?thesis by (auto simp: listener_code_def)
qed

lemma fine_logger_toYamlString:
  assumes "log_heap s p \<noteq> None" and "k \<le> log_rank r (LoggerMutex p)"
  shows "log_fine strftime r s k (logger_toYamlString_code p)"
  unfolding logger_toYamlString_code_def
proof (rule fine_block, rule assms(2), rule fine_at_logger [OF assms(1)])
  let ?k = "Suc (log_rank r (LoggerMutex p))"
  fix t l
  assume t: "grown r s t" "log_heap t p = Some l" "logger_ok t l"
  have "log_fine strftime r t ?k (appender_toYamlString_code a)" if "a \<in> set (l_appenders l)" for a
    unfolding appender_toYamlString_code_def
    by (rule fine_at_appender [OF has_formatter_some])
       (use that t(3) grownD(6) in \<open>auto simp: logger_ok_def split: if_splits\<close>)
  with grownD(6) [OF t(1)] show "\<exists>acts u nx. Inr ([], t, map appender_toYamlString_code (l_appenders l)) = Inr (acts, u, nx) \<and>
      grown r t u \<and> (\<forall>x \<in> set nx. log_fine strftime r u ?k x)" by auto
qed simp

lemma manager_logger:
  assumes "log_inv t" and "(n, p) \<in> set (m_loggers t)"
  shows "log_heap t p \<noteq> None"
proof -
  have "distinct (map fst (m_loggers t))" using assms(1) map_sorted_distinct unfolding log_inv_def by blast
  with assms(2) have "map_of (m_loggers t) n = Some p" by (rule map_of_is_SomeI [rotated])
  with assms(1) show ?thesis unfolding log_inv_def by blast
qed

lemma fine_manager_toYamlString: "log_fine strftime r s 0 manager_toYamlString_code"
  unfolding manager_toYamlString_code_def
proof (rule fine_block, simp, rule fine.atom)
  fix t
  assume t: "grown r s t"
  from manager_logger [OF grownD(1) [OF t]] have "\<forall>x \<in> set (map (\<lambda>(name, p). logger_toYamlString_code p) (m_loggers t)). log_fine strftime r t 1 x"
    by (auto intro!: fine_logger_toYamlString)
  with grownD(6) [OF t] show "\<exists>acts s'' nx.
      Inr ([], t, map (\<lambda>(name, p). logger_toYamlString_code p) (m_loggers t)) = Inr (acts, s'', nx) \<and>
      grown r t s'' \<and> (\<forall>x \<in> set nx. log_fine strftime r s'' (Suc (log_rank r ManagerMutex)) x)" by auto
qed simp

lemma fine_op:
  assumes "grown r s s" and "op_valid s op"
  shows "\<forall>x \<in> set (op_code strftime op). log_fine strftime r s 0 x"
proof (cases op)
  case (AddAppender p a)
  with assms(2) show ?thesis by (auto intro!: fine_addAppender)
next
  case (AppenderGetFormatter a)
  with assms(2) show ?thesis by (auto intro!: fine_appender_getFormatter)
next
  case (LogTo p lv ev)
  with assms fine_log [OF assms(1), of p 0] show ?thesis by simp
next
  case (Statement p lv ev)
  with assms fine_statement [OF assms(1), of p 0] show ?thesis by simp
next
  case (SetPattern p val)
  with assms fine_logger_setPattern [of s p 0] show ?thesis by simp
next
  case (ConfChanged ev old_value new_value)
  with fine_listener show ?thesis by simp
next
  case NewStdout
  then show ?thesis by (auto intro!: fine_new_appender)
next
  case (NewFile filename)
  then show ?thesis by (auto intro!: fine_new_appender)
next
  case (GetLogger name)
  then show ?thesis by (auto intro!: fine_getLogger)
qed (use assms in \<open>simp_all add: fine_delAppender fine_clearAppenders fine_setLevel fine_logger_setFormatter
      fine_logger_getFormatter fine_logger_toYamlString fine_appender_setFormatter fine_appender_setLevel
      fine_manager_toYamlString\<close>)

end
