(* ===== verification/Log_Thread_Props.thy ===== *)
theory Log_Thread_Props
  imports Log_Lock_Order
begin

text \<open>
  Logging from many threads: they always come to rest, none of them meets a null pointer, and a call that
  is not interrupted does what the sequential model says.
\<close>

subsection \<open>All threads come to rest\<close>

interpretation log_pool: transition_inv
    "\<lambda>\<sigma> :: (logs, log_mutex, log_action, log_error, log_call) lock_pool. \<exists>s0 n. LoggerManager_ctor = Inr s0 \<and> r = m_rootLogger s0 \<and> \<sigma> = at_rest s0 n"
    "pool_step (Logger_log_code strftime) (callable strftime)"
    "lock_order.pool_ok (Logger_log_code strftime) (log_rank r) (grown r)" for strftime r
proof
  fix \<sigma> :: "(logs, log_mutex, log_action, log_error, log_call) lock_pool"
  assume "\<exists>s0 n. LoggerManager_ctor = Inr s0 \<and> r = m_rootLogger s0 \<and> \<sigma> = at_rest s0 n"
  then obtain n where "r = m_rootLogger fresh_logs" "\<sigma> = at_rest fresh_logs n"
    by (auto simp: LoggerManager_ctor_eq)
  with log_order.at_rest_ok [OF grown_self [OF fresh_logs_inv refl]]
  show "log_order.pool_ok strftime r \<sigma>" by simp
next
  fix \<sigma> \<sigma>' :: "(logs, log_mutex, log_action, log_error, log_call) lock_pool"
  assume ok: "log_order.pool_ok strftime r \<sigma>"
  assume "pool_step (Logger_log_code strftime) (callable strftime) \<sigma> \<sigma>'"
  then show "log_order.pool_ok strftime r \<sigma>'"
  proof cases
    case run
    with log_order.pool_run_ok ok show ?thesis by blast
  next
    case (call i q)
    have "grown r (lp_shared \<sigma>) (lp_shared \<sigma>)" using ok by (simp add: log_order.pool_ok_def)
    with call(4) have "\<forall>x \<in> set q. log_fine strftime r (lp_shared \<sigma>) 0 x"
      unfolding callable_def using fine_op by blast
    with log_order.pool_call_ok [OF ok call(2,3)] call(1) show ?thesis by simp
  qed
qed

subsection \<open>A call that is left alone\<close>

abbreviation log_computes :: "(string \<Rightarrow> u64 \<Rightarrow> string) \<Rightarrow> logs \<Rightarrow> log_code list \<Rightarrow> log_action list \<Rightarrow> logs \<Rightarrow> bool" where
  "log_computes strftime \<equiv> computes (Logger_log_code strftime)"

lemma computes_access:
  "f s = Inr (acts, s1, nx) \<Longrightarrow> log_computes strftime s1 nx acts' s2 \<Longrightarrow> log_computes strftime s [Atom l f] (acts @ acts') s2"
  using computes.atom [of f s acts s1 nx _ "[]"] by simp

lemma computes_at_appender:
  "app_heap s a = Some ap \<Longrightarrow> f s ap = Inr (acts, s1, nx) \<Longrightarrow> log_computes strftime s1 nx acts' s2 \<Longrightarrow>
     log_computes strftime s [Atom l (at_appender a f)] (acts @ acts') s2"
  by (rule computes_access) (simp add: at_appender_def)

lemma computes_look:
  "app_heap s a = Some ap \<Longrightarrow> log_computes strftime s (h s ap) acts s' \<Longrightarrow>
     log_computes strftime s [Atom l (at_appender a (\<lambda>s ap. Inr ([], s, h s ap)))] acts s'"
  using computes_access [of "at_appender a (\<lambda>s ap. Inr ([], s, h s ap))" s "[]"] by (simp add: at_appender_def)

lemma computes_look_logger:
  "log_heap s p = Some lg \<Longrightarrow> log_computes strftime (u s lg) (h s lg) acts s' \<Longrightarrow>
     log_computes strftime s [Atom l (at_logger p (\<lambda>s lg. Inr ([], u s lg, h s lg)))] acts s'"
  using computes_access [of "at_logger p (\<lambda>s lg. Inr ([], u s lg, h s lg))" s "[]"] by (simp add: at_logger_def)

lemma computes_quietly: "f s = Inr s' \<Longrightarrow> log_computes strftime s [Atom l (quietly f)] [] s'"
  using computes_access [of "quietly f" s "[]" s' "[]" strftime "[]" s'] by (simp add: quietly_def computes.none)

lemma computes_block: "log_computes strftime s b acts s' \<Longrightarrow> log_computes strftime s [Locked m b] acts s'"
  using computes.locked [OF _ computes.none] by fastforce

lemma computes_Cons:
  "log_computes strftime s [x] acts s1 \<Longrightarrow> log_computes strftime s1 q acts' s2 \<Longrightarrow>
     log_computes strftime s (x # q) (acts @ acts') s2"
  using computes_append [of _ s "[x]"] by simp

lemma computes_appender:
  assumes ap: "app_heap s a = Some ap" and l: "appender_log strftime ap lv ev = Inr (acts, ap')"
  shows "log_computes strftime s [appender_log_code strftime a lv ev] acts (put_appender s a ap')"
proof -
  have same: "put_appender s a ap = s" using ap by (simp add: put_appender_def fun_upd_idem)
  have "log_computes strftime s (case a_file ap of None \<Rightarrow> StdoutLogAppender_log_code strftime a lv ev
      | Some filename \<Rightarrow> FileLogAppender_log_code strftime filename a lv ev) acts (put_appender s a ap')"
  proof (cases "a_file ap")
    case None
    with ap l same show ?thesis
      using computes_at_appender [OF ap _ computes.none, where acts = acts and strftime = strftime]
      by (auto simp: StdoutLogAppender_log_code_def appender_log_def split: option.splits if_splits)
  next
    case (Some filename)
    let ?emit = "Atom (Some (AppenderMutex a)) (at_appender a (\<lambda>s ap.
        case a_formatter ap of
          None \<Rightarrow> Inl NullFormatter
        | Some f \<Rightarrow> Inr ([Emit (Some filename) (formatter_format strftime f lv ev)], s, [])))"
    have emit: "log_computes strftime t [?emit] [Emit (Some filename) (formatter_format strftime f lv ev)] t"
      if "app_heap t a = Some ap1" "a_formatter ap1 = Some f" for t ap1 f
      using computes_at_appender [OF that(1) _ computes.none] that(2) by fastforce
    show ?thesis
    proof (cases "a_level ap \<le> lv")
      case False
      with Some l same ap show ?thesis
        using computes_at_appender [OF ap _ computes.none, where acts = "[]" and strftime = strftime]
        by (simp add: FileLogAppender_log_code_def appender_log_def)
    next
      case True
      obtain f where f: "a_formatter ap = Some f"
        using True Some l by (cases "a_formatter ap") (auto simp: appender_log_def Let_def split: if_splits)
      let ?late = "a_lastTime ap + 3 \<le> e_time ev"
      let ?ap1 = "if ?late then ap\<lparr>a_lastTime := e_time ev\<rparr> else ap"
      let ?acts1 = "if ?late then [Reopen filename] else []"
      have r: "ap' = ?ap1" "acts = ?acts1 @ [Emit (Some filename) (formatter_format strftime f lv ev)]"
        using l Some True f by (auto simp: appender_log_def split: if_splits)
      let ?stamp = "Atom None (at_appender a (\<lambda>s ap. Inr ([], put_appender s a (ap\<lparr>a_lastTime := e_time ev\<rparr>), [])))"
      have stamp: "log_computes strftime s [?stamp] [] (put_appender s a (ap\<lparr>a_lastTime := e_time ev\<rparr>))"
        using computes_at_appender [OF ap _ computes.none] by fastforce
      have "log_computes strftime s [reopen_code filename a] [Reopen filename] s"
        using computes_access [OF _ computes.none] unfolding reopen_code_def by fastforce
      from computes_Cons [OF this stamp]
      have "log_computes strftime s (if ?late then [reopen_code filename a, ?stamp] else []) ?acts1 (put_appender s a ?ap1)"
        using same by (auto intro: computes.none)
      then have "log_computes strftime s [Atom None (at_appender a (\<lambda>s ap. Inr ([], s,
          if e_time ev \<ge> a_lastTime ap + 3 then [reopen_code filename a, ?stamp] else [])))] ?acts1 (put_appender s a ?ap1)"
        by (rule computes_look [OF ap])
      from computes_Cons [OF this emit [of _ ?ap1 f]] f
      have "log_computes strftime s [Atom None (at_appender a (\<lambda>s ap. Inr ([], s,
          if e_time ev \<ge> a_lastTime ap + 3 then [reopen_code filename a, ?stamp] else []))), ?emit] acts (put_appender s a ap')"
        by (simp add: r put_appender_def split: if_splits)
      with True show ?thesis
        unfolding FileLogAppender_log_code_def Some option.case by (intro computes_look [OF ap]) simp
    qed
  qed
  then show ?thesis unfolding appender_log_code_def by (rule computes_look [OF ap])
qed

lemma computes_appenders:
  "appenders_log strftime s as lv ev = Inr (acts, s') \<Longrightarrow>
     log_computes strftime s (map (\<lambda>a. appender_log_code strftime a lv ev) as) acts s'"
proof (induction as arbitrary: s acts)
  case Nil
  then show ?case by (auto intro: computes.none)
next
  case (Cons a as)
  then obtain ap acts1 ap' acts2 where 1: "app_heap s a = Some ap" "appender_log strftime ap lv ev = Inr (acts1, ap')"
    "appenders_log strftime (put_appender s a ap') as lv ev = Inr (acts2, s')" "acts = acts1 @ acts2"
    by (auto simp: put_appender_def split: option.splits sum.splits)
  from computes_Cons [OF computes_appender [OF 1(1,2)] Cons.IH [OF 1(3)]] 1(4) show ?case by simp
qed

lemma computes_log:
  "logger_log strftime n s p lv ev = Some (Inr (acts, s')) \<Longrightarrow> log_computes strftime s (Logger_log_code strftime (p, lv, ev)) acts s'"
proof (induction n arbitrary: p)
  case (Suc n)
  then obtain l where l: "log_heap s p = Some l" by (auto split: option.splits)
  have "log_computes strftime s
      (if lv \<ge> l_level l
       then if l_appenders l \<noteq> [] then map (\<lambda>a. appender_log_code strftime a lv ev) (l_appenders l)
            else case l_root l of Some r \<Rightarrow> [Call (r, lv, ev)] | None \<Rightarrow> []
       else []) acts s'"
  proof (cases "l_level l \<le> lv \<and> l_appenders l = []")
    case True
    with Suc.prems l Suc.IH computes.call [of "Logger_log_code strftime" s _ "[]"] show ?thesis
      by (cases "l_root l") (auto intro: computes.none)
  next
    case False
    with Suc.prems l show ?thesis by (auto intro: computes.none computes_appenders split: if_splits)
  qed
  then show ?case unfolding Logger_log_code.simps by (intro computes_block computes_look_logger [OF l])
qed simp

lemma computes_statement:
  assumes "log_statement strftime n s p lv ev = Some (Inr (acts, s'))"
  shows "log_computes strftime s [statement_code p lv ev] acts s'"
proof -
  obtain l where l: "log_heap s p = Some l" using assms by (auto simp: log_statement_def split: option.splits)
  have "log_computes strftime s (if l_level l \<le> lv then [Call (p, lv, ev)] else []) acts s'"
    using assms l computes_log computes.call [of "Logger_log_code strftime" s _ "[]"]
    by (auto simp: log_statement_def intro: computes.none split: if_splits)
  then show ?thesis unfolding statement_code_def by (rule computes_look_logger [OF l])
qed

lemma computes_set_formatters:
  "set_formatters s as val = Inr s' \<Longrightarrow> log_computes strftime s (map (\<lambda>a. appender_setFormatter_code a val) as) [] s'"
proof (induction as arbitrary: s)
  case Nil
  then show ?case by (auto intro: computes.none)
next
  case (Cons a as)
  then obtain s1 where s1: "appender_setFormatter s a val = Inr s1" "set_formatters s1 as val = Inr s'"
    by (auto split: sum.splits)
  from computes_Cons [OF computes_quietly Cons.IH [OF s1(2)], of "\<lambda>s. appender_setFormatter s a val"] s1(1)
  show ?case by (simp add: appender_setFormatter_code_def)
qed

lemma computes_setFormatter:
  assumes "logger_setFormatter s p val = Inr s'"
  shows "log_computes strftime s [logger_setFormatter_code p val] [] s'"
proof -
  obtain l where l: "log_heap s p = Some l"
    and r: "set_formatters (put_logger s p (l\<lparr>l_formatter := val\<rparr>)) (l_appenders l) val = Inr s'"
    using assms by (auto simp: logger_setFormatter_def split: option.splits)
  from computes_set_formatters [OF r] show ?thesis
    unfolding logger_setFormatter_code_def by (intro computes_block computes_look_logger [OF l])
qed

lemma computes_setPattern:
  assumes "logger_setPattern s p val = Inr s'"
  shows "log_computes strftime s (logger_setPattern_code p val) [] s'"
proof (cases "m_error (new_LogFormatter val)")
  case True
  with assms have res: "log_heap s p \<noteq> None" "s = s'" by (simp_all add: logger_setPattern_def split: if_splits)
  then obtain l where "log_heap s p = Some l" by blast
  with res(2) have "log_computes strftime s [Atom None (at_logger p (\<lambda>s l. Inr ([], s, [])))] [] s'"
    by (simp add: computes_look_logger computes.none)
  with True show ?thesis by (simp add: logger_setPattern_code_def)
next
  case False
  with assms show ?thesis
    by (auto simp: logger_setPattern_def logger_setPattern_code_def Let_def intro: computes_setFormatter)
qed

lemma computes_addAppender:
  assumes "addAppender s p a = Inr s'"
  shows "log_computes strftime s [addAppender_code p a] [] s'"
proof -
  obtain l ap where l: "log_heap s p = Some l" and ap: "app_heap s a = Some ap"
    using assms by (auto simp: addAppender_def split: option.splits)
  let ?push = "Atom None (at_logger p (\<lambda>s l. Inr ([], put_logger s p (l\<lparr>l_appenders := l_appenders l @ [a]\<rparr>), [])))"
  have push: "log_computes strftime t [?push] [] (put_logger t p (l\<lparr>l_appenders := l_appenders l @ [a]\<rparr>))"
    if "log_heap t p = Some l" for t
    by (rule computes_look_logger [OF that computes.none])
  let ?set = "Atom (Some (AppenderMutex a)) (\<lambda>s. case appender_setFormatter s a (l_formatter l) of
      Inl e \<Rightarrow> Inl e | Inr s' \<Rightarrow> Inr ([], s', [?push]))"
  have "log_computes strftime s (if a_formatter ap = None
      then [Atom None (at_logger p (\<lambda>s l. Inr ([], s, [Atom (Some (AppenderMutex a)) (\<lambda>s.
              case appender_setFormatter s a (l_formatter l) of
                Inl e \<Rightarrow> Inl e | Inr s' \<Rightarrow> Inr ([], s', [?push]))])))]
      else [?push]) [] s'"
  proof (cases "a_formatter ap = None")
    case False
    then have "s' = put_logger s p (l\<lparr>l_appenders := l_appenders l @ [a]\<rparr>)"
      using assms l ap by (auto simp: addAppender_def)
    with push [OF l] False show ?thesis by (simp only: if_False)
  next
    case True
    let ?s1 = "put_appender s a (ap\<lparr>a_formatter := l_formatter l\<rparr>)"
    have s1: "appender_setFormatter s a (l_formatter l) = Inr ?s1"
      using ap by (simp add: appender_setFormatter_def put_appender_def)
    have s': "s' = put_logger ?s1 p (l\<lparr>l_appenders := l_appenders l @ [a]\<rparr>)"
      using assms l ap True s1 by (simp add: addAppender_def)
    have "log_heap ?s1 p = Some l" using l by (simp add: put_appender_def)
    from computes_access [OF _ push [OF this], of "\<lambda>s. case appender_setFormatter s a (l_formatter l) of
        Inl e \<Rightarrow> Inl e | Inr s' \<Rightarrow> Inr ([], s', [?push])" s "[]"]
    have "log_computes strftime s [?set] [] s'" by (simp add: s1 s')
    with True show ?thesis by (simp add: computes_look_logger [OF l])
  qed
  then show ?thesis
    unfolding addAppender_code_def appender_getFormatter_code_def Let_def
    by (intro computes_block computes_look [OF ap]) simp
qed

text \<open>The listener, from its parts.\<close>

lemma log_thenD:
  assumes "log_then r f = Inr (acts, s')"
  obtains acts1 s1 acts2 where "r = Inr (acts1, s1)" "f s1 = Inr (acts2, s')" "acts = acts1 @ acts2"
  using assms by (cases r) (auto split: sum.splits)

lemma silentD: "silent r = Inr (acts, s') \<Longrightarrow> r = Inr s' \<and> acts = []"
  by (auto simp: silent_def split: sum.splits)

lemma computes_getLogger:
  assumes "getLogger s name = (p, s1)" and "log_computes strftime s1 (h p) acts s'"
  shows "log_computes strftime s [getLogger_code name h] acts s'"
  using computes_access [OF _ assms(2), of "\<lambda>s. let (p, s') = getLogger s name in Inr ([], s', h p)" s "[]"] assms(1)
  by (simp add: getLogger_code_def)

lemma computes_new_appender:
  assumes "alloc_appender s (fst made) = (q, s1)" and "log_computes strftime s1 (h q) acts s'"
  shows "log_computes strftime s [new_appender_code made h] (snd made @ acts) s'"
  using computes_access [OF _ assms(2), of "\<lambda>s. let (q, s') = alloc_appender s (fst made) in Inr (snd made, s', h q)" s "snd made"]
    assms(1) by (simp add: new_appender_code_def)

lemma computes_conf_appenders:
  "conf_appenders s p as = Inr (acts, s') \<Longrightarrow> log_computes strftime s (map (conf_appender_code p) as) acts s'"
proof (induction as arbitrary: s acts)
  case Nil
  then show ?case by (auto intro: computes.none)
next
  case (Cons a as)
  then have "log_then (conf_appender s p a) (\<lambda>s1. conf_appenders s1 p as) = Inr (acts, s')" by simp
  then obtain acts1 s1 acts2 where 1: "conf_appender s p a = Inr (acts1, s1)" "conf_appenders s1 p as = Inr (acts2, s')"
    "acts = acts1 @ acts2" by (rule log_thenD)
  obtain ap acts0 where m: "make_appender a = (ap, acts0)" by fastforce
  obtain q s2 where q: "alloc_appender s ap = (q, s2)" by fastforce
  from 1(1) m q have add: "addAppender s2 p q = Inr s1" "acts1 = acts0"
    by (auto simp: conf_appender_def split: sum.splits)
  have "log_computes strftime s [conf_appender_code p a] (snd (make_appender a) @ []) s1"
    unfolding conf_appender_code_def
    by (rule computes_new_appender [of s "make_appender a" q s2]) (simp_all add: m q computes_addAppender [OF add(1)])
  then have "log_computes strftime s [conf_appender_code p a] acts1 s1" by (simp add: m add(2))
  from computes_Cons [OF this Cons.IH [OF 1(2)]] 1(3) show ?case by simp
qed

lemma computes_setLevel: "logger_setLevel s p lv = Inr s' \<Longrightarrow> log_computes strftime s [logger_setLevel_code p lv] [] s'"
  unfolding logger_setLevel_code_def by (rule computes_quietly)

lemma computes_clear: "clearAppenders s p = Inr s' \<Longrightarrow> log_computes strftime s [clearAppenders_code p] [] s'"
  unfolding clearAppenders_code_def by (rule computes_quietly)

text \<open>A logger is configured in two parts: up to \<open>clearAppenders\<close>, and the new appenders.\<close>

lemma conf_logger_parts:
  assumes "conf_logger s i = Inr (acts, s')"
  obtains p s1 s4 where "getLogger s (ld_name i) = (p, s1)"
    "log_computes strftime s1 ([logger_setLevel_code p (ld_level i)] @
       (if ld_formatter i \<noteq> [] then logger_setPattern_code p (ld_formatter i) else []) @ [clearAppenders_code p]) [] s4"
    "conf_appenders s4 p (ld_appenders i) = Inr (acts, s')"
proof -
  obtain p s1 where g: "getLogger s (ld_name i) = (p, s1)" by fastforce
  with assms have "log_then (silent (logger_setLevel s1 p (ld_level i))) (\<lambda>s2.
         log_then (silent (if ld_formatter i \<noteq> [] then logger_setPattern s2 p (ld_formatter i) else Inr s2)) (\<lambda>s3.
         log_then (silent (clearAppenders s3 p)) (\<lambda>s4.
           conf_appenders s4 p (ld_appenders i)))) = Inr (acts, s')"
    by (simp add: conf_logger_def)
  then obtain s2 s3 s4 where s: "logger_setLevel s1 p (ld_level i) = Inr s2"
    "(if ld_formatter i \<noteq> [] then logger_setPattern s2 p (ld_formatter i) else Inr s2) = Inr s3"
    "clearAppenders s3 p = Inr s4" "conf_appenders s4 p (ld_appenders i) = Inr (acts, s')"
    by (elim log_thenD) (auto dest!: silentD)
  have "log_computes strftime s2 (if ld_formatter i \<noteq> [] then logger_setPattern_code p (ld_formatter i) else []) [] s3"
    using s(2) computes_setPattern by (auto intro: computes.none split: if_splits)
  from computes_append [OF this computes_clear [OF s(3)]] computes_setLevel [OF s(1)]
  have "log_computes strftime s1 ([logger_setLevel_code p (ld_level i)] @
       (if ld_formatter i \<noteq> [] then logger_setPattern_code p (ld_formatter i) else []) @ [clearAppenders_code p]) [] s4"
    using computes_append by fastforce
  with g show thesis using s(4) by (rule that)
qed

lemma computes_conf_logger:
  assumes "conf_logger s i = Inr (acts, s')"
  shows "log_computes strftime s [conf_logger_code i] acts s'"
proof -
  obtain p s1 s4 where g: "getLogger s (ld_name i) = (p, s1)"
    and clear: "log_computes strftime s1 ([logger_setLevel_code p (ld_level i)] @
       (if ld_formatter i \<noteq> [] then logger_setPattern_code p (ld_formatter i) else []) @ [clearAppenders_code p]) [] s4"
    and apps: "conf_appenders s4 p (ld_appenders i) = Inr (acts, s')"
    using assms by (rule conf_logger_parts)
  from computes_append [OF clear computes_conf_appenders [OF apps]] show ?thesis
    unfolding conf_logger_code_def by (intro computes_getLogger [OF g]) simp
qed

lemma computes_conf_new:
  "conf_new old_value s is = Inr (acts, s') \<Longrightarrow> log_computes strftime s (map conf_logger_code (filter (changed old_value) is)) acts s'"
proof (induction "is" arbitrary: s acts)
  case Nil
  then show ?case by (auto intro: computes.none)
next
  case (Cons i "is")
  show ?case
  proof (cases "changed old_value i")
    case True
    with Cons.prems have "log_then (conf_logger s i) (\<lambda>s1. conf_new old_value s1 is) = Inr (acts, s')" by simp
    then obtain acts1 s1 acts2 where 1: "conf_logger s i = Inr (acts1, s1)" "conf_new old_value s1 is = Inr (acts2, s')"
      "acts = acts1 @ acts2" by (rule log_thenD)
    from computes_Cons [OF computes_conf_logger [OF 1(1)] Cons.IH [OF 1(2)]] 1(3) True show ?thesis by simp
  qed (use Cons in simp)
qed

lemma computes_drop:
  assumes "drop_logger s name = Inr (acts, s')"
  shows "log_computes strftime s [drop_logger_code name] acts s'"
proof -
  obtain p s1 where g: "getLogger s name = (p, s1)" by fastforce
  with assms have "log_then (silent (logger_setLevel s1 p UNKNOW)) (\<lambda>s2. silent (clearAppenders s2 p)) = Inr (acts, s')"
    by (simp add: drop_logger_def)
  then obtain s2 where s: "logger_setLevel s1 p UNKNOW = Inr s2" "clearAppenders s2 p = Inr s'" "acts = []"
    by (elim log_thenD) (auto dest!: silentD)
  from computes_Cons [OF computes_setLevel [OF s(1)] computes_clear [OF s(2)]] s(3) show ?thesis
    unfolding drop_logger_code_def by (intro computes_getLogger [OF g]) simp
qed

lemma computes_conf_removed:
  "conf_removed new_value s is = Inr (acts, s') \<Longrightarrow>
     log_computes strftime s (map (\<lambda>i. drop_logger_code (ld_name i)) (filter (\<lambda>i. set_find define_lt i new_value = None) is)) acts s'"
proof (induction "is" arbitrary: s acts)
  case Nil
  then show ?case by (auto intro: computes.none)
next
  case (Cons i "is")
  show ?case
  proof (cases "set_find define_lt i new_value = None")
    case True
    with Cons.prems have "log_then (drop_logger s (ld_name i)) (\<lambda>s1. conf_removed new_value s1 is) = Inr (acts, s')" by simp
    then obtain acts1 s1 acts2 where 1: "drop_logger s (ld_name i) = Inr (acts1, s1)"
      "conf_removed new_value s1 is = Inr (acts2, s')" "acts = acts1 @ acts2" by (rule log_thenD)
    from computes_Cons [OF computes_drop [OF 1(1)] Cons.IH [OF 1(2)]] 1(3) True show ?thesis by simp
  qed (use Cons in auto)
qed

lemma computes_listener:
  assumes "on_logger_conf_changed strftime ev old_value new_value s = Some (Inr (acts, s'))"
  shows "log_computes strftime s (listener_code ev old_value new_value) acts s'"
proof -
  obtain r where r: "log_statement strftime 2 s (m_rootLogger s) INFO ev = Some r"
    "log_then r (\<lambda>s1. log_then (conf_new old_value s1 new_value) (\<lambda>s2. conf_removed new_value s2 old_value)) = Inr (acts, s')"
    using assms by (auto simp: on_logger_conf_changed_def split: option.splits)
  from r(2) obtain acts1 s1 acts23 where 1: "r = Inr (acts1, s1)" "acts = acts1 @ acts23"
    "log_then (conf_new old_value s1 new_value) (\<lambda>s2. conf_removed new_value s2 old_value) = Inr (acts23, s')"
    by (rule log_thenD) blast
  from 1(3) obtain acts2 s2 acts3 where 2: "conf_new old_value s1 new_value = Inr (acts2, s2)"
    "conf_removed new_value s2 old_value = Inr (acts3, s')" "acts23 = acts2 @ acts3" by (rule log_thenD)
  from computes_statement [of strftime 2] r(1) 1(1)
  have "log_computes strftime s [statement_code (m_rootLogger s) INFO ev] acts1 s1" by simp
  from computes_access [OF _ this, of "\<lambda>s. Inr ([], s, [statement_code (m_rootLogger s) INFO ev])" s "[]"]
  have "log_computes strftime s [Atom None (\<lambda>s. Inr ([], s, [statement_code (m_rootLogger s) INFO ev]))] acts1 s1" by simp
  from computes_append [OF this computes_append [OF computes_conf_new [OF 2(1)] computes_conf_removed [OF 2(2)]]] 1(2) 2(3)
  show ?thesis by (simp add: listener_code_def)
qed

text \<open>Reading the strings changes nothing.\<close>

lemma computes_reads: "(\<And>x. x \<in> set q \<Longrightarrow> log_computes strftime s [x] [] s) \<Longrightarrow> log_computes strftime s q [] s"
proof (induction q)
  case Nil
  show ?case by (rule computes.none)
next
  case (Cons x q)
  then have "log_computes strftime s [x] [] s" "log_computes strftime s q [] s" by simp_all
  from computes_Cons [OF this] show ?case by simp
qed

lemma computes_logger_toYamlString:
  assumes "log_inv s" and "log_heap s p \<noteq> None"
  shows "log_computes strftime s [logger_toYamlString_code p] [] s"
proof -
  obtain l where l: "log_heap s p = Some l" using assms(2) by blast
  have "log_computes strftime s [appender_toYamlString_code a] [] s" if a: "a \<in> set (l_appenders l)" for a
  proof -
    have "app_heap s a \<noteq> None" using log_inv_logger [OF assms(1) l] has_formatter_some a by (simp add: logger_ok_def)
    then obtain ap where "app_heap s a = Some ap" by blast
    from computes_look [OF this computes.none] show ?thesis unfolding appender_toYamlString_code_def .
  qed
  then have "log_computes strftime s (map appender_toYamlString_code (l_appenders l)) [] s"
    by - (rule computes_reads, auto)
  then show ?thesis unfolding logger_toYamlString_code_def by (intro computes_block computes_look_logger [OF l])
qed

lemma computes_manager_toYamlString:
  assumes "log_inv s"
  shows "log_computes strftime s [manager_toYamlString_code] [] s"
proof -
  have "log_computes strftime s [logger_toYamlString_code p] [] s" if "(n, p) \<in> set (m_loggers s)" for n p
    by (rule computes_logger_toYamlString [OF assms manager_logger [OF assms that]])
  then have "log_computes strftime s (map (\<lambda>(name, p). logger_toYamlString_code p) (m_loggers s)) [] s"
    by - (rule computes_reads, auto)
  from computes_access [OF _ this, of "\<lambda>s. Inr ([], s, map (\<lambda>(name, p). logger_toYamlString_code p) (m_loggers s))" s "[]"]
  show ?thesis unfolding manager_toYamlString_code_def by (intro computes_block) simp
qed

text \<open>Every operation, when it is not interrupted, does what the sequential model says.\<close>

lemma op_computes:
  assumes "op_valid s op" and "log_inv s" and "op_result strftime op s = Some (Inr (acts, s'))"
  shows "log_computes strftime s (op_code strftime op) acts s'"
proof (cases op)
  case (Statement p lv ev)
  with assms(3) computes_statement show ?thesis by simp
next
  case (LogTo p lv ev)
  with assms(3) computes_log show ?thesis by simp
next
  case (AddAppender p a)
  with assms(3) computes_addAppender show ?thesis by (auto dest: silentD)
next
  case (DelAppender p a)
  with assms(3) show ?thesis by (auto simp: delAppender_code_def dest!: silentD intro: computes_quietly)
next
  case (ClearAppenders p)
  with assms(3) computes_clear show ?thesis by (auto dest: silentD)
next
  case (SetLevel p lv)
  with assms(3) computes_setLevel show ?thesis by (auto dest: silentD)
next
  case (SetFormatter p f)
  with assms(3) computes_setFormatter show ?thesis by (auto dest: silentD)
next
  case (SetPattern p val)
  with assms(3) computes_setPattern show ?thesis by (auto dest: silentD)
next
  case (GetFormatter p)
  with assms(1,3) show ?thesis
    by (auto simp: logger_getFormatter_code_def intro!: computes_look_logger computes.none)
next
  case (ToYamlString p)
  with assms computes_logger_toYamlString show ?thesis by auto
next
  case (AppenderSetFormatter a f)
  with assms(3) show ?thesis by (auto simp: appender_setFormatter_code_def dest!: silentD intro: computes_quietly)
next
  case (AppenderSetLevel a lv)
  with assms(3) show ?thesis by (auto dest!: silentD intro: computes_quietly)
next
  case (AppenderGetFormatter a)
  with assms(1,3) show ?thesis
    by (auto simp: appender_getFormatter_code_def intro!: computes_look computes.none)
next
  case NewStdout
  with assms(3) show ?thesis
    using computes_new_appender [of s "(new_StdoutLogAppender, [])" _ _ strftime "\<lambda>q. []" "[]", OF _ computes.none]
    by (auto simp: alloc_appender_def)
next
  case (NewFile filename)
  with assms(3) show ?thesis
    using computes_new_appender [of s "new_FileLogAppender filename" _ _ strftime "\<lambda>q. []" "[]", OF _ computes.none]
    by (auto simp: alloc_appender_def new_FileLogAppender_def)
next
  case (GetLogger name)
  with assms(3) show ?thesis
    using computes_getLogger [of s name _ _ strftime "\<lambda>p. []" "[]", OF _ computes.none]
    by (auto simp: prod_eq_iff)
next
  case AllToYamlString
  with assms(2,3) computes_manager_toYamlString show ?thesis by auto
next
  case (ConfChanged ev old_value new_value)
  with assms(3) computes_listener show ?thesis by simp
qed

subsection \<open>The properties\<close>

lemma reached_pool:
  assumes "LoggerManager_ctor = Inr s0" and "(pool_step (Logger_log_code strftime) (callable strftime))\<^sup>*\<^sup>* (at_rest s0 n) \<sigma>"
  shows "log_order.pool_ok strftime (m_rootLogger s0) \<sigma>"
  by (rule log_pool.reachable_inv [OF _ assms(2)]) (use assms(1) in blast)

lemma pool_ok_inv: "log_order.pool_ok strftime r \<sigma> \<Longrightarrow> log_inv (lp_shared \<sigma>) \<and> m_rootLogger (lp_shared \<sigma>) = r"
  unfolding log_order.pool_ok_def using grownD(1,2) by blast

lemma idle_stack: "resting \<sigma> \<Longrightarrow> i < length (lp_stacks \<sigma>) \<Longrightarrow> lp_stacks \<sigma> ! i = []"
  by (simp add: resting_def)

lemma op_alone:
  assumes ok: "log_order.pool_ok strftime r \<sigma>" and free: "\<forall>m. lp_owner \<sigma> m = None"
    and i: "i < length (lp_stacks \<sigma>)" "lp_stacks \<sigma> ! i = []" and valid: "op_valid (lp_shared \<sigma>) op"
    and res: "op_result strftime op (lp_shared \<sigma>) = Some (Inr (acts, s'))"
  shows "(pool_run (Logger_log_code strftime))\<^sup>*\<^sup>* (\<sigma>\<lparr>lp_stacks := (lp_stacks \<sigma>)[i := [(None, op_code strftime op)]]\<rparr>)
      (\<sigma>\<lparr>lp_shared := s', lp_out := lp_out \<sigma> @ map (Pair i) acts\<rparr>) \<and>
    log_order.pool_ok strftime r (\<sigma>\<lparr>lp_shared := s', lp_out := lp_out \<sigma> @ map (Pair i) acts\<rparr>)"
proof -
  have grown: "grown r (lp_shared \<sigma>) (lp_shared \<sigma>)" using ok by (simp add: log_order.pool_ok_def)
  note fine = fine_op [OF grown valid]
  from log_order.call_alone [OF ok i free fine op_computes [OF valid grownD(1) [OF grown] res]]
  show ?thesis using log_order.pool_runs_ok [OF _ log_order.pool_call_ok [OF ok i fine]] by blast
qed

text \<open>
  C4. Threads that log never block each other for good. Let any number of threads call the methods of
  loggers, appenders and the manager, log statements and the listener of the configuration, with their
  steps interleaved at every mutex and every access outside one. In every state that can be reached no
  thread is about to call through a null formatter, logger or appender; no mutex is held by two
  threads; and all threads can end their calls and give back all mutexes, whatever they are
  waiting for: there is no deadlock, although a logger keeps its mutex while it calls its appenders and the
  root logger. A call that is not interrupted ends, and does to the loggers and to the output what the
  sequential model of the same method says.
\<close>

theorem log_threads_finish:
  assumes "LoggerManager_ctor = Inr s0"
    and "(pool_step (Logger_log_code strftime) (callable strftime))\<^sup>*\<^sup>* (at_rest s0 n) \<sigma>"
  shows "(\<forall>i < length (lp_stacks \<sigma>). \<forall>e.
      stack_step (Logger_log_code strftime) i (lp_shared \<sigma>) (lp_owner \<sigma>) (lp_stacks \<sigma> ! i) \<noteq> Inl e) \<and>
    (\<forall>m i j. i < length (lp_stacks \<sigma>) \<and> j < length (lp_stacks \<sigma>) \<and> holds_mutex (lp_stacks \<sigma> ! i) m \<and>
      holds_mutex (lp_stacks \<sigma> ! j) m \<longrightarrow> i = j) \<and>
    (\<exists>\<sigma>'. (pool_run (Logger_log_code strftime))\<^sup>*\<^sup>* \<sigma> \<sigma>' \<and> resting \<sigma>') \<and>
    (\<forall>i op acts s'. resting \<sigma> \<and> i < length (lp_stacks \<sigma>) \<and> op_valid (lp_shared \<sigma>) op \<and>
      op_result strftime op (lp_shared \<sigma>) = Some (Inr (acts, s')) \<longrightarrow>
      (pool_run (Logger_log_code strftime))\<^sup>*\<^sup>* (\<sigma>\<lparr>lp_stacks := (lp_stacks \<sigma>)[i := [(None, op_code strftime op)]]\<rparr>)
        (\<sigma>\<lparr>lp_shared := s', lp_out := lp_out \<sigma> @ map (Pair i) acts\<rparr>))"
  (is "?safe \<and> ?exclusive \<and> ?rest \<and> ?alone")
proof (intro conjI)
  note ok = reached_pool [OF assms]
  show ?safe using log_order.pool_ok_safe [OF ok] by blast
  show ?exclusive using log_order.one_holder [OF ok] by blast
  show ?rest by (rule log_order.all_come_to_rest [OF ok])
  show ?alone
  proof (intro allI impI, elim conjE)
    fix i op acts s'
    assume h: "resting \<sigma>" "i < length (lp_stacks \<sigma>)" "op_valid (lp_shared \<sigma>) op"
      "op_result strftime op (lp_shared \<sigma>) = Some (Inr (acts, s'))"
    then have "\<forall>m. lp_owner \<sigma> m = None" by (simp add: resting_def)
    from op_alone [OF ok this h(2) idle_stack [OF h(1,2)] h(3,4)]
    show "(pool_run (Logger_log_code strftime))\<^sup>*\<^sup>* (\<sigma>\<lparr>lp_stacks := (lp_stacks \<sigma>)[i := [(None, op_code strftime op)]]\<rparr>)
        (\<sigma>\<lparr>lp_shared := s', lp_out := lp_out \<sigma> @ map (Pair i) acts\<rparr>)" by (rule conjunct1)
  qed
qed

subsection \<open>Examples\<close>

lemma call_done:
  assumes "log_order.pool_ok strftime r \<sigma>" and "resting \<sigma>" and i: "i < length (lp_stacks \<sigma>)"
    and op: "op_valid (lp_shared \<sigma>) op" "op_result strftime op (lp_shared \<sigma>) = Some (Inr (acts, s'))"
  shows "(pool_step (Logger_log_code strftime) (callable strftime))\<^sup>*\<^sup>* \<sigma>
    (\<sigma>\<lparr>lp_shared := s', lp_out := lp_out \<sigma> @ map (Pair i) acts\<rparr>)"
proof -
  let ?t = "\<sigma>\<lparr>lp_stacks := (lp_stacks \<sigma>)[i := [(None, op_code strftime op)]]\<rparr>"
  have free: "\<forall>m. lp_owner \<sigma> m = None" using assms(2) by (simp add: resting_def)
  have first: "pool_step (Logger_log_code strftime) (callable strftime) \<sigma> ?t"
    by (rule pool_step.call [OF i idle_stack [OF assms(2) i]]) (use op(1) in \<open>auto simp: callable_def\<close>)
  from op_alone [OF assms(1) free i idle_stack [OF assms(2) i] op] have
    "(pool_run (Logger_log_code strftime))\<^sup>*\<^sup>* ?t (\<sigma>\<lparr>lp_shared := s', lp_out := lp_out \<sigma> @ map (Pair i) acts\<rparr>)" by blast
  then have "(pool_step (Logger_log_code strftime) (callable strftime))\<^sup>*\<^sup>* ?t
      (\<sigma>\<lparr>lp_shared := s', lp_out := lp_out \<sigma> @ map (Pair i) acts\<rparr>)"
    by (rule rtranclp_mono [THEN predicate2D, rotated]) (auto intro: pool_step.run)
  with first show ?thesis by (rule converse_rtranclp_into_rtranclp)
qed

text \<open>Two threads enter the root logger at once; the second one waits and both end.\<close>

theorem log_threads_finish_witness:
  "\<exists>\<sigma> \<sigma>'. (pool_step (Logger_log_code (\<lambda>f t. [])) (callable (\<lambda>f t. [])))\<^sup>*\<^sup>* (at_rest fresh_logs 2) \<sigma> \<and>
     holds_mutex (lp_stacks \<sigma> ! 0) (LoggerMutex 0) \<and> lp_stacks \<sigma> ! 1 \<noteq> [] \<and>
     (pool_run (Logger_log_code (\<lambda>f t. [])))\<^sup>*\<^sup>* \<sigma> \<sigma>' \<and> resting \<sigma>'"
proof -
  let ?c = "op_code (\<lambda>f t. []) (LogTo 0 INFO sample_event)"
  let ?step = "pool_step (Logger_log_code (\<lambda>f t. [])) (callable (\<lambda>f t. []))"
  have valid: "callable (\<lambda>f t. []) fresh_logs ?c"
    unfolding callable_def by (rule exI [of _ "LogTo 0 INFO sample_event"]) (simp add: fresh_logs_def Let_def)
  have "\<exists>b. ?c = [Locked (LoggerMutex 0) b]"
    unfolding op_code.simps Logger_log_code.simps by (rule exI, rule refl)
  with valid obtain c b where ok: "callable (\<lambda>f t. []) fresh_logs c" and c: "c = [Locked (LoggerMutex 0) b]" by metis
  let ?s1 = "(at_rest fresh_logs 2)\<lparr>lp_stacks := [[(None, c)], []]\<rparr>"
  let ?s2 = "(at_rest fresh_logs 2)\<lparr>lp_stacks := [[(None, c)], [(None, c)]]\<rparr>"
  let ?s3 = "pool_after ?s2 0 ([], fresh_logs, (\<lambda>m. None)(LoggerMutex 0 \<mapsto> 0), [(Some (LoggerMutex 0), b), (None, [])])"
  have 1: "?step (at_rest fresh_logs 2) ?s1"
    using pool_step.call [of 0 "at_rest fresh_logs 2" "callable (\<lambda>f t. [])" c] ok by (simp add: at_rest_def numeral_2_eq_2)
  have 2: "?step ?s1 ?s2"
    using pool_step.call [of 1 ?s1 "callable (\<lambda>f t. [])" c] ok by (simp add: at_rest_def)
  have 3: "?step ?s2 ?s3"
    by (rule pool_step.run, rule pool_run.advance) (simp_all add: at_rest_def c)
  from rtranclp.rtrancl_into_rtrancl [OF rtranclp.rtrancl_into_rtrancl [OF r_into_rtranclp [of ?step, OF 1] 2] 3]
  have run: "?step\<^sup>*\<^sup>* (at_rest fresh_logs 2) ?s3" .
  from log_threads_finish [OF LoggerManager_ctor_eq run] obtain \<sigma>'
    where "(pool_run (Logger_log_code (\<lambda>f t. [])))\<^sup>*\<^sup>* ?s3 \<sigma>' \<and> resting \<sigma>'" by blast
  with run show ?thesis by (intro exI [of _ ?s3] exI [of _ \<sigma>'] conjI) simp_all
qed

end
