(* ===== verification/Log_Reload.thy ===== *)
theory Log_Reload
  imports Log_Thread_Props
begin

text \<open>What a thread can see of a reconfiguration that is under way.\<close>

subsection \<open>A reconfiguration under way\<close>

lemma statement_spec:
  assumes inv: "log_inv s" and l: "log_heap s p = Some l"
  shows "\<exists>acts s'. log_statement strftime 2 s p lv ev = Some (Inr (acts, s')) \<and> core s' = core s \<and>
    emitted acts = delivered strftime s l lv ev"
proof (cases "l_level l \<le> lv")
  case True
  with logger_log_spec [OF inv l, of strftime lv ev] l show ?thesis by (simp add: log_statement_def)
next
  case False
  then have "lv < l_level l" by simp
  with False l show ?thesis by (simp add: log_statement_def delivered_def)
qed

text \<open>The part of the listener up to \<open>clearAppenders\<close>, for a logger that exists.\<close>

definition cleared :: "logs \<Rightarrow> ptr \<Rightarrow> logger \<Rightarrow> level \<Rightarrow> logs" where
  "cleared s p l lv = put_logger s p (l\<lparr>l_level := lv, l_appenders := []\<rparr>)"

lemma computes_cleared:
  assumes "log_heap s p = Some l"
  shows "log_computes strftime s [logger_setLevel_code p lv, clearAppenders_code p] [] (cleared s p l lv)"
proof -
  let ?s1 = "put_logger s p (l\<lparr>l_level := lv\<rparr>)"
  have "logger_setLevel s p lv = Inr ?s1" using assms by (simp add: logger_setLevel_def)
  moreover have "clearAppenders ?s1 p = Inr (cleared s p l lv)"
    by (simp add: clearAppenders_def cleared_def put_logger_def)
  ultimately show ?thesis
    using computes_Cons [OF computes_setLevel computes_clear] by fastforce
qed

lemma core_eqD: "core s = core t \<Longrightarrow> log_heap s = log_heap t \<and> m_loggers s = m_loggers t \<and> m_rootLogger s = m_rootLogger t"
  by (metis core_sel(1,2,3))

lemma delivery_cleared: "delivery strftime (cleared s p l lv0) as lv ev = delivery strftime s as lv ev"
  by (simp add: delivery_def admits_def [abs_def] line_of_def [abs_def] cleared_def put_logger_def)

lemma cleared_inv:
  assumes "log_inv s" and "log_heap s p = Some l"
  shows "log_inv (cleared s p l lv)"
  unfolding cleared_def
  by (rule log_inv_put [OF assms]) (use log_inv_logger [OF assms] in \<open>simp_all add: logger_ok_def\<close>)

lemma statement_in_gap:
  assumes inv: "log_inv s" and l: "log_heap s p = Some l" "l_root l = Some r" "p \<noteq> r"
    and root: "log_heap s r = Some rt" "l_level rt \<le> lv" and lv: "lv0 \<le> lv"
  shows "\<exists>acts s'. log_statement strftime 2 (cleared s p l lv0) p lv ev = Some (Inr (acts, s')) \<and>
    core s' = core (cleared s p l lv0) \<and> emitted acts = delivery strftime s (l_appenders rt) lv ev"
proof -
  let ?l = "l\<lparr>l_level := lv0, l_appenders := []\<rparr>"
  have l': "log_heap (cleared s p l lv0) p = Some ?l" by (simp add: cleared_def put_logger_def)
  have root': "log_heap (cleared s p l lv0) r = Some rt" using l(3) root(1) by (simp add: cleared_def put_logger_def)
  have "delivered strftime (cleared s p l lv0) ?l lv ev = delivery strftime s (l_appenders rt) lv ev"
    using root(2) lv l(2) root' by (simp add: delivered_def not_less [symmetric] delivery_cleared)
  with statement_spec [OF cleared_inv [OF inv l(1)] l', of strftime lv ev] show ?thesis by simp
qed

lemma listener_one:
  assumes "d0 \<noteq> d" and "ld_name d0 = ld_name d"
  shows "listener_code ev [d0] [d] =
    [Atom None (\<lambda>s. Inr ([], s, [statement_code (m_rootLogger s) INFO ev])), conf_logger_code d]"
  using assms changed_iff [of "[d0]" d] find_define [of "[d]" d0] by (simp add: listener_code_def)

text \<open>The listener, stopped before it creates the new appenders.\<close>

lemma listener_gap:
  assumes ok: "log_order.pool_ok strftime r \<sigma>" and rest: "resting \<sigma>" and i: "i < length (lp_stacks \<sigma>)"
    and named: "map_of (m_loggers (lp_shared \<sigma>)) (ld_name d) = Some p" "log_heap (lp_shared \<sigma>) p = Some l"
    and d: "d0 \<noteq> d" "ld_name d0 = ld_name d" "ld_formatter d = []"
  shows "\<exists>acts s. core s = core (lp_shared \<sigma>) \<and>
    (pool_run (Logger_log_code strftime))\<^sup>*\<^sup>*
      (\<sigma>\<lparr>lp_stacks := (lp_stacks \<sigma>)[i := [(None, listener_code ev [d0] [d])]]\<rparr>)
      (\<sigma>\<lparr>lp_shared := cleared s p l (ld_level d), lp_out := lp_out \<sigma> @ map (Pair i) acts,
         lp_stacks := (lp_stacks \<sigma>)[i := [(None, map (conf_appender_code p) (ld_appenders d))]]\<rparr>)"
proof -
  let ?s = "lp_shared \<sigma>" and ?run = "pool_run (Logger_log_code strftime)" and ?ow = "lp_owner \<sigma>"
  let ?first = "Atom None (\<lambda>s. Inr ([], s, [statement_code (m_rootLogger s) INFO ev])) :: log_code"
  let ?mid = "[logger_setLevel_code p (ld_level d), clearAppenders_code p]"
  let ?apps = "map (conf_appender_code p) (ld_appenders d)"
  have inv: "log_inv ?s" "m_rootLogger ?s = r" using pool_ok_inv [OF ok] by simp_all
  have free: "\<forall>m. ?ow m = None" using rest by (simp add: resting_def)
  obtain rt where rt: "log_heap ?s r = Some rt" using inv unfolding log_inv_def by blast
  obtain acts s where st: "log_statement strftime 2 ?s r INFO ev = Some (Inr (acts, s))" "core s = core ?s"
    using statement_spec [OF inv(1) rt] by blast
  from computes_access [OF _ computes_statement [OF st(1)], of "\<lambda>s. Inr ([], s, [statement_code (m_rootLogger s) INFO ev])" ?s "[]"]
  have c1: "log_computes strftime ?s [?first] acts s" by (simp add: inv(2))
  have heap: "log_heap s = log_heap ?s" "m_loggers s = m_loggers ?s" "m_rootLogger s = r"
    using core_eqD [OF st(2)] inv(2) by simp_all
  have grown: "grown r ?s ?s" by (rule grown_self [OF inv])
  have fine: "\<forall>x \<in> set [?first, conf_logger_code d]. log_fine strftime r ?s 0 x"
    using fine_listener [of ev "[d0]" "[d]"] listener_one [OF d(1,2)] by simp
  have grown_s: "grown r s s"
    using log_order.le_self [OF log_order.computes_le [OF c1 _ grown, of 0]] fine by simp
  obtain \<sigma>1 where 1: "\<sigma>1 = \<sigma>\<lparr>lp_stacks := (lp_stacks \<sigma>)[i := [(None, [?first, conf_logger_code d])]]\<rparr>" by blast
  obtain \<sigma>2 where 2: "\<sigma>2 = pool_after \<sigma>1 i (acts, s, ?ow, [(None, [conf_logger_code d])])" by blast
  have fine1: "\<forall>x \<in> set [?first]. log_fine strftime r ?s 0 x" using fine by simp
  have "?run\<^sup>*\<^sup>* \<sigma>1 (pool_after \<sigma>1 i (acts, s, lp_owner \<sigma>1, [(None, [conf_logger_code d])]))"
    by (rule log_order.computes_runs [OF c1 _ _ _ fine1 grown]) (use i free in \<open>simp_all add: 1\<close>)
  then have r2: "?run\<^sup>*\<^sup>* \<sigma>1 \<sigma>2" by (simp add: 1 2)
  obtain \<sigma>3 where 3: "\<sigma>3 = pool_after \<sigma>2 i ([], s, ?ow, [(None, ?mid @ ?apps)])" by blast
  have g: "getLogger s (ld_name d) = (p, s)" using named(1) heap(2) by (simp add: getLogger_def)
  have r3: "?run \<sigma>2 \<sigma>3"
    unfolding 3 by (rule pool_run.advance)
      (use i free g d(3) in \<open>simp_all add: 1 2 conf_logger_code_def getLogger_code_def can_take_def\<close>)
  have l: "log_heap s p = Some l" using named(2) heap(1) by simp
  have fine_mid: "\<forall>x \<in> set ?mid. log_fine strftime r s 0 x"
    using l fine_setLevel fine_clearAppenders by simp
  obtain \<sigma>4 where 4: "\<sigma>4 = pool_after \<sigma>3 i ([], cleared s p l (ld_level d), ?ow, [(None, ?apps)])" by blast
  have "?run\<^sup>*\<^sup>* \<sigma>3 (pool_after \<sigma>3 i ([], cleared s p l (ld_level d), lp_owner \<sigma>3, [(None, ?apps)]))"
    by (rule log_order.computes_runs [OF computes_cleared [OF l] _ _ _ fine_mid grown_s]) (use i free in \<open>simp_all add: 1 2 3\<close>)
  then have r4: "?run\<^sup>*\<^sup>* \<sigma>3 \<sigma>4" by (simp add: 1 2 3 4)
  have "\<sigma>4 = \<sigma>\<lparr>lp_shared := cleared s p l (ld_level d), lp_out := lp_out \<sigma> @ map (Pair i) acts,
      lp_stacks := (lp_stacks \<sigma>)[i := [(None, ?apps)]]\<rparr>"
    by (rule lock_pool.equality) (simp_all add: 1 2 3 4 pool_after_def)
  with r2 r3 r4 st(2) listener_one [OF d(1,2), of ev] show ?thesis
    by (intro exI [of _ acts] exI [of _ s] conjI) (auto simp: 1)
qed

text \<open>What is left of the listener creates the appenders.\<close>

lemma listener_rest:
  assumes ok: "log_order.pool_ok strftime r \<sigma>" and i: "i < length (lp_stacks \<sigma>)"
    and st: "lp_stacks \<sigma> = (replicate n [])[i := [(None, map (conf_appender_code p) as)]]"
    and free: "\<forall>m. lp_owner \<sigma> m = None"
    and l: "log_heap (lp_shared \<sigma>) p = Some l" "l_appenders l = []"
  shows "\<exists>\<sigma>' acts l'. (pool_run (Logger_log_code strftime))\<^sup>*\<^sup>* \<sigma> \<sigma>' \<and> resting \<sigma>' \<and>
    lp_out \<sigma>' = lp_out \<sigma> @ map (Pair i) acts \<and> log_heap (lp_shared \<sigma>') p = Some l' \<and>
    map (app_view (lp_shared \<sigma>')) (l_appenders l') = map (\<lambda>a. Some (want_appender (l_formatter l) a)) as"
proof -
  let ?s = "lp_shared \<sigma>" and ?q = "map (conf_appender_code p) as"
  have inv: "log_inv ?s" using pool_ok_inv [OF ok] by simp
  have n: "length (lp_stacks \<sigma>) = n" using st by simp
  have sti: "lp_stacks \<sigma> ! i = [(None, ?q)]" using st i by simp
  obtain f where f: "l_formatter l = Some f" using log_inv_logger [OF inv l(1)] by (auto simp: logger_ok_def)
  obtain acts s' qs where c: "conf_appenders ?s p as = Inr (acts, s')"
    and s': "s' = ?s\<lparr>app_heap := app_heap s', log_heap := (log_heap ?s)(p \<mapsto> l\<lparr>l_appenders := l_appenders l @ qs\<rparr>),
        log_next := log_next s'\<rparr>"
    and qs: "map (app_view s') qs = map (\<lambda>a. Some (want_appender (Some f) a)) as"
    using conf_appenders_spec [OF inv l(1) f, of as] by blast
  have heap: "log_heap s' p = Some (l\<lparr>l_appenders := qs\<rparr>)" by (subst s') (simp add: l(2))
  have fine: "\<forall>x \<in> set ?q. log_fine strftime r ?s 0 x" and grown: "grown r ?s ?s"
    using ok i sti unfolding log_order.pool_ok_def by fastforce+
  obtain \<sigma>1 where 1: "\<sigma>1 = pool_after \<sigma> i (acts, s', lp_owner \<sigma>, [(None, [])])" by blast
  have r1: "(pool_run (Logger_log_code strftime))\<^sup>*\<^sup>* \<sigma> \<sigma>1"
    unfolding 1 by (rule log_order.computes_runs [OF computes_conf_appenders [OF c] i _ refl fine grown])
      (simp_all add: sti free)
  obtain \<sigma>2 where 2: "\<sigma>2 = pool_after \<sigma>1 i ([], s', lp_owner \<sigma>, [])" by blast
  have r2: "pool_run (Logger_log_code strftime) \<sigma>1 \<sigma>2"
    unfolding 2 by (rule pool_run.advance) (use i in \<open>simp_all add: 1 give_back_def\<close>)
  have "lp_stacks \<sigma>2 = replicate n []"
    using list_update_id [of "replicate n []" i] i n by (simp add: 1 2 st)
  then have rest: "resting \<sigma>2" using free by (simp add: resting_def 1 2)
  show ?thesis
    by (rule exI [of _ \<sigma>2], rule exI [of _ acts], rule exI [of _ "l\<lparr>l_appenders := qs\<rparr>"])
       (use rtranclp.rtrancl_into_rtrancl [OF r1 r2] rest heap qs f in \<open>simp add: 1 2\<close>)
qed

lemma resting_stacks: "resting \<sigma> \<Longrightarrow> lp_stacks \<sigma> = replicate (length (lp_stacks \<sigma>)) []"
  by (rule nth_equalityI) (simp_all add: idle_stack)

text \<open>
  C31. A reconfiguration is not atomic. The listener changes a logger in several calls and holds nothing
  between them, and \<open>Logger::log\<close> passes to the root logger what it finds no appender for. So let the
  definition of a logger that exists be replaced by another one, from any reachable state: there is a run
  in which another thread logs to this logger while the listener is between \<open>clearAppenders\<close> and
  the new appenders, and its line goes to the appenders of the root logger, exactly as if the logger had
  none, although the logger has those of the new definition when both threads have ended.
\<close>

theorem reload_gap:
  assumes "LoggerManager_ctor = Inr s0"
    and "(pool_step (Logger_log_code strftime) (callable strftime))\<^sup>*\<^sup>* (at_rest s0 n) \<sigma>" and rest: "resting \<sigma>"
    and i: "i < length (lp_stacks \<sigma>)" and j: "j < length (lp_stacks \<sigma>)" and ij: "i \<noteq> j"
    and named: "map_of (m_loggers (lp_shared \<sigma>)) (ld_name d) = Some p" "log_heap (lp_shared \<sigma>) p = Some l"
    and root: "l_root l = Some r" "p \<noteq> r" "log_heap (lp_shared \<sigma>) r = Some rt" "l_level rt \<le> lv"
    and d: "d0 \<noteq> d" "ld_name d0 = ld_name d" "ld_formatter d = []" "ld_level d \<le> lv"
  shows "\<exists>\<sigma>1 \<sigma>2 l' acts1 acts acts2.
    (pool_run (Logger_log_code strftime))\<^sup>*\<^sup>*
      (\<sigma>\<lparr>lp_stacks := (lp_stacks \<sigma>)[i := [(None, op_code strftime (ConfChanged ev0 [d0] [d]))]]\<rparr>) \<sigma>1 \<and>
    lp_stacks \<sigma>1 ! j = [] \<and>
    (pool_run (Logger_log_code strftime))\<^sup>*\<^sup>*
      (\<sigma>1\<lparr>lp_stacks := (lp_stacks \<sigma>1)[j := [(None, op_code strftime (Statement p lv ev))]]\<rparr>) \<sigma>2 \<and> resting \<sigma>2 \<and>
    lp_out \<sigma>2 = lp_out \<sigma> @ map (Pair i) acts1 @ map (Pair j) acts @ map (Pair i) acts2 \<and>
    emitted acts = delivery strftime (lp_shared \<sigma>) (l_appenders rt) lv ev \<and>
    log_heap (lp_shared \<sigma>2) p = Some l' \<and>
    map (app_view (lp_shared \<sigma>2)) (l_appenders l') = map (\<lambda>a. Some (want_appender (l_formatter l) a)) (ld_appenders d)"
proof -
  let ?run = "pool_run (Logger_log_code strftime)" and ?apps = "map (conf_appender_code p) (ld_appenders d)"
  note ok = reached_pool [OF assms(1,2)]
  have free: "\<forall>m. lp_owner \<sigma> m = None" using rest by (simp add: resting_def)
  obtain acts1 s \<sigma>1 where s: "core s = core (lp_shared \<sigma>)"
    and 1: "\<sigma>1 = \<sigma>\<lparr>lp_shared := cleared s p l (ld_level d), lp_out := lp_out \<sigma> @ map (Pair i) acts1,
        lp_stacks := (lp_stacks \<sigma>)[i := [(None, ?apps)]]\<rparr>"
    and r1: "?run\<^sup>*\<^sup>* (\<sigma>\<lparr>lp_stacks := (lp_stacks \<sigma>)[i := [(None, listener_code ev0 [d0] [d])]]\<rparr>) \<sigma>1"
    using listener_gap [OF ok rest i named d(1-3)] by blast
  have ok1: "log_order.pool_ok strftime (m_rootLogger s0) \<sigma>1"
    by (rule log_order.pool_runs_ok [OF r1 log_order.pool_call_ok [OF ok i idle_stack [OF rest i] fine_listener]])
  have heap: "log_heap s p = Some l" "log_heap s r = Some rt" using core_eqD [OF s] named(2) root(3) by simp_all
  have inv: "log_inv s" using pool_ok_inv [OF ok] log_inv_core s by metis
  obtain acts s5 where st: "log_statement strftime 2 (lp_shared \<sigma>1) p lv ev = Some (Inr (acts, s5))"
    "core s5 = core (lp_shared \<sigma>1)" "emitted acts = delivery strftime s (l_appenders rt) lv ev"
    using statement_in_gap [OF inv heap(1) root(1,2) heap(2) root(4) d(4), of strftime ev] by (auto simp: 1)
  have j1: "j < length (lp_stacks \<sigma>1)" "lp_stacks \<sigma>1 ! j = []" using j ij idle_stack [OF rest j] by (simp_all add: 1)
  have valid: "op_valid (lp_shared \<sigma>1) (Statement p lv ev)" by (simp add: 1 cleared_def put_logger_def)
  have free1: "\<forall>m. lp_owner \<sigma>1 m = None" using free by (simp add: 1)
  obtain \<sigma>2 where 2: "\<sigma>2 = \<sigma>1\<lparr>lp_shared := s5, lp_out := lp_out \<sigma>1 @ map (Pair j) acts\<rparr>" by blast
  have r2: "?run\<^sup>*\<^sup>* (\<sigma>1\<lparr>lp_stacks := (lp_stacks \<sigma>1)[j := [(None, op_code strftime (Statement p lv ev))]]\<rparr>) \<sigma>2"
    and ok2: "log_order.pool_ok strftime (m_rootLogger s0) \<sigma>2"
    using op_alone [OF ok1 free1 j1 valid] st(1) unfolding 2 by simp_all
  have l2: "log_heap (lp_shared \<sigma>2) p = Some (l\<lparr>l_level := ld_level d, l_appenders := []\<rparr>)"
    using core_eqD [OF st(2)] by (simp add: 1 2 cleared_def put_logger_def)
  have stacks2: "lp_stacks \<sigma>2 = (replicate (length (lp_stacks \<sigma>)) [])[i := [(None, ?apps)]]"
    using resting_stacks [OF rest] by (simp add: 1 2)
  have i2: "i < length (lp_stacks \<sigma>2)" "\<forall>m. lp_owner \<sigma>2 m = None" using i free by (simp_all add: 1 2)
  from listener_rest [OF ok2 i2(1) stacks2 i2(2) l2] obtain \<sigma>3 acts2 l'
    where 3: "?run\<^sup>*\<^sup>* \<sigma>2 \<sigma>3" "resting \<sigma>3" "lp_out \<sigma>3 = lp_out \<sigma>2 @ map (Pair i) acts2"
      "log_heap (lp_shared \<sigma>3) p = Some l'"
      "map (app_view (lp_shared \<sigma>3)) (l_appenders l') = map (\<lambda>a. Some (want_appender (l_formatter l) a)) (ld_appenders d)"
    by auto
  have out: "lp_out \<sigma>3 = lp_out \<sigma> @ map (Pair i) acts1 @ map (Pair j) acts @ map (Pair i) acts2"
    using 3(3) by (simp add: 1 2)
  have em: "emitted acts = delivery strftime (lp_shared \<sigma>) (l_appenders rt) lv ev"
    using st(3) delivery_core s by metis
  show ?thesis
    by (rule exI [of _ \<sigma>1], rule exI [of _ \<sigma>3], rule exI [of _ l'], rule exI [of _ acts1], rule exI [of _ acts],
        rule exI [of _ acts2], intro conjI)
      (use r1 j1(2) rtranclp_trans [OF r2 3(1)] 3(2,4,5) out em in \<open>simp_all only: op_code.simps\<close>)
qed

subsection \<open>An example\<close>

text \<open>The logger \<open>A\<close> gets a new file; the statement of the other thread goes to the standard output.\<close>

definition gap_define :: log_define where
  "gap_define = \<lparr>ld_name = ''A'', ld_level = DEBUG, ld_formatter = [],
     ld_appenders = [\<lparr>ad_type = 1, ad_level = DEBUG, ad_formatter = [], ad_file = ''a.log''\<rparr>]\<rparr>"

theorem reload_gap_witness:
  "\<exists>(\<sigma> :: (logs, log_mutex, log_action, log_error, log_call) lock_pool) acts1 acts acts2.
     lp_out \<sigma> = map (Pair 0) acts1 @ map (Pair 1) acts @ map (Pair 0) acts2 \<and> map fst (emitted acts) = [None] \<and>
     (\<exists>l a. log_heap (lp_shared \<sigma>) 2 = Some l \<and> l_appenders l = [a])"
proof -
  let ?f = "\<lambda>f t. [] :: string"
  let ?d0 = "gap_define\<lparr>ld_appenders := []\<rparr>"
  let ?l = "(new_Logger ''A'')\<lparr>l_root := Some 0\<rparr>"
  let ?s = "snd (getLogger fresh_logs ''A'')"
  let ?\<sigma> = "(at_rest ?s 2) :: (logs, log_mutex, log_action, log_error, log_call) lock_pool"
  have s: "log_heap ?s 2 = Some ?l" "map_of (m_loggers ?s) ''A'' = Some 2"
      "log_heap ?s 0 = Some ((new_Logger ''root'')\<lparr>l_appenders := [1]\<rparr>)" 
    "app_heap ?s 1 = Some (new_StdoutLogAppender\<lparr>a_formatter := Some (new_LogFormatter logger_pattern)\<rparr>)"
    by (simp_all add: getLogger_def alloc_logger_def fresh_logs_def Let_def)
  have "(pool_step (Logger_log_code ?f) (callable ?f))\<^sup>*\<^sup>* (at_rest fresh_logs 2) ?\<sigma>"
    using call_done [OF log_order.at_rest_ok [where n = 2, OF grown_self [OF fresh_logs_inv refl]], where i = 0 and strftime = ?f and
        op = "GetLogger ''A''" and acts = "[]" and s' = ?s]
    by (simp add: at_rest_def resting_def)
  note run = this
  let ?rt = "(new_Logger ''root'')\<lparr>l_appenders := [1]\<rparr>"
  have pool: "resting ?\<sigma>" "0 < length (lp_stacks ?\<sigma>)" "1 < length (lp_stacks ?\<sigma>)" "(0 :: nat) \<noteq> 1"
    by (simp_all add: at_rest_def resting_def)
  have loggers: "map_of (m_loggers (lp_shared ?\<sigma>)) (ld_name gap_define) = Some 2" "log_heap (lp_shared ?\<sigma>) 2 = Some ?l"
    "l_root ?l = Some 0" "(2 :: ptr) \<noteq> 0" "log_heap (lp_shared ?\<sigma>) 0 = Some ?rt" "l_level ?rt \<le> INFO"
    using s(1-3) by (simp_all add: at_rest_def gap_define_def new_Logger_def less_eq_level_def)
  have d: "?d0 \<noteq> gap_define" "ld_name ?d0 = ld_name gap_define" "ld_formatter gap_define = []" "ld_level gap_define \<le> INFO"
    by (simp_all add: gap_define_def less_eq_level_def)
  from reload_gap [OF LoggerManager_ctor_eq run pool loggers d, of sample_event sample_event]
  obtain \<sigma>2 :: "(logs, log_mutex, log_action, log_error, log_call) lock_pool" and l' acts1 acts acts2 where
    "lp_out \<sigma>2 = lp_out ?\<sigma> @ map (Pair 0) acts1 @ map (Pair 1) acts @ map (Pair 0) acts2"
    "emitted acts = delivery ?f (lp_shared ?\<sigma>) (l_appenders ?rt) INFO sample_event" "log_heap (lp_shared \<sigma>2) 2 = Some l'"
    "map (app_view (lp_shared \<sigma>2)) (l_appenders l') = map (\<lambda>a. Some (want_appender (l_formatter ?l) a)) (ld_appenders gap_define)"
    by (elim exE conjE)
  then have "lp_out \<sigma>2 = map (Pair 0) acts1 @ map (Pair 1) acts @ map (Pair 0) acts2"
    "emitted acts = delivery ?f ?s [1] INFO sample_event" "log_heap (lp_shared \<sigma>2) 2 = Some l'"
    "map (app_view (lp_shared \<sigma>2)) (l_appenders l') = map (\<lambda>a. Some (want_appender (l_formatter ?l) a)) (ld_appenders gap_define)"
    by (simp_all add: at_rest_def)
  moreover have "map fst (delivery ?f ?s [1] INFO sample_event) = [None]"
    by (simp add: delivery_def admits_def line_of_def s(4) new_StdoutLogAppender_def less_eq_level_def del: One_nat_def)
  ultimately show ?thesis
    by (intro exI [of _ \<sigma>2] exI [of _ acts1] exI [of _ acts] exI [of _ acts2]) (auto simp: gap_define_def map_eq_Cons_conv)
qed

end
