(* ===== verification/Locks.thy ===== *)
theory Locks
  imports Prelude
begin

text \<open>
  \<open>wille/mutex.h\<close>: the three scoped locks and the mutex classes they lock, over any number of
  threads.

  A lock is its flag \<open>m_locked\<close>; an operation returns the members of the mutex it calls, in order,
  and the new flag. The pthread functions are outside the repository: when they let a call return
  is the argument \<open>may\<close>, and what is assumed of it is \<open>pthread_law\<close>. Threads interleave at the calls;
  the history is the list of the calls that returned.
\<close>

datatype lock_call = Lock | RdLock | WrLock | Unlock

datatype lock_op = Construct | DoLock | DoUnlock | Destruct

fun ScopedLockImpl :: "lock_op \<Rightarrow> bool \<Rightarrow> lock_call list \<times> bool" where
  "ScopedLockImpl Construct m_locked = ([Lock], True)"
| "ScopedLockImpl DoLock m_locked = (if \<not> m_locked then ([Lock], True) else ([], m_locked))"
| "ScopedLockImpl DoUnlock m_locked = (if m_locked then ([Unlock], False) else ([], m_locked))"
| "ScopedLockImpl Destruct m_locked = (if m_locked then ([Unlock], False) else ([], m_locked))"

fun ReadScopedLockImpl :: "lock_op \<Rightarrow> bool \<Rightarrow> lock_call list \<times> bool" where
  "ReadScopedLockImpl Construct m_locked = ([RdLock], True)"
| "ReadScopedLockImpl DoLock m_locked = (if \<not> m_locked then ([Lock], True) else ([], m_locked))"
| "ReadScopedLockImpl DoUnlock m_locked = (if m_locked then ([Unlock], False) else ([], m_locked))"
| "ReadScopedLockImpl Destruct m_locked = (if m_locked then ([Unlock], False) else ([], m_locked))"

fun WriteScopedLockImpl :: "lock_op \<Rightarrow> bool \<Rightarrow> lock_call list \<times> bool" where
  "WriteScopedLockImpl Construct m_locked = ([WrLock], True)"
| "WriteScopedLockImpl DoLock m_locked = (if \<not> m_locked then ([Lock], True) else ([], m_locked))"
| "WriteScopedLockImpl DoUnlock m_locked = (if m_locked then ([Unlock], False) else ([], m_locked))"
| "WriteScopedLockImpl Destruct m_locked = (if m_locked then ([Unlock], False) else ([], m_locked))"

text \<open>The members of the mutex classes and the pthread functions behind them; \<open>None\<close>: no such member.\<close>

datatype pthread_call = mutex_lock | mutex_unlock | rwlock_rdlock | rwlock_wrlock | rwlock_unlock | nothing

fun Mutex_member :: "lock_call \<Rightarrow> pthread_call option" where
  "Mutex_member Lock = Some mutex_lock"
| "Mutex_member Unlock = Some mutex_unlock"
| "Mutex_member RdLock = None"
| "Mutex_member WrLock = None"

fun NullMutex_member :: "lock_call \<Rightarrow> pthread_call option" where
  "NullMutex_member Lock = Some nothing"
| "NullMutex_member Unlock = Some nothing"
| "NullMutex_member RdLock = None"
| "NullMutex_member WrLock = None"

fun RWMutex_member :: "lock_call \<Rightarrow> pthread_call option" where
  "RWMutex_member RdLock = Some rwlock_rdlock"
| "RWMutex_member WrLock = Some rwlock_wrlock"
| "RWMutex_member Unlock = Some rwlock_unlock"
| "RWMutex_member Lock = None"

datatype lock_class = Scoped | Read | Write

fun lock_impl :: "lock_class \<Rightarrow> lock_op \<Rightarrow> bool \<Rightarrow> lock_call list \<times> bool" where
  "lock_impl Scoped = ScopedLockImpl"
| "lock_impl Read = ReadScopedLockImpl"
| "lock_impl Write = WriteScopedLockImpl"

subsection \<open>What is assumed of pthread\<close>

type_synonym history = "(nat \<times> lock_call) list"

fun last_call :: "history \<Rightarrow> nat \<Rightarrow> lock_call option" where
  "last_call [] t = None"
| "last_call (e # h) t =
     (case last_call h t of Some c \<Rightarrow> Some c | None \<Rightarrow> if fst e = t then Some (snd e) else None)"

definition holds :: "history \<Rightarrow> nat \<Rightarrow> bool" where
  "holds h t \<longleftrightarrow> last_call h t \<in> {Some Lock, Some RdLock, Some WrLock}"

definition holds_exclusively :: "history \<Rightarrow> nat \<Rightarrow> bool" where
  "holds_exclusively h t \<longleftrightarrow> last_call h t \<in> {Some Lock, Some WrLock}"

definition pthread_law :: "(history \<Rightarrow> nat \<times> lock_call \<Rightarrow> bool) \<Rightarrow> bool" where
  "pthread_law may \<longleftrightarrow>
     (\<forall>h t c. may h (t, c) \<longrightarrow>
        (c = Lock \<or> c = WrLock \<longrightarrow> (\<forall>u. \<not> holds h u)) \<and>
        (c = RdLock \<longrightarrow> (\<forall>u. \<not> holds_exclusively h u)))"

subsection \<open>Threads with locks\<close>

record lock_sys =
  guards :: "nat \<rightharpoonup> lock_class \<times> bool"
  history :: history

definition calls_return :: "(history \<Rightarrow> nat \<times> lock_call \<Rightarrow> bool) \<Rightarrow> history \<Rightarrow> nat \<Rightarrow> lock_call list \<Rightarrow> bool" where
  "calls_return may h t cs \<longleftrightarrow> cs = [] \<or> (\<exists>c. cs = [c] \<and> may h (t, c))"

text \<open>A thread constructs its lock, then operates on it, then the scope ends.\<close>

inductive lock_step :: "(history \<Rightarrow> nat \<times> lock_call \<Rightarrow> bool) \<Rightarrow> lock_sys \<Rightarrow> lock_sys \<Rightarrow> bool" for may where
  enter: "guards s t = None \<Longrightarrow> lock_impl k Construct b = (cs, b') \<Longrightarrow> calls_return may (history s) t cs \<Longrightarrow>
     lock_step may s (s\<lparr>guards := (guards s)(t \<mapsto> (k, b')), history := history s @ map (Pair t) cs\<rparr>)"
| operate: "guards s t = Some (k, b) \<Longrightarrow> op = DoLock \<or> op = DoUnlock \<Longrightarrow> lock_impl k op b = (cs, b') \<Longrightarrow>
     calls_return may (history s) t cs \<Longrightarrow>
     lock_step may s (s\<lparr>guards := (guards s)(t \<mapsto> (k, b')), history := history s @ map (Pair t) cs\<rparr>)"
| leave: "guards s t = Some (k, b) \<Longrightarrow> lock_impl k Destruct b = (cs, b') \<Longrightarrow> calls_return may (history s) t cs \<Longrightarrow>
     lock_step may s (s\<lparr>guards := (guards s)(t := None), history := history s @ map (Pair t) cs\<rparr>)"

definition no_locks :: lock_sys where
  "no_locks = \<lparr>guards = Map.empty, history = []\<rparr>"

subsection \<open>The invariant\<close>

lemma last_call_append [simp]:
  "last_call (h @ [e]) t = (if fst e = t then Some (snd e) else last_call h t)"
  by (induction h) (auto split: option.splits)

lemma history_append_calls:
  "calls_return may h t cs \<Longrightarrow> u \<noteq> t \<Longrightarrow> last_call (h @ map (Pair t) cs) u = last_call h u"
  by (auto simp: calls_return_def)

definition locked :: "lock_sys \<Rightarrow> nat \<Rightarrow> bool" where
  "locked s t \<longleftrightarrow> (\<exists>k. guards s t = Some (k, True))"

text \<open>
  A call acquires only if nobody else holds the mutex in a conflicting way, and an unlock is a call
  of a thread that holds it.
\<close>

definition fair_call :: "history \<Rightarrow> nat \<times> lock_call \<Rightarrow> bool" where
  "fair_call h e \<longleftrightarrow>
     (case e of
        (t, Unlock) \<Rightarrow> holds h t
      | (t, RdLock) \<Rightarrow> \<not> holds h t \<and> (\<forall>u. \<not> holds_exclusively h u)
      | (t, _) \<Rightarrow> (\<forall>u. \<not> holds h u))"

fun fair_history :: "history \<Rightarrow> history \<Rightarrow> bool" where
  "fair_history h [] = True"
| "fair_history h (e # es) \<longleftrightarrow> fair_call h e \<and> fair_history (h @ [e]) es"

lemma fair_history_append:
  "fair_history h (es @ es') \<longleftrightarrow> fair_history h es \<and> fair_history (h @ es) es'"
  by (induction es arbitrary: h) auto

definition lock_inv :: "lock_sys \<Rightarrow> bool" where
  "lock_inv s \<longleftrightarrow>
     (\<forall>t. locked s t \<longleftrightarrow> holds (history s) t) \<and>
     (\<forall>t u. holds_exclusively (history s) t \<and> holds (history s) u \<longrightarrow> t = u) \<and>
     fair_history [] (history s)"

text \<open>One call, or none, of one thread that sets its flag accordingly.\<close>

lemma lock_inv_call:
  assumes law: "pthread_law may" and inv: "lock_inv s" and may: "calls_return may (history s) t cs"
    and calls: "cs = [] \<and> b' = locked s t \<or> cs = [Unlock] \<and> locked s t \<and> \<not> b'
      \<or> (\<exists>c. cs = [c] \<and> c \<noteq> Unlock \<and> \<not> locked s t \<and> b')"
    and g: "\<And>u. locked s' u = (if u = t then b' else locked s u)"
    and h: "history s' = history s @ map (Pair t) cs"
  shows "lock_inv s'"
  using calls
proof (elim disjE conjE exE)
  assume "cs = []" "b' = locked s t"
  with inv g h show ?thesis by (simp add: lock_inv_def)
next
  assume c: "cs = [Unlock]" "locked s t" "\<not> b'"
  then have last: "last_call (history s') u = (if t = u then Some Unlock else last_call (history s) u)" for u
    by (simp add: h)
  have "holds (history s) t" using inv c(2) by (simp add: lock_inv_def)
  then have "fair_history [] (history s')"
    using inv c(1) by (simp add: h fair_history_append lock_inv_def fair_call_def)
  with inv g c show ?thesis by (auto simp: lock_inv_def holds_def holds_exclusively_def last)
next
  fix c
  assume c: "cs = [c]" "c \<noteq> Unlock" "\<not> locked s t" "b'"
  then have last: "last_call (history s') u = (if t = u then Some c else last_call (history s) u)" for u
    by (simp add: h)
  have granted: "may (history s) (t, c)" using may c(1) by (auto simp: calls_return_def)
  have idle: "\<not> holds (history s) t" using inv c(3) by (simp add: lock_inv_def)
  have excl: "c = RdLock \<and> (\<forall>u. \<not> holds_exclusively (history s) u) \<or> c \<noteq> RdLock \<and> (\<forall>u. \<not> holds (history s) u)"
    using granted law c(2) unfolding pthread_law_def by (cases c) blast+
  from excl have "fair_call (history s) (t, c)"
    using idle c(2) by (cases c) (auto simp: fair_call_def)
  then have "fair_history [] (history s')"
    using inv c(1) by (simp add: h fair_history_append lock_inv_def)
  have "holds (history s') t" using c(2) by (cases c) (simp_all add: holds_def last)
  have excl': "t' = u" if "holds_exclusively (history s') t'" "holds (history s') u" for t' u
    using that excl inv unfolding lock_inv_def holds_exclusively_def holds_def last
    by (cases "t = t'"; cases "t = u") (auto split: if_splits)
  have sync: "locked s' u \<longleftrightarrow> holds (history s') u" for u
  proof (cases "u = t")
    case True
    with g c(4) \<open>holds (history s') t\<close> show ?thesis by simp
  next
    case False
    with inv g [of u] show ?thesis by (simp add: lock_inv_def holds_def last)
  qed
  show ?thesis
    unfolding lock_inv_def
  proof (intro conjI allI impI)
    show "locked s' u = holds (history s') u" for u by (rule sync)
    show "fair_history [] (history s')" by fact
    show "t' = u" if "holds_exclusively (history s') t' \<and> holds (history s') u" for t' u
      using that by (elim conjE) (rule excl')
  qed
qed

lemma impl_construct:
  "lock_impl k Construct b = (cs, b') \<Longrightarrow> \<exists>c. cs = [c] \<and> c \<noteq> Unlock \<and> b'"
  by (cases k) auto

lemma impl_operate:
  "lock_impl k op b = (cs, b') \<Longrightarrow> op \<noteq> Construct \<Longrightarrow>
     cs = [] \<and> b' = b \<or> cs = [Unlock] \<and> b \<and> \<not> b' \<or> (\<exists>c. cs = [c] \<and> c \<noteq> Unlock \<and> \<not> b \<and> b')"
  by (cases k; cases op) (auto split: if_splits)

lemma impl_destruct: "lock_impl k Destruct b = (cs, b') \<Longrightarrow> \<not> b'"
  by (cases k) (auto split: if_splits)

lemma lock_step_inv: "lock_step may s s' \<Longrightarrow> pthread_law may \<Longrightarrow> lock_inv s \<Longrightarrow> lock_inv s'"
proof (induction rule: lock_step.induct)
  case (enter s t k b cs b')
  have "\<not> locked s t" using enter.hyps(1) by (simp add: locked_def)
  with impl_construct [OF enter.hyps(2)] show ?case
    by (intro lock_inv_call [OF enter.prems enter.hyps(3), of b']) (auto simp: locked_def)
next
  case (operate s t k b op cs b')
  have "locked s t = b" "op \<noteq> Construct" using operate.hyps(1,2) by (auto simp: locked_def)
  with impl_operate [OF operate.hyps(3)] show ?case
    by (intro lock_inv_call [OF operate.prems operate.hyps(4), of b']) (auto simp: locked_def)
next
  case (leave s t k b cs b')
  have "locked s t = b" using leave.hyps(1) by (simp add: locked_def)
  with impl_operate [OF leave.hyps(2)] impl_destruct [OF leave.hyps(2)] show ?case
    by (intro lock_inv_call [OF leave.prems leave.hyps(3), of b']) (auto simp: locked_def)
qed

lemma no_locks_inv: "lock_inv no_locks"
  by (simp add: lock_inv_def no_locks_def locked_def holds_def holds_exclusively_def)

interpretation locks_inv: transition_inv "\<lambda>s. s = no_locks" "lock_step may" "\<lambda>s. pthread_law may \<longrightarrow> lock_inv s" for may
  by unfold_locales (auto simp: no_locks_inv dest: lock_step_inv)


definition strict_may :: "history \<Rightarrow> nat \<times> lock_call \<Rightarrow> bool" where
  "strict_may h e \<longleftrightarrow> snd e = Unlock \<or> list_all (\<lambda>f. \<not> holds h (fst f)) h"

lemma last_call_in: "last_call h t = Some c \<Longrightarrow> \<exists>f \<in> set h. fst f = t"
  by (induction h) (auto split: option.splits if_splits)

lemma strict_may_law: "pthread_law strict_may"
proof -
  have free: "\<not> holds h u" if "list_all (\<lambda>f. \<not> holds h (fst f)) h" for h u
  proof
    assume holds: "holds h u"
    then obtain c where "last_call h u = Some c" by (auto simp: holds_def)
    then obtain f where "f \<in> set h" "fst f = u" using last_call_in by blast
    with that holds show False by (auto simp: list_all_iff)
  qed
  have "\<forall>u. \<not> holds h u" if "strict_may h (t, c)" "c \<noteq> Unlock" for h t c
    using that free [of h] by (auto simp: strict_may_def)
  moreover have "holds h u" if "holds_exclusively h u" for h u
    using that by (auto simp: holds_def holds_exclusively_def)
  ultimately show ?thesis
    unfolding pthread_law_def by (intro allI impI conjI) blast+
qed


text \<open>
  A \<open>ReadScopedLockImpl\<close> or a \<open>WriteScopedLockImpl\<close> that was unlocked cannot be locked again on an
  \<open>RWMutex\<close>: \<open>lock()\<close> calls the member \<open>lock\<close>, which \<open>RWMutex\<close> does not have.
\<close>

lemma relock_needs_missing_member:
  "fst (ReadScopedLockImpl DoLock False) = [Lock]" "fst (WriteScopedLockImpl DoLock False) = [Lock]"
  "RWMutex_member Lock = None"
  by simp_all

end
