(* ===== verification/Threads.thy ===== *)
theory Threads
  imports Prelude
begin

text \<open>
  \<open>Thread\<close> of \<open>wille/thread.h\<close> and \<open>wille/thread.cpp\<close>, with the \<open>Semaphore\<close> of \<open>wille/mutex.cpp\<close>: the
  constructor starts a thread and waits until it has taken over the callback.

  The creating and the new thread are two programs that interleave: every access to the shared
  object is a step of its own. \<open>pthread_create\<close> either fails or starts the new thread at once, and
  stores the handle before it returns. The object is \<open>None\<close> once it is destroyed; an access to it
  from then on sets the flag \<open>dangling\<close>. The system's number of the thread is the argument \<open>tid\<close>.
\<close>

subsection \<open>The semaphore\<close>

text \<open>
  \<open>fails\<close> says that the system call returned an error; a wait on zero does not return (\<open>None\<close>).
\<close>

definition Semaphore_ctor :: "bool \<Rightarrow> nat \<Rightarrow> string + nat" where
  "Semaphore_ctor fails n = (if fails then Inl ''sem_open error'' else Inr n)"

definition Semaphore_wait :: "bool \<Rightarrow> nat \<Rightarrow> (string + nat) option" where
  "Semaphore_wait fails n =
     (if fails then Some (Inl ''sem_wait error'') else if n = 0 then None else Some (Inr (n - 1)))"

definition Semaphore_notify :: "bool \<Rightarrow> nat \<Rightarrow> string + nat" where
  "Semaphore_notify fails n = (if fails then Inl ''sem_post error'' else Inr (n + 1))"

subsection \<open>State\<close>

record thread =
  th_id :: u64
  th_thread :: bool \<comment> \<open>\<open>m_thread\<close> is not 0\<close>
  th_cb :: "callback option"
  th_name :: string
  th_semaphore :: nat

text \<open>The thread-locals of the new thread, and its name at the system.\<close>

record locals =
  t_thread :: bool
  t_thread_name :: string
  os_name :: string

datatype creator_pc = CCreate | CStore | CWait | CReturned | CThrew | CJoined | CDestroyed

datatype runner_pc = RNone | RThis | RName | RId | RSetName | RSwap | RNotify callback | RCall callback | RDone

record thread_sys =
  obj :: "thread option"
  creator :: creator_pc
  runner :: runner_pc
  locs :: locals
  called :: "callback list"
  dangling :: bool

definition new_thread :: "callback \<Rightarrow> string \<Rightarrow> thread" where
  "new_thread cb name =
     \<lparr>th_id = - 1, th_thread = False, th_cb = Some cb,
      th_name = (if name = [] then ''UNKNOW'' else name), th_semaphore = 0\<rparr>"

definition thread_start :: "callback \<Rightarrow> string \<Rightarrow> thread_sys" where
  "thread_start cb name =
     \<lparr>obj = Some (new_thread cb name), creator = CCreate, runner = RNone,
      locs = \<lparr>t_thread = False, t_thread_name = ''UNKNOW'', os_name = []\<rparr>, called = [], dangling = False\<rparr>"

subsection \<open>The functions\<close>

definition SetName :: "string \<Rightarrow> thread_sys \<Rightarrow> thread_sys" where
  "SetName name s =
     (if name = [] then s
      else let s1 = (if t_thread (locs s)
                     then case obj s of
                            None \<Rightarrow> s\<lparr>dangling := True\<rparr>
                          | Some th \<Rightarrow> s\<lparr>obj := Some (th\<lparr>th_name := name\<rparr>)\<rparr>
                     else s)
           in s1\<lparr>locs := (locs s1)\<lparr>t_thread_name := name, os_name := take 15 name\<rparr>\<rparr>)"

text \<open>The constructor: the steps of the creating thread.\<close>

inductive ctor_step :: "thread_sys \<Rightarrow> thread_sys \<Rightarrow> bool" where
  create: "creator s = CCreate \<Longrightarrow> ctor_step s (s\<lparr>creator := CStore, runner := RThis\<rparr>)"
| create_fails: "creator s = CCreate \<Longrightarrow> ctor_step s (s\<lparr>creator := CThrew\<rparr>)"
| store: "creator s = CStore \<Longrightarrow> obj s = Some th \<Longrightarrow>
     ctor_step s (s\<lparr>creator := CWait, obj := Some (th\<lparr>th_thread := True\<rparr>)\<rparr>)"
| wait: "creator s = CWait \<Longrightarrow> obj s = Some th \<Longrightarrow> Semaphore_wait False (th_semaphore th) = Some (Inr n) \<Longrightarrow>
     ctor_step s (s\<lparr>creator := CReturned, obj := Some (th\<lparr>th_semaphore := n\<rparr>)\<rparr>)"

text \<open>\<open>Thread::run\<close>: one step of the new thread.\<close>

definition run_step :: "u64 \<Rightarrow> thread_sys \<Rightarrow> thread_sys option" where
  "run_step tid s =
     (case runner s of
        RThis \<Rightarrow> Some (s\<lparr>runner := RName, locs := (locs s)\<lparr>t_thread := True\<rparr>\<rparr>)
      | RName \<Rightarrow>
          (case obj s of
             None \<Rightarrow> Some (s\<lparr>dangling := True\<rparr>)
           | Some th \<Rightarrow> Some (s\<lparr>runner := RId, locs := (locs s)\<lparr>t_thread_name := th_name th\<rparr>\<rparr>))
      | RId \<Rightarrow>
          (case obj s of
             None \<Rightarrow> Some (s\<lparr>dangling := True\<rparr>)
           | Some th \<Rightarrow> Some (s\<lparr>runner := RSetName, obj := Some (th\<lparr>th_id := tid\<rparr>)\<rparr>))
      | RSetName \<Rightarrow> Some ((SetName (t_thread_name (locs s)) s)\<lparr>runner := RSwap\<rparr>)
      | RSwap \<Rightarrow>
          (case obj s of
             None \<Rightarrow> Some (s\<lparr>dangling := True\<rparr>)
           | Some th \<Rightarrow>
               (case th_cb th of
                  None \<Rightarrow> None
                | Some cb \<Rightarrow> Some (s\<lparr>runner := RNotify cb, obj := Some (th\<lparr>th_cb := None\<rparr>)\<rparr>)))
      | RNotify cb \<Rightarrow>
          (case obj s of
             None \<Rightarrow> Some (s\<lparr>dangling := True\<rparr>)
           | Some th \<Rightarrow>
               (case Semaphore_notify False (th_semaphore th) of
                  Inl e \<Rightarrow> None
                | Inr n \<Rightarrow> Some (s\<lparr>runner := RCall cb, obj := Some (th\<lparr>th_semaphore := n\<rparr>)\<rparr>)))
      | RCall cb \<Rightarrow> Some (s\<lparr>runner := RDone, called := called s @ [cb]\<rparr>)
      | _ \<Rightarrow> None)"

inductive start_step :: "u64 \<Rightarrow> thread_sys \<Rightarrow> thread_sys \<Rightarrow> bool" for tid where
  ctor: "ctor_step s s' \<Longrightarrow> start_step tid s s'"
| run: "run_step tid s = Some s' \<Longrightarrow> start_step tid s s'"

inductive_cases ctor_stepE: "ctor_step s s'"
inductive_cases start_stepE: "start_step tid s s'"

text \<open>\<open>join\<close> returns when the thread has ended; the destructor detaches a thread that was not joined.\<close>

definition Thread_join :: "thread_sys \<Rightarrow> thread_sys option" where
  "Thread_join s =
     (case obj s of
        None \<Rightarrow> Some (s\<lparr>dangling := True\<rparr>)
      | Some th \<Rightarrow>
          if th_thread th
          then if runner s = RDone then Some (s\<lparr>creator := CJoined, obj := Some (th\<lparr>th_thread := False\<rparr>)\<rparr>)
               else None
          else Some (s\<lparr>creator := CJoined\<rparr>))"

definition Thread_dtor :: "thread_sys \<Rightarrow> thread_sys" where
  "Thread_dtor s = s\<lparr>creator := CDestroyed, obj := None\<rparr>"

text \<open>The whole life: the owner joins or destroys; the callback may set the name of its thread.\<close>

inductive life_step :: "u64 \<Rightarrow> thread_sys \<Rightarrow> thread_sys \<Rightarrow> bool" for tid where
  start: "start_step tid s s' \<Longrightarrow> life_step tid s s'"
| join: "creator s = CReturned \<Longrightarrow> Thread_join s = Some s' \<Longrightarrow> life_step tid s s'"
| destroy: "creator s = CReturned \<or> creator s = CJoined \<Longrightarrow> life_step tid s (Thread_dtor s)"
| rename: "runner s = RCall cb \<Longrightarrow> life_step tid s (SetName name s)"

subsection \<open>The start\<close>

fun creator_rank :: "creator_pc \<Rightarrow> nat" where
  "creator_rank CCreate = 3"
| "creator_rank CStore = 2"
| "creator_rank CWait = 1"
| "creator_rank _ = 0"

fun runner_rank :: "runner_pc \<Rightarrow> nat" where
  "runner_rank RNone = 8"
| "runner_rank RThis = 7"
| "runner_rank RName = 6"
| "runner_rank RId = 5"
| "runner_rank RSetName = 4"
| "runner_rank RSwap = 3"
| "runner_rank (RNotify cb) = 2"
| "runner_rank (RCall cb) = 1"
| "runner_rank RDone = 0"

definition steps_left :: "thread_sys \<Rightarrow> nat" where
  "steps_left s = creator_rank (creator s) + runner_rank (runner s)"

text \<open>What holds of the object and the locals at each point of the new thread.\<close>

definition start_inv :: "u64 \<Rightarrow> callback \<Rightarrow> string \<Rightarrow> thread_sys \<Rightarrow> bool" where
  "start_inv tid cb name s \<longleftrightarrow>
     (\<exists>th. obj s = Some th \<and> th_name th = name \<and>
       th_thread th = (creator s = CWait \<or> creator s = CReturned) \<and>
       th_id th = (if runner_rank (runner s) \<le> 4 then tid else - 1) \<and>
       th_cb th = (if runner_rank (runner s) \<le> 2 then None else Some cb) \<and>
       th_semaphore th = (if runner_rank (runner s) \<le> 1 \<and> creator s \<noteq> CReturned then 1 else 0)) \<and>
     (runner_rank (runner s) \<le> 6 \<longrightarrow> t_thread (locs s)) \<and>
     (runner_rank (runner s) \<le> 5 \<longrightarrow> t_thread_name (locs s) = name) \<and>
     (runner_rank (runner s) \<le> 3 \<longrightarrow> os_name (locs s) = take 15 name) \<and>
     (creator s = CCreate \<or> creator s = CThrew \<longleftrightarrow> runner s = RNone) \<and>
     creator s \<noteq> CJoined \<and> creator s \<noteq> CDestroyed \<and>
     (creator s = CReturned \<longrightarrow> runner_rank (runner s) \<le> 1) \<and>
     (\<forall>c. runner s = RNotify c \<or> runner s = RCall c \<longrightarrow> c = cb) \<and>
     called s = (if runner s = RDone then [cb] else []) \<and> \<not> dangling s"

lemma start_inv_init:
  "start_inv tid cb (if name = [] then ''UNKNOW'' else name) (thread_start cb name)"
  by (simp add: start_inv_def thread_start_def new_thread_def)

lemma ctor_step_inv:
  assumes "ctor_step s s'" and inv: "start_inv tid cb name s"
  shows "start_inv tid cb name s'"
proof -
  from inv obtain o1 where th: "obj s = Some o1" unfolding start_inv_def by blast
  note facts = inv [unfolded start_inv_def th, simplified]
  from assms(1) show ?thesis
  proof (cases rule: ctor_step.cases)
    case create
    with facts have "runner s = RNone" by simp
    with facts create show ?thesis by (simp add: start_inv_def th)
  next
    case create_fails
    with facts have "runner s = RNone" by simp
    with facts create_fails show ?thesis by (simp add: start_inv_def th)
  next
    case (store th')
    with facts th show ?thesis by (simp add: start_inv_def)
  next
    case (wait th' n)
    then have "th_semaphore o1 \<noteq> 0" "n = th_semaphore o1 - 1" "th' = o1"
      using th by (simp_all add: Semaphore_wait_def split: if_splits)
    with facts wait show ?thesis by (simp add: start_inv_def split: if_splits)
  qed
qed

lemma run_step_inv:
  assumes step: "run_step tid s = Some s'" and inv: "start_inv tid cb name s" and name: "name \<noteq> []"
  shows "start_inv tid cb name s'"
proof -
  from inv obtain th where th: "obj s = Some th" unfolding start_inv_def by blast
  note facts = inv [unfolded start_inv_def th, simplified]
  show ?thesis
  proof (cases "runner s")
    case RNone
    with step show ?thesis by (simp add: run_step_def)
  next
    case RThis
    with step have "s' = s\<lparr>runner := RName, locs := (locs s)\<lparr>t_thread := True\<rparr>\<rparr>" by (simp add: run_step_def)
    with facts RThis th show ?thesis by (simp add: start_inv_def)
  next
    case RName
    with step th have "s' = s\<lparr>runner := RId, locs := (locs s)\<lparr>t_thread_name := th_name th\<rparr>\<rparr>"
      by (simp add: run_step_def)
    with facts RName th show ?thesis by (simp add: start_inv_def)
  next
    case RId
    with step th have "s' = s\<lparr>runner := RSetName, obj := Some (th\<lparr>th_id := tid\<rparr>)\<rparr>" by (simp add: run_step_def)
    with facts RId th show ?thesis by (simp add: start_inv_def)
  next
    case RSetName
    with facts have "t_thread_name (locs s) = name" "t_thread (locs s)" by simp_all
    with step RSetName th name have "s' = s\<lparr>obj := Some (th\<lparr>th_name := name\<rparr>),
        locs := (locs s)\<lparr>t_thread_name := name, os_name := take 15 name\<rparr>, runner := RSwap\<rparr>"
      by (simp add: run_step_def SetName_def)
    with facts RSetName th show ?thesis by (simp add: start_inv_def)
  next
    case RSwap
    with facts have "th_cb th = Some cb" by simp
    with step RSwap th have "s' = s\<lparr>runner := RNotify cb, obj := Some (th\<lparr>th_cb := None\<rparr>)\<rparr>"
      by (simp add: run_step_def)
    with facts RSwap th show ?thesis by (simp add: start_inv_def)
  next
    case (RNotify c)
    with step th have "s' = s\<lparr>runner := RCall c, obj := Some (th\<lparr>th_semaphore := th_semaphore th + 1\<rparr>)\<rparr>"
      by (simp add: run_step_def Semaphore_notify_def)
    with facts RNotify th show ?thesis by (simp add: start_inv_def)
  next
    case (RCall c)
    with step have "s' = s\<lparr>runner := RDone, called := called s @ [c]\<rparr>" by (simp add: run_step_def)
    with facts RCall th show ?thesis by (simp add: start_inv_def)
  next
    case RDone
    with step show ?thesis by (simp add: run_step_def)
  qed
qed

lemma start_step_inv:
  "start_step tid s s' \<Longrightarrow> name \<noteq> [] \<Longrightarrow> start_inv tid cb name s \<Longrightarrow> start_inv tid cb name s'"
  by (auto elim!: start_stepE intro: ctor_step_inv run_step_inv)

lemma start_step_less:
  assumes "start_step tid s s'" and "start_inv tid cb name s"
  shows "steps_left s' < steps_left s"
  using assms
  by (auto elim!: start_stepE ctor_stepE
      simp: steps_left_def run_step_def SetName_def Semaphore_notify_def start_inv_def Let_def
      split: runner_pc.splits option.splits if_splits)

definition started :: "thread_sys \<Rightarrow> bool" where
  "started s \<longleftrightarrow> creator s = CReturned \<and> runner s = RDone"

lemma start_progress:
  assumes inv: "start_inv tid cb name s" and "\<not> started s" and "creator s \<noteq> CThrew"
  shows "\<exists>s'. start_step tid s s'"
proof -
  from inv obtain th where th: "obj s = Some th" unfolding start_inv_def by blast
  show ?thesis
  proof (cases "runner s")
    case RNone
    with inv assms(3) have "creator s = CCreate" by (auto simp: start_inv_def)
    then show ?thesis using ctor_step.create start_step.ctor by blast
  next
    case RSwap
    with inv th have "th_cb th = Some cb" by (simp add: start_inv_def)
    with RSwap th have "\<exists>s'. run_step tid s = Some s'" by (simp add: run_step_def)
    then show ?thesis using start_step.run by blast
  next
    case RDone
    then consider "creator s = CStore" | "creator s = CWait"
      using inv assms(2,3) unfolding started_def start_inv_def by (cases "creator s") auto
    then show ?thesis
    proof cases
      case 1
      from ctor_step.store [OF 1 th] show ?thesis using start_step.ctor by blast
    next
      case 2
      with inv th RDone have "th_semaphore th = 1" by (simp add: start_inv_def)
      then have "Semaphore_wait False (th_semaphore th) = Some (Inr 0)" by (simp add: Semaphore_wait_def)
      from ctor_step.wait [OF 2 th this] show ?thesis using start_step.ctor by blast
    qed
  next
    case (RNotify c)
    with th have "\<exists>s'. run_step tid s = Some s'" by (simp add: run_step_def Semaphore_notify_def)
    then show ?thesis using start_step.run by blast
  qed (use th in \<open>force intro: start_step.run simp: run_step_def\<close>)+
qed

end
