(* ===== verification/Thread_Props.thy ===== *)
theory Thread_Props
  imports Threads
begin

text \<open>
  The start of a thread always completes, whatever the interleaving; and what happens to a thread
  whose object is destroyed while it runs.
\<close>

lemma start_steps_bound:
  "(start_step tid ^^ n) s0 s \<Longrightarrow> name \<noteq> [] \<Longrightarrow> start_inv tid cb name s0 \<Longrightarrow>
     start_inv tid cb name s \<and> n + steps_left s \<le> steps_left s0"
proof (induction n arbitrary: s)
  case (Suc n)
  from Suc.prems(1) obtain s1 where s1: "(start_step tid ^^ n) s0 s1" "start_step tid s1 s" by auto
  note IH = Suc.IH [OF s1(1) Suc.prems(2,3)]
  from start_step_inv [OF s1(2) Suc.prems(2) conjunct1 [OF IH]] start_step_less [OF s1(2) conjunct1 [OF IH]] IH
  show ?case by simp
qed simp

text \<open>
  C39. A thread always starts. Whatever the interleaving of the constructor with the new thread,
  there are at most eleven steps; as long as \<open>pthread_create\<close> did not fail and not both the
  constructor has returned and the callback has been called, some step is possible, so neither
  waits for ever. When the constructor has returned, the object has the number of the thread, its
  handle and its name (\<open>UNKNOW\<close> for an empty one), the callback is out of it, and the thread-locals
  and the system's name (at most 15 characters) are set. At the end the callback was called exactly
  once. The object is never accessed after its end, as long as its owner keeps it.
\<close>

theorem thread_start_completes:
  assumes "(start_step tid ^^ n) (thread_start cb name) s"
  shows "n \<le> 11 \<and>
    (creator s \<noteq> CThrew \<and> \<not> started s \<longrightarrow> (\<exists>s'. start_step tid s s')) \<and>
    (creator s = CReturned \<longrightarrow>
      (\<exists>th. obj s = Some th \<and> th_id th = tid \<and> th_thread th \<and> th_cb th = None \<and>
         th_name th = (if name = [] then ''UNKNOW'' else name) \<and>
         t_thread_name (locs s) = th_name th \<and> os_name (locs s) = take 15 (th_name th))) \<and>
    (started s \<longrightarrow> called s = [cb]) \<and> \<not> dangling s"
proof -
  let ?name = "if name = [] then ''UNKNOW'' else name"
  have name: "?name \<noteq> []" by simp
  have start: "steps_left (thread_start cb name) = 11"
    by (simp add: steps_left_def thread_start_def)
  note bound = start_steps_bound [OF assms name start_inv_init]
  then have inv: "start_inv tid cb ?name s" and n: "n \<le> 11" using start by simp_all
  from inv obtain th where th: "obj s = Some th" unfolding start_inv_def by blast
  note facts = inv [unfolded start_inv_def th]
  have "\<exists>s'. start_step tid s s'" if "creator s \<noteq> CThrew \<and> \<not> started s"
    using start_progress [OF inv] that by blast
  moreover have "th_id th = tid \<and> th_thread th \<and> th_cb th = None \<and> th_name th = ?name \<and>
      t_thread_name (locs s) = th_name th \<and> os_name (locs s) = take 15 (th_name th)" if "creator s = CReturned"
    using facts that by simp
  moreover have "called s = [cb]" if "started s"
    using facts that by (simp add: started_def)
  moreover have "\<not> dangling s" using facts by simp
  ultimately show ?thesis using n th by blast
qed

subsection \<open>One run\<close>

definition runs :: "u64 \<Rightarrow> nat \<Rightarrow> thread_sys \<Rightarrow> thread_sys" where
  "runs tid n s = ((\<lambda>s. the (run_step tid s)) ^^ n) s"

definition created :: thread_sys where
  "created = (thread_start (User 0) ''io'')\<lparr>creator := CWait, runner := RThis,
     obj := Some ((new_thread (User 0) ''io'')\<lparr>th_thread := True\<rparr>)\<rparr>"

definition notified :: "u64 \<Rightarrow> thread_sys" where
  "notified tid = created\<lparr>runner := RCall (User 0),
     obj := Some \<lparr>th_id = tid, th_thread = True, th_cb = None, th_name = ''io'', th_semaphore = 1\<rparr>,
     locs := \<lparr>t_thread = True, t_thread_name = ''io'', os_name = ''io''\<rparr>\<rparr>"

definition returned :: "u64 \<Rightarrow> thread_sys" where
  "returned tid = (notified tid)\<lparr>creator := CReturned,
     obj := Some \<lparr>th_id = tid, th_thread = True, th_cb = None, th_name = ''io'', th_semaphore = 0\<rparr>\<rparr>"

lemma created_steps: "(start_step tid ^^ 2) (thread_start (User 0) ''io'') created"
proof -
  let ?s = "(thread_start (User 0) ''io'')\<lparr>creator := CStore, runner := RThis\<rparr>"
  have "start_step tid (thread_start (User 0) ''io'') ?s"
    by (intro start_step.ctor ctor_step.create) (simp add: thread_start_def)
  moreover have "start_step tid ?s created"
    using start_step.ctor [OF ctor_step.store [of ?s "new_thread (User 0) ''io''"]]
    by (simp add: thread_start_def created_def)
  ultimately show ?thesis by (auto simp: numeral_2_eq_2)
qed

lemma run_steps:
  "\<forall>k < n. run_step tid (runs tid k s) \<noteq> None \<Longrightarrow> (start_step tid ^^ n) s (runs tid n s)"
proof (induction n)
  case (Suc n)
  then have "run_step tid (runs tid n s) = Some (runs tid (Suc n) s)" by (auto simp: runs_def)
  then have "start_step tid (runs tid n s) (runs tid (Suc n) s)" by (rule start_step.run)
  with Suc show ?case by auto
qed (simp add: runs_def)

lemma runs_created:
  "\<forall>k < 6. run_step tid (runs tid k created) \<noteq> None" "runs tid 6 created = notified tid"
  by (simp_all add: runs_def created_def notified_def thread_start_def new_thread_def run_step_def SetName_def
      Semaphore_notify_def eval_nat_numeral less_Suc_eq)

lemma returned_steps: "(start_step tid ^^ 9) (thread_start (User 0) ''io'') (returned tid)"
proof -
  have eight: "(start_step tid ^^ (2 + 6)) (thread_start (User 0) ''io'') (notified tid)"
    using created_steps run_steps [OF runs_created(1), of tid] runs_created(2) [of tid]
    unfolding relpowp_add by auto
  have "start_step tid (notified tid) (returned tid)"
    using start_step.ctor [OF ctor_step.wait [of "notified tid"
          "\<lparr>th_id = tid, th_thread = True, th_cb = None, th_name = ''io'', th_semaphore = 1\<rparr>" 0]]
    by (simp add: notified_def created_def returned_def Semaphore_wait_def thread_start_def)
  from relpowp_Suc_I [OF eight this] show ?thesis by simp
qed

theorem thread_start_completes_witness:
  "(start_step 7 ^^ 9) (thread_start (User 0) ''io'') (returned 7) \<and>
   (\<exists>s'. start_step 7 (returned 7) s') \<and>
   (\<exists>th. obj (returned 7) = Some th \<and> th_id th = 7 \<and> th_cb th = None \<and> th_name th = ''io'')"
proof -
  have "creator (returned 7) = CReturned" "\<not> started (returned 7)"
    by (simp_all add: returned_def started_def notified_def)
  with thread_start_completes [OF returned_steps [of 7]] returned_steps [of 7] show ?thesis by auto
qed

text \<open>
  The destructor detaches a thread that runs, but the thread-local pointer to the object remains:
  a callback that sets the name of its thread then writes into the destroyed object.
\<close>

lemma detached_thread_dangles:
  "\<exists>s. (life_step 7)\<^sup>*\<^sup>* (thread_start (User 0) ''io'') s \<and> dangling s"
proof -
  have lift: "(start_step 7 ^^ n) s s' \<Longrightarrow> (life_step 7)\<^sup>*\<^sup>* s s'" for n s s'
  proof (induction n arbitrary: s')
    case (Suc n)
    then show ?case by (auto intro: rtranclp.rtrancl_into_rtrancl life_step.start)
  qed simp
  have "(life_step 7)\<^sup>*\<^sup>* (thread_start (User 0) ''io'') (returned 7)"
    by (rule lift [OF returned_steps])
  moreover have "life_step 7 (returned 7) (Thread_dtor (returned 7))"
    by (rule life_step.destroy) (simp add: returned_def)
  moreover have "life_step 7 (Thread_dtor (returned 7)) (SetName ''x'' (Thread_dtor (returned 7)))"
    by (rule life_step.rename [of _ "User 0"]) (simp add: Thread_dtor_def returned_def notified_def)
  moreover have "dangling (SetName ''x'' (Thread_dtor (returned 7)))"
    by (simp add: SetName_def Thread_dtor_def returned_def notified_def)
  ultimately show ?thesis by (meson rtranclp.rtrancl_into_rtrancl)
qed

end
