(* ===== verification/Addresses.thy ===== *)
theory Addresses
  imports Std_Set "HOL-Library.List_Lexorder"
begin

text \<open>
  \<open>wille/address.cpp\<close>: the order of addresses, their family and their text. An address is what the
  virtual functions return: the memory at \<open>getAddr()\<close> and the length \<open>getAddrLen()\<close>. \<open>memcmp\<close> compares
  unsigned bytes; \<open>sa_family\<close> is the first two bytes of a \<open>sockaddr\<close> on Linux, least significant first. The
  other functions of the class and its subclasses are declared in the header but have no body in the
  repository; the virtual \<open>insert\<close> is an argument, a function of what the stream holds.
\<close>

record address =
  addr_mem :: "nat \<Rightarrow> 8 word"
  addr_len :: u32

fun memcmp_from :: "(nat \<Rightarrow> 8 word) \<Rightarrow> (nat \<Rightarrow> 8 word) \<Rightarrow> nat \<Rightarrow> nat \<Rightarrow> int" where
  "memcmp_from p q i 0 = 0"
| "memcmp_from p q i (Suc n) =
     (if p i = q i then memcmp_from p q (i + 1) n else if p i < q i then - 1 else 1)"

definition address_less :: "address \<Rightarrow> address \<Rightarrow> bool" where
  "address_less lhs rhs =
     (let minlen = min (addr_len lhs) (addr_len rhs);
          result = memcmp_from (addr_mem lhs) (addr_mem rhs) 0 (unat minlen)
      in if result < 0 then True
         else if result > 0 then False
         else if addr_len lhs < addr_len rhs then True
         else False)"

definition getFamily :: "address \<Rightarrow> int" where
  "getFamily a = uint (addr_mem a 0) + 256 * uint (addr_mem a 1)"

definition toString :: "(address \<Rightarrow> string \<Rightarrow> string) \<Rightarrow> address \<Rightarrow> string" where
  "toString vinsert a = vinsert a []"

definition addr_bytes :: "address \<Rightarrow> 8 word list" where
  "addr_bytes a = map (addr_mem a) [0..<unat (addr_len a)]"

lemma memcmp_lex:
  "(memcmp_from p q i (min m n) < 0 \<or> memcmp_from p q i (min m n) = 0 \<and> m < n) \<longleftrightarrow>
     map p [i..<i + m] < map q [i..<i + n]"
proof (induction m arbitrary: i n)
  case 0
  then show ?case by (cases n) (auto simp: upt_conv_Cons simp del: upt_Suc)
next
  case (Suc m)
  show ?case
  proof (cases n)
    case 0
    have "\<not> map p [i..<i + Suc m] < []" by simp
    with 0 show ?thesis by simp
  next
    case (Suc k)
    have upt: "[i..<i + Suc j] = i # [Suc i..<Suc i + j]" for j
      by (simp add: upt_conv_Cons del: upt_Suc)
    show ?thesis
      unfolding Suc upt using Suc.IH [of "Suc i" k] by (auto simp del: upt_Suc)
  qed
qed

lemma address_less_lex: "address_less a b \<longleftrightarrow> addr_bytes a < addr_bytes b"
proof -
  have "unat (min (addr_len a) (addr_len b)) = min (unat (addr_len a)) (unat (addr_len b))"
    by (simp add: min_def word_le_nat_alt)
  then show ?thesis
    using memcmp_lex [of "addr_mem a" "addr_mem b" 0 "unat (addr_len a)" "unat (addr_len b)"]
    by (auto simp: address_less_def addr_bytes_def Let_def word_less_nat_alt)
qed

lemma same_family:
  assumes "addr_bytes a = addr_bytes b" and "2 \<le> unat (addr_len a)"
  shows "getFamily a = getFamily b"
proof -
  have len: "unat (addr_len a) = unat (addr_len b)"
    using arg_cong [OF assms(1), of length] by (simp add: addr_bytes_def)
  have "addr_mem a i = addr_mem b i" if "i < unat (addr_len a)" for i
    using arg_cong [OF assms(1), of "\<lambda>xs. xs ! i"] that len by (simp add: addr_bytes_def)
  with assms(2) show ?thesis by (simp add: getFamily_def)
qed

interpretation address_order: strict_weak address_less
  by unfold_locales (auto simp: address_less_lex)

text \<open>
  C40. \<open>operator<\<close> on addresses is the lexicographic order of their bytes as unsigned numbers, a
  proper prefix being smaller. So it is a strict weak order, as the ordered containers need, and
  two addresses are equivalent for it exactly when they have the same bytes: a set of addresses in
  this order finds an address just when it holds one with the same bytes, and an insertion keeps
  it in order. Equivalent addresses that have a family (two bytes at least) have the same one.
\<close>

theorem address_order_bytes:
  "(address_less a b \<longleftrightarrow> addr_bytes a < addr_bytes b) \<and>
   (\<not> address_less a b \<and> \<not> address_less b a \<longleftrightarrow> addr_bytes a = addr_bytes b) \<and>
   (sorted_wrt address_less as \<longrightarrow>
      (set_find address_less a as \<noteq> None \<longleftrightarrow> addr_bytes a \<in> addr_bytes ` set as) \<and>
      sorted_wrt address_less (fst (set_insert address_less a as))) \<and>
   (\<not> address_less a b \<and> \<not> address_less b a \<and> 2 \<le> unat (addr_len a) \<longrightarrow> getFamily a = getFamily b)"
proof (intro conjI impI)
  show "address_less a b \<longleftrightarrow> addr_bytes a < addr_bytes b" by (rule address_less_lex)
  have eq: "\<not> address_less x y \<and> \<not> address_less y x \<longleftrightarrow> addr_bytes x = addr_bytes y" for x y
    by (auto simp: address_less_lex)
  then show "\<not> address_less a b \<and> \<not> address_less b a \<longleftrightarrow> addr_bytes a = addr_bytes b" .
  show "getFamily a = getFamily b"
    if "\<not> address_less a b \<and> \<not> address_less b a \<and> 2 \<le> unat (addr_len a)"
    using that eq [of a b] by (intro same_family) blast+
  assume srt: "sorted_wrt address_less as"
  have "set_find address_less a as \<noteq> None \<longleftrightarrow> (\<exists>x \<in> set as. addr_bytes x = addr_bytes a)"
    unfolding address_order.find_iff [OF srt] eq ..
  then show "set_find address_less a as \<noteq> None \<longleftrightarrow> addr_bytes a \<in> addr_bytes ` set as"
    by (metis image_iff)
  show "sorted_wrt address_less (fst (set_insert address_less a as))"
    by (rule address_order.sorted_insert [OF srt])
qed

definition local_addr :: "8 word \<Rightarrow> address" where
  "local_addr b = \<lparr>addr_mem = (\<lambda>i. if i = 3 then b else 1), addr_len = 4\<rparr>"

lemma local_bytes: "addr_bytes (local_addr b) = [1, 1, 1, b]"
proof -
  have "unat (4 :: u32) = 4" "[0..<4] = [0, 1, 2, 3]"
    by (simp_all add: upt_rec)
  then show ?thesis by (simp add: addr_bytes_def local_addr_def)
qed

theorem address_order_bytes_witness:
  "set_find address_less (local_addr 200) [local_addr 7, local_addr 200] \<noteq> None \<and>
   set_find address_less (local_addr 9) [local_addr 7, local_addr 200] = None"
proof -
  have "address_less (local_addr 7) (local_addr 200)"
    by (simp add: address_less_lex local_bytes)
  then have srt: "sorted_wrt address_less [local_addr 7, local_addr 200]" by simp
  show ?thesis
    using address_order_bytes [of "local_addr 200" "local_addr 7" "[local_addr 7, local_addr 200]"]
      address_order_bytes [of "local_addr 9" "local_addr 7" "[local_addr 7, local_addr 200]"] srt
    by (simp add: local_bytes)
qed

end
