(* ===== verification/Spec2Isabelle.thy ===== *)
theory Spec2Isabelle
  imports Timer_Props Fiber_Props Scheduler_Lifecycle IO_Timer_Runs IO_Shutdown Config_Var_Threads Config_Logging
    Log_Reload Locks Thread_Props Addresses
begin

text \<open>
  A model of \<open>wille\<close>, a C++ library of fibers, an N:M scheduler, timers, an epoll event loop, logging
  and configuration (\<open>src/wille\<close>), and the theorems that make it correct.

  \<^bold>\<open>The program.\<close> An \<open>IOManager\<close> is a \<open>Scheduler\<close> and a \<open>TimerManager\<close>. Its worker threads take tasks
  (callbacks or fibers, possibly bound to one thread) from a shared queue and swap them in; a worker
  without a task runs the idle fiber, which waits in epoll for descriptor events and for the next
  timer and turns both into tasks. Independently, \<open>Config\<close> keeps typed variables that are loaded from
  YAML documents and tell their listeners of changes; the listener of the variable \<open>logs\<close> rebuilds the
  loggers.

  \<^bold>\<open>The theories,\<close> in the order of the layers; each \<open>X\<close> models the code and the theories after it hold
  the properties.
  \<^item> \<open>Prelude\<close>: machine integers, pointers, closures, the locale of invariants of a transition system
    (interpreted for timers, fibers, the scheduler, the I/O manager, the loggers, the registry, the
    locks and the threads that log), generic lemmas. \<open>Std_Set\<close> and \<open>Std_Map\<close>: \<open>std::set\<close> over a comparator and \<open>std::map\<close>, with
    their laws as locales, interpreted for the comparators of timers, logger definitions and addresses.
  \<^item> \<open>Timers\<close> (\<open>timer.h\<close>, \<open>timer.cpp\<close>): records \<open>timer\<close> and \<open>timer_manager\<close>, every method. \<open>Timer_Props\<close>
    (C1--C3, C5--C7): the set stays sorted while deadlines change, refinement to a table of pending timers,
    what fires and when, the wake-up protocol, the rollover.
  \<^item> \<open>Fibers\<close> (\<open>fiber.h\<close>, \<open>fiber.cpp\<close>): fiber objects, thread-locals and the transfer of control.
    \<open>Fiber_Props\<close> (C9, C10).
  \<^item> \<open>Schedulers\<close>, \<open>Scheduler_Run\<close> (\<open>scheduler.h\<close>, \<open>scheduler.cpp\<close>): the queue, \<open>start\<close>, \<open>stop\<close>, and
    \<open>run\<close>/\<open>idle\<close> as the step relation \<open>sched_step\<close> of any number of workers; \<open>Scheduler_Exec\<close> is its
    executable form. \<open>Scheduler_Props\<close>, \<open>Scheduler_Runs\<close> (C12, C13, C16, C17): counters, conservation of
    tasks, two races. \<open>Scheduler_Lifecycle\<close> (C15): a scheduler on its caller's thread, from the constructor
    to the destructor, with the fibers of \<open>Fibers\<close> under it.
  \<^item> \<open>IOManagers\<close> (\<open>iomanager.h\<close>, \<open>iomanager.cpp\<close>): the table of contexts, every operation and one round
    of \<open>idle\<close>. \<open>IO_Props\<close>, \<open>IO_Events\<close>, \<open>IO_Kernel\<close> (C18--C24).
  \<^item> \<open>IO_System\<close>: the composition. The step relation \<open>iosys_step\<close> joins the pool of workers, each with the
    idle loop of \<open>IOManager::idle\<close> taken apart into its stages, the timers, the kernel's reports, the
    deferred calls of \<open>tickle()\<close> and the threads that register, cancel and submit. \<open>IO_Work\<close> follows the
    registered work through each operation; \<open>IO_System_Props\<close> (C8): no work is lost or duplicated and the
    counters are exact; \<open>IO_System_Runs\<close> (C11, C27): a reported event gets its callback run; a
    submission wakes a sleeper, and when it does not; \<open>IO_Timer_Runs\<close> (C25): a timer that is due gets its callback run;
    \<open>IO_Shutdown\<close> (C14): after \<open>stop\<close> all workers return from \<open>run\<close>.
  \<^item> \<open>Log_Formatters\<close>, \<open>Loggers\<close>, \<open>Log_Config\<close> (\<open>log.h\<close>, \<open>log.cpp\<close>): levels, the pattern parser,
    appenders, loggers and their manager; \<open>LogDefine\<close>, its casts and the listener. \<open>Log_Pattern_Props\<close>
    (C26): the parser inverts the grammar. \<open>Logger_Props\<close>, \<open>Log_Macros\<close> (\<open>singleton.h\<close>,
    \<open>macro.h\<close>; C28): logging never fails and delivers exactly, through calls, statements and failed
    assertions. \<open>Log_Config_Casts\<close> (C36): configuration texts round-trip. \<open>Log_Config_Apply\<close>: the
    listener puts a change in force. \<open>Log_Threads\<close>: the same methods taken apart at their mutexes;
    \<open>Log_Lock_Order\<close>, \<open>Log_Thread_Props\<close> (C4): threads that log never block each other for good;
    \<open>Log_Reload\<close> (C31): what another thread can see of a reconfiguration. \<open>Scoped_Threads\<close> holds the
    threads with scoped locks this rests on, and their lock order as a locale.
  \<^item> \<open>Config_Casts\<close>, \<open>Config_Vars\<close> (\<open>config.h\<close>, \<open>config.cpp\<close>): the \<open>LexicalCast\<close> templates, \<open>ConfigVar\<close>,
    \<open>Lookup\<close> and the loader. \<open>Config_Cast_Props\<close> (C29): container round trips. \<open>Config_Props\<close>: an
    assignment tells the listeners; \<open>Config_Var_Threads\<close> (C30): it does so in every interleaving of its two
    locks, and where they fall short. \<open>Config_Registry\<close> (C32, C33): the registry is typed and stable, and
    what two concurrent first look-ups do. \<open>Config_Load\<close> (C34, C35): the loader against the plain
    enumeration of all paths. \<open>Yaml_Tree\<close> is a concrete instance of the YAML interface for the witnesses.
  \<^item> \<open>Config_Logging\<close>: the configuration and the log together, from the static objects of the process on; a
    configuration file decides what every later statement writes (C37).
  \<^item> \<open>Locks\<close> (\<open>mutex.h\<close>; C38), \<open>Threads\<close> and \<open>Thread_Props\<close> (\<open>thread.cpp\<close>, \<open>mutex.cpp\<close>; C39), \<open>Addresses\<close>
    (\<open>address.cpp\<close>; C40), \<open>Utils\<close> (\<open>util.cpp\<close>).

  \<^bold>\<open>Conventions.\<close> A class is a record, shared pointers are addresses into a heap (a map), a failed
  assertion, a null pointer and a thrown exception are values of an error type, integers are words of
  their width. A method that holds a lock throughout is one step; where the code works without its
  lock, or under a lock that does not exclude another caller, the parts are steps of their own, and
  the races this allows are theorems (C16, C17, C24, C27, C30, C31, C33, and the findings of the manifest).

  \<^bold>\<open>Outside the repository\<close> and therefore arguments of the definitions: \<open>epoll_ctl\<close> and what
  \<open>epoll_wait\<close> reports, the clock, \<open>strftime\<close>, \<open>yaml-cpp\<close> (record \<open>yaml\<close> with the laws \<open>yaml_laws\<close>),
  \<open>boost::lexical_cast\<close> (the casts of a type), the pthread locks (\<open>pthread_law\<close>), the address the
  allocator returns, and the user's callbacks.

  \<^bold>\<open>Bounds.\<close> \<open>logger_log\<close> takes the length of the chain of root loggers: 2 is always enough, because the
  manager links every logger to the root, which has none (C28). \<open>ListAllMember\<close> takes a bound on the
  depth of the document: any bound that \<open>fits\<close> gives the same result (C34). All other loops are total
  functions with a measure, or step relations.

  \<^bold>\<open>Not modelled\<close>: the messages the library logs about itself (except that of the listener), stack
  memory, signals, failures of the file system, and the address subclasses, which have no body in the repository. Of the
  wake-up pipe only the number of bytes is kept. \<open>wille.h\<close> is a list of includes.
\<close>

end
